(* ===== verification/Prelude.thy ===== *)
theory Prelude
  imports Complex_Main "HOL-Library.Word" "HOL-Library.Multiset" "HOL-Library.AList" "HOL-Library.Sublist"
    "HOL-Library.Monad_Syntax"
begin

text \<open>
  Shared by every theory of the development: names for the machine integers of the Rust
  code, the value that stands for a panic, and the facts on lists, association lists and
  words that more than one component uses.

  A \<open>usize\<close> is a \<open>nat\<close>: the code uses it for lengths, indices and counters below a
  configured cap, and the theories say where the cap keeps it inside 64 bits. The \<open>u64\<close>
  clocks, sequence numbers and hashes are \<open>64 word\<close>, so the wrap-around of a release build
  is part of the model.
\<close>

type_synonym u64 = "64 word"
type_synonym u32 = "32 word"
type_synonym usize = nat

text \<open>A computation that may panic: \<open>None\<close> is the panic, \<open>Some\<close> the value returned.\<close>

type_synonym 'a panics = "'a option"

text \<open>
  \<open>lru_simps\<close> collects the effect of the cache operations on the fields of the cache,
  \<open>sched_simps\<close> the effect of the scheduler operations on its fields.
\<close>

named_theorems lru_simps
named_theorems sched_simps

text \<open>Indexing a \<open>Vec\<close>: out of bounds is a panic.\<close>

definition vec_get :: "'a list \<Rightarrow> usize \<Rightarrow> 'a panics" where
  "vec_get xs i = (if i < length xs then Some (xs ! i) else None)"

lemma vec_get_Some [simp]: "vec_get xs i = Some x \<longleftrightarrow> i < length xs \<and> x = xs ! i"
  by (auto simp: vec_get_def)

lemma vec_get_in_range: "i < length xs \<Longrightarrow> vec_get xs i = Some (xs ! i)"
  by simp

text \<open>\<open>Iterator::min_by_key\<close>: the first of the least elements.\<close>

fun min_by_key :: "('a \<Rightarrow> nat) \<Rightarrow> 'a list \<Rightarrow> 'a option" where
  "min_by_key f [] = None"
| "min_by_key f (x # xs) = Some (foldl (\<lambda>m y. if f y < f m then y else m) x xs)"

subsection \<open>Lists\<close>

lemma foldl_min_by:
  "foldl (\<lambda>m y. if f y < f m then y else m) x xs \<in> set (x # xs) \<and>
   (\<forall>y\<in>set (x # xs). (f (foldl (\<lambda>m y. if f y < f m then y else m) x xs) :: nat) \<le> f y)"
proof (induction xs arbitrary: x)
  case Nil
  then show ?case by simp
next
  case (Cons z xs)
  show ?case using Cons.IH[of z] Cons.IH[of x] by (auto simp: not_less intro: order_trans less_imp_le)
qed

lemma min_by_key_Some:
  assumes "min_by_key f xs = Some m"
  shows "m \<in> set xs" and "\<forall>y\<in>set xs. f m \<le> f y"
proof -
  from assms obtain z zs where xs: "xs = z # zs" by (cases xs) auto
  with assms foldl_min_by[of f z zs] show "m \<in> set xs" "\<forall>y\<in>set xs. f m \<le> f y" by auto
qed

lemma min_by_key_nonempty: "xs \<noteq> [] \<Longrightarrow> \<exists>m. min_by_key f xs = Some m"
  by (cases xs) auto

lemma remdups_snoc: "remdups (xs @ [x]) = filter (\<lambda>y. y \<noteq> x) (remdups xs) @ [x]"
  by (induction xs) auto

lemma mset_snocD: "xs = ys @ [x] \<Longrightarrow> mset xs = add_mset x (mset ys)"
  by simp

lemma filter_notin_snoc:
  "filter (\<lambda>y. y \<noteq> x) (filter (\<lambda>y. y \<notin> set xs) ys) = filter (\<lambda>y. y \<notin> set (xs @ [x])) ys"
  by (induction ys) auto

lemma length_takeWhile_eq_count:
  "length (takeWhile P xs) = length xs \<longleftrightarrow> (\<forall>x\<in>set xs. P x)"
  by (induction xs) auto

lemma takeWhile_eq_filter:
  "(\<And>j i. j < length xs \<Longrightarrow> P (xs ! j) \<Longrightarrow> i \<le> j \<Longrightarrow> P (xs ! i)) \<Longrightarrow> takeWhile P xs = filter P xs"
proof (induction xs)
  case Nil
  show ?case by simp
next
  case (Cons x xs)
  show ?case
  proof (cases "P x")
    case True
    have "P (xs ! i)" if "j < length xs" "P (xs ! j)" "i \<le> j" for i j
      using Cons.prems[of "Suc j" "Suc i"] that by simp
    with True Cons.IH show ?thesis by simp
  next
    case False
    with Cons.prems[of _ 0] have "\<not> P y" if "y \<in> set xs" for y
      using that by (metis Suc_less_eq in_set_conv_nth length_Cons nth_Cons_0 nth_Cons_Suc zero_le)
    with False show ?thesis by (simp add: filter_empty_conv)
  qed
qed

lemma take_filter_ex: "\<exists>m. take n (filter P xs) = filter P (take m xs)"
proof (induction xs arbitrary: n)
  case Nil
  show ?case by simp
next
  case (Cons x xs)
  show ?case
  proof (cases "P x \<and> n = 0")
    case True
    then show ?thesis by (metis filter.simps(1) take0)
  next
    case False
    from Cons.IH[of "if P x then n - 1 else n"]
    obtain m where m: "take (if P x then n - 1 else n) (filter P xs) = filter P (take m xs)" ..
    with False have "take n (filter P (x # xs)) = filter P (take (Suc m) (x # xs))"
      by (cases n) auto
    then show ?thesis ..
  qed
qed

lemma sorted_last_max: "sorted xs \<Longrightarrow> x \<in> set xs \<Longrightarrow> x \<le> last xs"
  by (induction xs) auto

lemma sum_list_map_update:
  fixes f :: "'a \<Rightarrow> nat"
  assumes "k < length xs"
  shows "sum_list (map f (xs[k := x])) + f (xs ! k) = sum_list (map f xs) + f x"
  using assms by (induction xs arbitrary: k) (auto simp: nth_Cons' split: nat.splits)

lemma sum_list_update_word:
  assumes "i < length ms" and "f x = f (ms ! i) + (d :: u64)"
  shows "sum_list (map f (ms[i := x])) = sum_list (map f ms) + d"
  using assms by (induction ms arbitrary: i) (auto simp: nth_Cons' add_ac split: nat.splits)

lemma UN_list_update:
  assumes "k < length xs"
  shows "(\<Union>x\<in>set (xs[k := y]). g x) \<union> g (xs ! k) = (\<Union>x\<in>set xs. g x) \<union> g y"
  using assms by (induction xs arbitrary: k) (auto simp: nth_Cons' split: nat.splits)

lemma sum_list_update_less:
  assumes "i < length xs" and "f x < f (xs ! i)"
  shows "sum_list (map f (xs[i := x])) < (sum_list (map f xs) :: nat)"
  using assms
proof (induction xs arbitrary: i)
  case (Cons y ys)
  then show ?case by (cases i) auto
qed simp

subsection \<open>Words\<close>

lemma word_Suc_no_wrap: "unat (x :: u64) + 1 < 2 ^ 64 \<Longrightarrow> unat (x + 1) = unat x + 1"
  by (simp add: unat_word_ariths)

lemma word_less_Suc_no_wrap: "unat (x :: u64) + 1 < 2 ^ 64 \<Longrightarrow> y \<le> x \<Longrightarrow> y < x + 1"
  by (simp add: word_less_nat_alt word_le_nat_alt word_Suc_no_wrap)

lemma word_le_Suc_no_wrap: "unat (x :: u64) + 1 < 2 ^ 64 \<Longrightarrow> y \<le> x \<Longrightarrow> y \<le> x + 1"
  by (rule less_imp_le) (rule word_less_Suc_no_wrap)

end
