(* ===== verification/Lru_Spec.thy ===== *)
theory Lru_Spec
  imports Prelude
begin

text \<open>
  What the two block caches promise, with no clock, no heap and no hash map: a cache is the
  list of its blocks, the one to be evicted last first. Touching a chain of blocks moves its
  blocks to the front in chain order (one tick, so the tail of the chain goes before its
  head when space is needed); eviction keeps a prefix of the list.

  The second half of the theory is the argument why a cache of chained hashes never holds a
  block without the blocks before it: it is a property of this specification alone.
\<close>

definition lru_touch :: "'a list \<Rightarrow> 'a list \<Rightarrow> 'a list" where
  "lru_touch hs xs = remdups hs @ filter (\<lambda>x. x \<notin> set hs) xs"

definition lru_hits :: "'a list \<Rightarrow> 'a list \<Rightarrow> nat" where
  "lru_hits hs xs = length (takeWhile (\<lambda>h. h \<in> set xs) hs)"

definition lru_match :: "'a list \<Rightarrow> 'a list \<Rightarrow> 'a list" where
  "lru_match hs xs = lru_touch (takeWhile (\<lambda>h. h \<in> set xs) hs) xs"

definition lru_evict :: "nat \<Rightarrow> 'a list \<Rightarrow> 'a list" where
  "lru_evict budget xs = take budget xs"

definition lru_admit :: "nat \<Rightarrow> 'a list \<Rightarrow> 'a list \<Rightarrow> 'a list" where
  "lru_admit budget hs xs = lru_evict budget (lru_touch hs xs)"

text \<open>Serving prompts one after the other: the hits of each, and the blocks at the end.\<close>

fun lru_serve :: "nat \<Rightarrow> 'a list list \<Rightarrow> 'a list \<Rightarrow> 'a list \<times> nat list" where
  "lru_serve b [] xs = (xs, [])"
| "lru_serve b (hs # hss) xs =
     (let (ys, ns) = lru_serve b hss (lru_admit b hs xs) in (ys, lru_hits hs xs # ns))"

lemma set_lru_touch [simp]: "set (lru_touch hs xs) = set hs \<union> set xs"
  by (auto simp: lru_touch_def)

lemma distinct_lru_touch: "distinct xs \<Longrightarrow> distinct (lru_touch hs xs)"
  by (auto simp: lru_touch_def)

lemma set_lru_match [simp]: "set (lru_match hs xs) = set xs"
  by (auto simp: lru_match_def dest: set_takeWhileD)

lemma lru_hits_le: "lru_hits hs xs \<le> length hs"
  by (simp add: lru_hits_def length_takeWhile_le)

lemma lru_hits_full: "lru_hits hs xs = length hs \<longleftrightarrow> set hs \<subseteq> set xs"
  by (auto simp: lru_hits_def length_takeWhile_eq_count)

lemma length_lru_evict: "length (lru_evict b xs) = min b (length xs)"
  by (simp add: lru_evict_def min.commute)

lemma take_fits: "length xs \<le> n \<Longrightarrow> set xs \<subseteq> set (take n (xs @ ys))"
  by (auto simp: take_append)

lemma lru_admit_keeps_chain:
  "length (remdups hs) \<le> budget \<Longrightarrow> set hs \<subseteq> set (lru_admit budget hs xs)"
  using take_fits[of "remdups hs" budget "filter (\<lambda>x. x \<notin> set hs) xs"]
  by (simp add: lru_admit_def lru_evict_def lru_touch_def)

text \<open>The stack property of recency lists: an admitted chain takes the first places, and every further
  admission moves what is there back by at most its own length.\<close>

lemma lru_admit_front: "length hs \<le> b \<Longrightarrow> set hs \<subseteq> set (take (length hs) (lru_admit b hs xs))"
  using take_fits[of "remdups hs" "length hs" "filter (\<lambda>x. x \<notin> set hs) xs"] length_remdups_leq[of hs]
  by (simp add: lru_admit_def lru_evict_def lru_touch_def min_absorb1)

lemma lru_admit_moves_back:
  assumes "set ps \<subseteq> set (take k xs)" and "k + length hs \<le> b"
  shows "set ps \<subseteq> set (take (k + length hs) (lru_admit b hs xs))"
proof
  fix x assume "x \<in> set ps"
  then have x: "x \<in> set (take k xs)" using assms(1) by blast
  let ?f = "filter (\<lambda>x. x \<notin> set hs)"
  have admitted: "take (k + length hs) (lru_admit b hs xs) = take (k + length hs) (remdups hs @ ?f xs)"
    using assms(2) by (simp add: lru_admit_def lru_evict_def lru_touch_def min_absorb1 del: take_append)
  obtain m where m: "?f (take k xs) = take m (?f xs)" "m \<le> k"
    by (metis append_take_drop_id append_eq_conv_conj filter_append length_filter_le length_take min.cobounded2 order_trans)
  have "length (remdups hs) \<le> k + length hs" using length_remdups_leq[of hs] by linarith
  moreover have "m \<le> k + length hs - length (remdups hs)" using m(2) length_remdups_leq[of hs] by linarith
  then have "set (take m (?f xs)) \<subseteq> set (take (k + length hs - length (remdups hs)) (?f xs))"
    by (rule set_take_subset_set_take)
  ultimately have "set hs \<union> set (take m (?f xs)) \<subseteq> set (take (k + length hs) (remdups hs @ ?f xs))"
    by (auto simp: take_append)
  moreover have "x \<in> set hs \<union> set (take m (?f xs))" using x by (simp flip: m(1))
  ultimately show "x \<in> set (take (k + length hs) (lru_admit b hs xs))"
    unfolding admitted by blast
qed

subsection \<open>Chains that form a tree\<close>

text \<open>
  Chained block hashes form a tree: a hash stands at one position only, below one prefix
  only. \<open>F\<close> is the set of chains a cache is used with.
\<close>

definition chain_family :: "'a list set \<Rightarrow> bool" where
  "chain_family F = (\<forall>c\<in>F. \<forall>d\<in>F. \<forall>i<length c. \<forall>j<length d.
     c ! i = d ! j \<longrightarrow> i = j \<and> take i c = take j d)"

text \<open>A set of blocks is closed when each block's predecessor in its chain is there too.\<close>

definition prefix_closed :: "'a list set \<Rightarrow> 'a set \<Rightarrow> bool" where
  "prefix_closed F S = (\<forall>c\<in>F. \<forall>i. Suc i < length c \<longrightarrow> c ! Suc i \<in> S \<longrightarrow> c ! i \<in> S)"

text \<open>
  The invariant: whatever number of blocks is evicted, what is left is closed. It says that
  in the list a block always stands after its predecessor.
\<close>

definition tail_first :: "'a list set \<Rightarrow> 'a list \<Rightarrow> bool" where
  "tail_first F xs = (\<forall>n. prefix_closed F (set (take n xs)))"

lemma tail_first_Nil [simp]: "tail_first F []"
  by (simp add: tail_first_def prefix_closed_def)

lemma tail_first_evict: "tail_first F xs \<Longrightarrow> tail_first F (lru_evict b xs)"
  by (simp add: tail_first_def lru_evict_def)

lemma tail_first_closed: "tail_first F xs \<Longrightarrow> prefix_closed F (set xs)"
  unfolding tail_first_def by (metis order_refl take_all)

lemma chain_family_distinct: "chain_family F \<Longrightarrow> c \<in> F \<Longrightarrow> distinct c"
  unfolding chain_family_def distinct_conv_nth by blast

lemma chain_family_pred:
  assumes "chain_family F" "c \<in> F" "d \<in> F" "Suc i < length c" "j < length d" "c ! Suc i = d ! j"
  shows "j = Suc i" and "c ! i = d ! i"
proof -
  from assms have eq: "Suc i = j \<and> take (Suc i) c = take j d"
    unfolding chain_family_def by blast
  then show "j = Suc i" by simp
  from eq have "take (Suc i) c = take (Suc i) d" by metis
  from arg_cong[OF this, of "\<lambda>xs. xs ! i"] show "c ! i = d ! i" by simp
qed

lemma tail_first_touch:
  assumes F: "chain_family F" and hs: "hs \<in> F" and p: "p = take k hs" and xs: "tail_first F xs"
  shows "tail_first F (lru_touch p xs)"
  unfolding tail_first_def prefix_closed_def
proof (intro allI ballI impI)
  fix n c i
  assume c: "c \<in> F" and i: "Suc i < length c" and mem: "c ! Suc i \<in> set (take n (lru_touch p xs))"
  have "distinct p" using chain_family_distinct[OF F hs] p by simp
  then have touch: "lru_touch p xs = p @ filter (\<lambda>x. x \<notin> set p) xs"
    by (simp add: lru_touch_def distinct_remdups_id)
  obtain m where m: "take (n - length p) (filter (\<lambda>x. x \<notin> set p) xs) = filter (\<lambda>x. x \<notin> set p) (take m xs)"
    using take_filter_ex by blast
  have split: "take n (lru_touch p xs) = take n p @ filter (\<lambda>x. x \<notin> set p) (take m xs)"
    using m by (simp add: touch)
  have "c ! Suc i \<in> set (take n p) \<or>
      c ! Suc i \<in> set (filter (\<lambda>x. x \<notin> set p) (take m xs)) \<and> n > length p"
    using mem by (cases "n > length p") (auto simp: touch simp flip: m)
  then consider "c ! Suc i \<in> set (take n p)"
    | "c ! Suc i \<in> set (take m xs)" "c ! Suc i \<notin> set p" "n > length p"
    by auto
  then show "c ! i \<in> set (take n (lru_touch p xs))"
  proof cases
    case 1
    then obtain j where j: "j < n" "j < length p" "c ! Suc i = p ! j"
      by (auto simp: in_set_conv_nth)
    with p have "j < length hs" "c ! Suc i = hs ! j" by auto
    with chain_family_pred[OF F c hs i] have "j = Suc i" "c ! i = hs ! i" by auto
    with j p have "c ! i = take n p ! i" "i < length (take n p)" by auto
    then show ?thesis by (metis UnCI nth_mem set_append split)
  next
    case 2
    from xs c i 2 have "c ! i \<in> set (take m xs)"
      unfolding tail_first_def prefix_closed_def by blast
    with 2 show ?thesis by (auto simp: split)
  qed
qed

text \<open>Closed sets: counting the leading blocks present is counting all blocks present.\<close>

lemma prefix_closed_below:
  assumes "prefix_closed F S" "c \<in> F" "j < length c" "c ! j \<in> S" "i \<le> j"
  shows "c ! i \<in> S"
proof -
  have "c ! (j - k) \<in> S" for k
  proof (induction k)
    case 0
    show ?case using assms by simp
  next
    case (Suc k)
    show ?case
    proof (cases "j - k = 0")
      case True
      with Suc show ?thesis by simp
    next
      case False
      then have "j - k = Suc (j - Suc k)" by simp
      with Suc assms(1-3) show ?thesis
        unfolding prefix_closed_def by (metis diff_le_self order_le_less_trans)
    qed
  qed
  from this[of "j - i"] assms(5) show ?thesis by simp
qed

lemma closed_takeWhile_eq_filter:
  assumes "prefix_closed F (set xs)" "c \<in> F"
  shows "takeWhile (\<lambda>h. h \<in> set xs) c = filter (\<lambda>h. h \<in> set xs) c"
  by (rule takeWhile_eq_filter) (rule prefix_closed_below[OF assms])

end
