(* ===== verification/Blocks.thy ===== *)
theory Blocks
  imports Lru_Spec
begin

unbundle bit_operations_syntax

text \<open>
  \<open>crates/protocol/src/blocks.rs\<close>: prompts as chains of block hashes, FNV-1a chained over
  blocks of 16 tokens. Hash \<open>i\<close> is shown to be the FNV-1a hash of the first \<open>16 * (i + 1)\<close>
  tokens, from which the sharing of prefixes, the dropped partial block and the sensitivity to
  position follow; a set of prompts without collisions yields chains that form a tree, the
  hypothesis the caches' no-orphan property needs.
\<close>

definition BLOCK_SIZE :: usize where
  "BLOCK_SIZE = 16"

definition FNV_OFFSET :: u64 where
  "FNV_OFFSET = 0xcbf29ce484222325"

text \<open>\<open>h ^= t as u64; h = h.wrapping_mul(0x100000001b3)\<close>.\<close>

definition fnv_step :: "u64 \<Rightarrow> u32 \<Rightarrow> u64" where
  "fnv_step h t = (h XOR ucast t) * 0x100000001b3"

text \<open>\<open>chunks_exact\<close> of the standard library: full chunks only.\<close>

function chunks_exact :: "nat \<Rightarrow> 'a list \<Rightarrow> 'a list list" where
  "chunks_exact n xs = (if n = 0 \<or> length xs < n then [] else take n xs # chunks_exact n (drop n xs))"
  by pat_completeness auto
termination
  by (relation "measure (\<lambda>(n, xs). length xs)") auto

declare chunks_exact.simps [simp del]

fun hash_blocks :: "u64 \<Rightarrow> u32 list list \<Rightarrow> u64 list" where
  "hash_blocks prev [] = []"
| "hash_blocks prev (block # blocks) =
     (let h = foldl fnv_step prev block in h # hash_blocks h blocks)"

definition block_hashes :: "u32 list \<Rightarrow> u64 list" where
  "block_hashes tokens = hash_blocks FNV_OFFSET (chunks_exact BLOCK_SIZE tokens)"

subsection \<open>The hash of a prefix\<close>

definition fnv1a :: "u32 list \<Rightarrow> u64" where
  "fnv1a tokens = foldl fnv_step FNV_OFFSET tokens"

lemma hash_blocks_chunks:
  "n > 0 \<Longrightarrow> hash_blocks prev (chunks_exact n ts) =
    map (\<lambda>i. foldl fnv_step prev (take (n * Suc i) ts)) [0..<length ts div n]"
proof (induction n ts arbitrary: prev rule: chunks_exact.induct)
  case (1 n ts)
  show ?case
  proof (cases "length ts < n")
    case True
    then show ?thesis by (simp add: chunks_exact.simps[of n ts])
  next
    case False
    then have len: "length ts div n = Suc (length (drop n ts) div n)"
      using "1.prems" by (simp add: le_div_geq)
    have "take (n * Suc (Suc i)) ts = take n ts @ take (n * Suc i) (drop n ts)" for i
      by (simp add: take_add[symmetric])
    then have tail: "foldl fnv_step prev (take (n * Suc (Suc i)) ts) =
        foldl fnv_step (foldl fnv_step prev (take n ts)) (take (n * Suc i) (drop n ts))" for i
      by (simp add: foldl_append)
    have "hash_blocks prev (chunks_exact n ts) = foldl fnv_step prev (take n ts) #
        map (\<lambda>i. foldl fnv_step prev (take (n * Suc (Suc i)) ts)) [0..<length (drop n ts) div n]"
      using "1.IH" "1.prems" False by (simp only: chunks_exact.simps[of n ts] tail) (simp add: Let_def)
    also have "\<dots> = map (\<lambda>i. foldl fnv_step prev (take (n * Suc i) ts)) [0..<length ts div n]"
      unfolding len by (simp only: upt_conv_Cons map_Suc_upt[symmetric]) (simp add: upt_rec comp_def map_Suc_upt[symmetric] del: upt_Suc)
    finally show ?thesis .
  qed
qed

lemma block_hashes_eq:
  "block_hashes ts = map (\<lambda>i. fnv1a (take (BLOCK_SIZE * Suc i) ts)) [0..<length ts div BLOCK_SIZE]"
  unfolding block_hashes_def fnv1a_def by (rule hash_blocks_chunks) (simp add: BLOCK_SIZE_def)

lemma length_block_hashes: "length (block_hashes ts) = length ts div BLOCK_SIZE"
  by (simp add: block_hashes_eq)

lemma nth_block_hashes:
  "i < length ts div BLOCK_SIZE \<Longrightarrow> block_hashes ts ! i = fnv1a (take (BLOCK_SIZE * Suc i) ts)"
  by (simp add: block_hashes_eq)

subsection \<open>One step is injective in the state and in the token\<close>

lemma fnv_prime_inverse: "(0x100000001b3 :: u64) * 0xce965057aff6957b = 1"
  by simp

lemma mult_fnv_prime_inject: "x * (0x100000001b3 :: u64) = y * 0x100000001b3 \<longleftrightarrow> x = y"
proof
  assume "x * (0x100000001b3 :: u64) = y * 0x100000001b3"
  then have "x * 0x100000001b3 * (0xce965057aff6957b :: u64) = y * 0x100000001b3 * 0xce965057aff6957b"
    by (rule arg_cong)
  then show "x = y" using fnv_prime_inverse by (simp only: mult.assoc mult_1_right)
qed simp

lemma xor_cancel_left: "(h :: u64) XOR x = h XOR y \<longleftrightarrow> x = y"
  by (auto simp: bit_eq_iff bit_xor_iff)

lemma fnv_step_inject_token: "fnv_step h t = fnv_step h u \<longleftrightarrow> t = u"
proof -
  have "ucast (ucast w :: u64) = w" for w :: u32
    by (rule ucast_up_ucast_id) (simp add: is_up)
  then have "(ucast t :: u64) = ucast u \<longleftrightarrow> t = u"
    by metis
  then show ?thesis by (simp only: fnv_step_def mult_fnv_prime_inject xor_cancel_left)
qed

lemma fnv_step_inject_state: "fnv_step g t = fnv_step h t \<longleftrightarrow> g = h"
  by (simp only: fnv_step_def mult_fnv_prime_inject xor.commute[of _ "ucast t"] xor_cancel_left)

lemma foldl_fnv_inject: "foldl fnv_step g ts = foldl fnv_step h ts \<longleftrightarrow> g = h"
  by (induction ts arbitrary: g h) (simp_all add: fnv_step_inject_state)

lemma fnv1a_append_inject: "fnv1a (ts @ xs) = fnv1a (us @ xs) \<longleftrightarrow> fnv1a ts = fnv1a us"
  by (simp add: fnv1a_def foldl_fnv_inject)

lemma fnv1a_one_token:
  "fnv1a (ts @ t # xs) = fnv1a (ts @ u # xs) \<longleftrightarrow> t = u"
  by (simp add: fnv1a_def foldl_fnv_inject fnv_step_inject_token)

subsection \<open>Properties\<close>

text \<open>C29. Chaining the block hashes computes running FNV-1a hashes: there is one hash per full
  block, a partial last block is dropped, and hash \<open>i\<close> is the FNV-1a hash of all tokens up to the
  end of block \<open>i\<close>.\<close>

theorem block_hashes_running_fnv:
  "length (block_hashes ts) = length ts div 16 \<and>
   block_hashes ts = map (\<lambda>i. foldl fnv_step FNV_OFFSET (take (16 * (i + 1)) ts)) [0..<length ts div 16]"
  using block_hashes_eq[of ts] length_block_hashes[of ts] by (simp add: BLOCK_SIZE_def fnv1a_def)

lemma shared_prefix_hashes:
  assumes "take n ts = take n us"
  shows "take (n div BLOCK_SIZE) (block_hashes ts) = take (n div BLOCK_SIZE) (block_hashes us)"
proof (rule nth_equalityI)
  have len: "min n (length ts) = min n (length us)" using arg_cong[OF assms, of length] by simp
  have "min (n div BLOCK_SIZE) (length xs div BLOCK_SIZE) = min n (length xs) div BLOCK_SIZE" for xs :: "u32 list"
    by (rule min_of_mono) (simp add: mono_def div_le_mono)
  with len show "length (take (n div BLOCK_SIZE) (block_hashes ts)) = length (take (n div BLOCK_SIZE) (block_hashes us))"
    by (simp add: length_block_hashes min.commute)
  then have both: "i < length us div BLOCK_SIZE" if "i < length (take (n div BLOCK_SIZE) (block_hashes ts))" for i
    using that by (auto simp: length_block_hashes)
  fix i assume i: "i < length (take (n div BLOCK_SIZE) (block_hashes ts))"
  then have "BLOCK_SIZE * Suc i \<le> n"
    by (auto simp: length_block_hashes BLOCK_SIZE_def)
  then have "take (BLOCK_SIZE * Suc i) ts = take (BLOCK_SIZE * Suc i) us"
    using arg_cong[OF assms, of "take (BLOCK_SIZE * Suc i)"] by (simp add: min_def)
  with i both show "take (n div BLOCK_SIZE) (block_hashes ts) ! i = take (n div BLOCK_SIZE) (block_hashes us) ! i"
    by (simp add: length_block_hashes nth_block_hashes)
qed

lemma block_hashes_prefix:
  assumes "prefix ts us"
  shows "prefix (block_hashes ts) (block_hashes us)"
proof -
  from assms have "take (length ts) ts = take (length ts) us" by (auto elim: prefixE)
  from shared_prefix_hashes[OF this] have "block_hashes ts = take (length ts div BLOCK_SIZE) (block_hashes us)"
    by (simp add: length_block_hashes)
  then show ?thesis by (metis take_is_prefix)
qed

text \<open>Prompts that share their first \<open>n\<close> tokens share the hashes of the blocks these fill.\<close>

theorem shared_prefix_shares_hashes:
  "take n ts = take n us \<Longrightarrow> take (n div 16) (block_hashes ts) = take (n div 16) (block_hashes us)"
  using shared_prefix_hashes[of n ts us] by (simp add: BLOCK_SIZE_def)

theorem shared_prefix_shares_hashes_witness:
  "take 2 (block_hashes (replicate 40 7 @ [1, 2, 3])) = take 2 (block_hashes (replicate 40 7 @ replicate 30 9))
   \<and> length (block_hashes (replicate 40 7 @ replicate 30 9)) = 4"
  using shared_prefix_shares_hashes[of 40 "replicate 40 7 @ [1, 2, 3]" "replicate 40 7 @ replicate 30 9"]
  by (simp add: length_block_hashes BLOCK_SIZE_def)

text \<open>A hash commits to its position and to everything before it: changing one token of a
  prompt leaves the hashes of the earlier blocks and changes the hash of its own block and of
  every block after it, whatever the tokens are (no collision can hide one changed token).\<close>

theorem one_token_changes_all_later_hashes:
  assumes "p < length ts" and "x \<noteq> ts ! p" and "i < length ts div 16"
  shows "block_hashes (ts[p := x]) ! i = block_hashes ts ! i \<longleftrightarrow> i < p div 16"
proof -
  let ?n = "BLOCK_SIZE * Suc i"
  have i: "i < length ts div BLOCK_SIZE" using assms(3) by (simp add: BLOCK_SIZE_def)
  then have hash: "block_hashes ts ! i = fnv1a (take ?n ts)"
      "block_hashes (ts[p := x]) ! i = fnv1a (take ?n (ts[p := x]))"
    by (simp_all add: nth_block_hashes)
  show ?thesis
  proof (cases "i < p div 16")
    case True
    then have "?n \<le> p" by (auto simp: BLOCK_SIZE_def)
    with True hash show ?thesis by (simp add: take_update_cancel)
  next
    case False
    then have "p < ?n" by (auto simp: BLOCK_SIZE_def)
    then have p: "p < length (take ?n ts)" using assms(1) by simp
    have "take ?n (ts[p := x]) = (take ?n ts)[p := x]"
      by (rule take_update_swap)
    also have "\<dots> = take p (take ?n ts) @ x # drop (Suc p) (take ?n ts)"
      by (rule upd_conv_take_nth_drop[OF p])
    finally have "take ?n (ts[p := x]) = take p (take ?n ts) @ x # drop (Suc p) (take ?n ts)" .
    moreover have "take ?n ts = take p (take ?n ts) @ (take ?n ts ! p) # drop (Suc p) (take ?n ts)"
      using p by (rule id_take_nth_drop)
    moreover have "take ?n ts ! p = ts ! p" using \<open>p < ?n\<close> by simp
    ultimately have "block_hashes (ts[p := x]) ! i = block_hashes ts ! i \<longleftrightarrow> x = ts ! p"
      unfolding hash by (metis fnv1a_one_token)
    with False assms(2) show ?thesis by simp
  qed
qed

theorem one_token_changes_all_later_hashes_witness:
  "block_hashes ((replicate 48 7)[20 := 8]) ! 0 = block_hashes (replicate 48 7) ! 0 \<and>
   block_hashes ((replicate 48 7)[20 := 8]) ! 1 \<noteq> block_hashes (replicate 48 7) ! 1 \<and>
   block_hashes ((replicate 48 7)[20 := 8]) ! 2 \<noteq> block_hashes (replicate 48 7) ! 2"
  using one_token_changes_all_later_hashes[of 20 "replicate 48 7" 8 0]
    one_token_changes_all_later_hashes[of 20 "replicate 48 7" 8 1]
    one_token_changes_all_later_hashes[of 20 "replicate 48 7" 8 2]
  by simp

text \<open>No two different block-aligned prefixes of the prompts \<open>T\<close> have the same 64-bit hash.\<close>

definition collision_free :: "u32 list list \<Rightarrow> bool" where
  "collision_free T = (\<forall>ts\<in>set T. \<forall>us\<in>set T. \<forall>i<length ts div BLOCK_SIZE. \<forall>j<length us div BLOCK_SIZE.
     fnv1a (take (BLOCK_SIZE * Suc i) ts) = fnv1a (take (BLOCK_SIZE * Suc j) us) \<longrightarrow>
     take (BLOCK_SIZE * Suc i) ts = take (BLOCK_SIZE * Suc j) us)"

text \<open>The chains of a set of prompts without hash collisions form a tree: equal hashes stand at
  equal positions below equal prefixes. This is what lets a flat map stand for a radix tree.\<close>

theorem block_hashes_chain_family:
  assumes "collision_free T"
  shows "chain_family (block_hashes ` set T)"
  unfolding chain_family_def
proof (intro ballI allI impI)
  fix c d i j
  assume "c \<in> block_hashes ` set T" "d \<in> block_hashes ` set T"
  then obtain ts us where ts: "ts \<in> set T" "c = block_hashes ts" and us: "us \<in> set T" "d = block_hashes us"
    by blast
  assume "i < length c" "j < length d" and eq: "c ! i = d ! j"
  with ts us have ij: "i < length ts div BLOCK_SIZE" "j < length us div BLOCK_SIZE"
    by (simp_all add: length_block_hashes)
  with assms ts us eq have tk: "take (BLOCK_SIZE * Suc i) ts = take (BLOCK_SIZE * Suc j) us"
    unfolding collision_free_def by (simp add: nth_block_hashes del: mult_Suc_right)
  have "BLOCK_SIZE * Suc i \<le> length ts" "BLOCK_SIZE * Suc j \<le> length us"
    using ij by (auto simp: BLOCK_SIZE_def)
  then have "length (take (BLOCK_SIZE * Suc i) ts) = BLOCK_SIZE * Suc i"
      "length (take (BLOCK_SIZE * Suc j) us) = BLOCK_SIZE * Suc j"
    by (simp_all only: length_take min.absorb2)
  with tk have "i = j" by (simp add: BLOCK_SIZE_def)
  moreover have "take i c = take i d"
    using arg_cong[OF shared_prefix_hashes[of "BLOCK_SIZE * Suc i" ts us], of "take i"] tk \<open>i = j\<close> ts us
    by (simp add: BLOCK_SIZE_def)
  ultimately show "i = j \<and> take i c = take j d" by simp
qed

text \<open>
  Two prompts of two blocks that share the first one; their hashes are told apart by parity
  and by the last token alone.
\<close>

definition demo_prompts :: "u32 list list" where
  "demo_prompts =
     [replicate 15 0 @ [1] @ replicate 15 0 @ [1], replicate 15 0 @ [1] @ replicate 15 0 @ [3]]"

lemma even_fnv_step: "even (fnv_step h t) \<longleftrightarrow> (even h \<longleftrightarrow> even t)"
proof -
  have "even (ucast t :: u64) \<longleftrightarrow> even t"
    using bit_ucast_iff[where 'a = 64 and 'b = 32, of t 0] by (simp add: bit_0)
  then show ?thesis by (simp add: fnv_step_def even_xor_iff)
qed

lemma even_foldl_fnv_zeros: "even (foldl fnv_step h (replicate n 0)) \<longleftrightarrow> even h"
  by (induction n arbitrary: h) (simp_all add: even_fnv_step)

lemma demo_hash_parity:
  "even (fnv1a (replicate 15 0 @ [1]))"
  "odd (fnv1a (replicate 15 0 @ [1] @ replicate 15 0 @ [1]))"
  "odd (fnv1a (replicate 15 0 @ [1] @ replicate 15 0 @ [3]))"
  "fnv1a (replicate 15 0 @ [1] @ replicate 15 0 @ [1]) \<noteq> fnv1a (replicate 15 0 @ [1] @ replicate 15 0 @ [3])"
  using fnv1a_one_token[of "replicate 15 0 @ [1] @ replicate 15 0" 1 "[]" 3]
  by (simp_all add: fnv1a_def even_fnv_step even_foldl_fnv_zeros FNV_OFFSET_def)

lemma less_2_iff: "(i :: nat) < 2 \<longleftrightarrow> i = 0 \<or> i = 1"
  by auto

lemma demo_collision_free: "collision_free demo_prompts"
  using demo_hash_parity
  by (auto simp: collision_free_def demo_prompts_def BLOCK_SIZE_def less_2_iff)

theorem block_hashes_chain_family_witness: "chain_family (block_hashes ` set demo_prompts)"
  by (rule block_hashes_chain_family[OF demo_collision_free])

end
