(* ===== verification/Std_Collections.thy ===== *)
theory Std_Collections
  imports Prelude
begin

text \<open>
  The two containers of the Rust standard library (and \<open>rustc_hash\<close>) the caches are
  built on, each as the interface the caches use and an executable model of it:
  \<^item> \<open>FxHashMap\<close>: an association list with distinct keys; \<open>insert\<close> overwrites, \<open>len\<close>
    counts keys, iteration visits every entry once in some order;
  \<^item> \<open>BinaryHeap\<close>: a bag of which \<open>pop\<close> removes a greatest element.
  The interfaces are the locales \<open>hash_map_api\<close> and \<open>binary_heap_api\<close>; the models
  interpret them.
\<close>

subsection \<open>FxHashMap\<close>

type_synonym ('k, 'v) hash_map = "('k \<times> 'v) list"

definition hm_get :: "('k, 'v) hash_map \<Rightarrow> 'k \<Rightarrow> 'v option" where
  "hm_get m k = map_of m k"

definition hm_contains_key :: "('k, 'v) hash_map \<Rightarrow> 'k \<Rightarrow> bool" where
  "hm_contains_key m k = (map_of m k \<noteq> None)"

definition hm_insert :: "'k \<Rightarrow> 'v \<Rightarrow> ('k, 'v) hash_map \<Rightarrow> ('k, 'v) hash_map" where
  "hm_insert k v m = AList.update k v m"

definition hm_remove :: "'k \<Rightarrow> ('k, 'v) hash_map \<Rightarrow> ('k, 'v) hash_map" where
  "hm_remove k m = filter (\<lambda>e. fst e \<noteq> k) m"

definition hm_len :: "('k, 'v) hash_map \<Rightarrow> usize" where
  "hm_len m = length m"

definition hm_wf :: "('k, 'v) hash_map \<Rightarrow> bool" where
  "hm_wf m = distinct (map fst m)"

locale hash_map_api =
  fixes empty :: 'm
    and get :: "'m \<Rightarrow> 'k \<Rightarrow> 'v option"
    and insert_kv :: "'k \<Rightarrow> 'v \<Rightarrow> 'm \<Rightarrow> 'm"
    and remove_k :: "'k \<Rightarrow> 'm \<Rightarrow> 'm"
    and len :: "'m \<Rightarrow> nat"
    and entries :: "'m \<Rightarrow> ('k \<times> 'v) multiset"
    and wf :: "'m \<Rightarrow> bool"
  assumes wf_empty: "wf empty"
    and wf_insert: "wf m \<Longrightarrow> wf (insert_kv k v m)"
    and wf_remove: "wf m \<Longrightarrow> wf (remove_k k m)"
    and entries_empty: "entries empty = {#}"
    and entries_insert: "wf m \<Longrightarrow>
      entries (insert_kv k v m) = add_mset (k, v) (filter_mset (\<lambda>e. fst e \<noteq> k) (entries m))"
    and entries_remove: "wf m \<Longrightarrow> entries (remove_k k m) = filter_mset (\<lambda>e. fst e \<noteq> k) (entries m)"
    and get_iff: "wf m \<Longrightarrow> get m k = Some v \<longleftrightarrow> (k, v) \<in># entries m"
    and one_entry: "wf m \<Longrightarrow> e \<in># entries m \<Longrightarrow>
      filter_mset (\<lambda>e'. fst e' = fst e) (entries m) = {#e#}"
    and len_entries: "len m = size (entries m)"
begin

lemma get_after_insert: "wf m \<Longrightarrow> get (insert_kv k v m) j = (if j = k then Some v else get m j)"
proof -
  assume m: "wf m"
  show ?thesis
  proof (cases "j = k")
    case True
    with m show ?thesis by (simp add: get_iff wf_insert entries_insert)
  next
    case False
    have "get (insert_kv k v m) j = Some w \<longleftrightarrow> get m j = Some w" for w
      using m False by (auto simp: get_iff wf_insert entries_insert)
    with False show ?thesis by (metis not_Some_eq)
  qed
qed

lemma get_after_remove: "wf m \<Longrightarrow> get (remove_k k m) j = (if j = k then None else get m j)"
proof -
  assume m: "wf m"
  have "get (remove_k k m) j = Some w \<longleftrightarrow> j \<noteq> k \<and> get m j = Some w" for w
    using m by (auto simp: get_iff wf_remove entries_remove)
  then show ?thesis by (metis not_Some_eq)
qed

lemma filter_absent:
  assumes "wf m" and "get m k = None"
  shows "filter_mset (\<lambda>e. fst e \<noteq> k) (entries m) = entries m"
proof -
  have "fst e \<noteq> k" if "e \<in># entries m" for e
    using assms that get_iff[of m "fst e" "snd e"] by auto
  then show ?thesis by (simp add: filter_mset_eq_conv)
qed

lemma filter_present: "wf m \<Longrightarrow> get m k = Some v \<Longrightarrow>
    entries m = add_mset (k, v) (filter_mset (\<lambda>e. fst e \<noteq> k) (entries m))"
proof -
  assume m: "wf m" and "get m k = Some v"
  then have "filter_mset (\<lambda>e. fst e = k) (entries m) = {#(k, v)#}"
    using one_entry[OF m, of "(k, v)"] by (simp add: get_iff)
  then show ?thesis
    using multiset_partition[of "entries m" "\<lambda>e. fst e = k"] by simp
qed

lemma len_after_insert: "wf m \<Longrightarrow> len (insert_kv k v m) = (if get m k = None then Suc (len m) else len m)"
  using filter_absent filter_present[of m k]
  by (auto simp: len_entries entries_insert) (metis size_add_mset)

lemma len_after_remove: "wf m \<Longrightarrow> get m k = Some v \<Longrightarrow> len m = Suc (len (remove_k k m))"
  using filter_present[of m k v] by (simp add: len_entries entries_remove) (metis size_add_mset)

end

lemma filter_other_keys:
  "k \<notin> fst ` set m \<Longrightarrow> filter_mset (\<lambda>e. fst e \<noteq> k) (mset m) = mset m"
  by (auto simp: filter_mset_eq_conv)

lemma filter_same_key:
  "distinct (map fst m) \<Longrightarrow> e \<in> set m \<Longrightarrow>
    filter_mset (\<lambda>e'. fst e' = fst e) (mset m) = {#e#}"
proof (induction m)
  case Nil
  then show ?case by simp
next
  case (Cons d m)
  then have d: "fst d \<notin> fst ` set m" by simp
  then have "filter_mset (\<lambda>e'. fst e' = fst d) (mset m) = {#}"
    unfolding filter_mset_eq_mempty_iff by (metis image_eqI set_mset_mset)
  moreover have "fst d \<noteq> fst e" if "e \<in> set m"
    using d that by (metis image_eqI)
  ultimately show ?case using Cons by auto
qed

lemma mset_update:
  "hm_wf m \<Longrightarrow> mset (hm_insert k v m) = add_mset (k, v) (filter_mset (\<lambda>e. fst e \<noteq> k) (mset m))"
proof (induction m)
  case Nil
  then show ?case by (simp add: hm_insert_def)
next
  case (Cons e m)
  obtain j w where e: "e = (j, w)" by (cases e)
  from Cons.prems have wf: "hm_wf m" and "fst e \<notin> fst ` set m" by (auto simp: hm_wf_def)
  with Cons.IH e show ?case
    by (cases "j = k") (auto simp: hm_insert_def filter_other_keys)
qed

lemma hm_get_iff: "hm_wf m \<Longrightarrow> hm_get m k = Some v \<longleftrightarrow> (k, v) \<in> set m"
  by (auto simp: hm_get_def hm_wf_def map_of_eq_Some_iff)

interpretation hm: hash_map_api "[]" hm_get hm_insert hm_remove hm_len mset hm_wf
proof
  show "hm_wf []" by (simp add: hm_wf_def)
next
  fix m :: "('a \<times> 'b) list" and k v
  assume "hm_wf m"
  then show "hm_wf (hm_insert k v m)" by (simp add: hm_wf_def hm_insert_def distinct_update)
next
  fix m :: "('a \<times> 'b) list" and k
  assume "hm_wf m"
  then show "hm_wf (hm_remove k m)" by (simp add: hm_wf_def hm_remove_def distinct_map_filter)
next
  fix m :: "('a \<times> 'b) list" and k v
  assume "hm_wf m"
  then show "mset (hm_insert k v m) = add_mset (k, v) (filter_mset (\<lambda>e. fst e \<noteq> k) (mset m))"
    by (rule mset_update)
next
  fix m :: "('a \<times> 'b) list" and e
  assume "hm_wf m" and "e \<in># mset m"
  then show "filter_mset (\<lambda>e'. fst e' = fst e) (mset m) = {#e#}"
    by (simp add: filter_same_key hm_wf_def)
qed (simp_all add: hm_get_iff hm_remove_def hm_len_def)

subsection \<open>BinaryHeap\<close>

type_synonym 'a binary_heap = "'a list"

definition bh_push :: "'a \<Rightarrow> 'a binary_heap \<Rightarrow> 'a binary_heap" where
  "bh_push x h = x # h"

fun bh_pop :: "'a::linorder binary_heap \<Rightarrow> ('a \<times> 'a binary_heap) option" where
  "bh_pop [] = None"
| "bh_pop (x # xs) = (let m = foldl max x xs in Some (m, remove1 m (x # xs)))"

definition bh_len :: "'a binary_heap \<Rightarrow> usize" where
  "bh_len h = length h"

definition bh_collect :: "'a list \<Rightarrow> 'a binary_heap" where
  "bh_collect xs = xs"

locale binary_heap_api =
  fixes push :: "'a::linorder \<Rightarrow> 'h \<Rightarrow> 'h"
    and pop :: "'h \<Rightarrow> ('a \<times> 'h) option"
    and heap_len :: "'h \<Rightarrow> nat"
    and collect :: "'a list \<Rightarrow> 'h"
    and bag :: "'h \<Rightarrow> 'a multiset"
  assumes bag_collect: "bag (collect xs) = mset xs"
    and bag_push: "bag (push x h) = add_mset x (bag h)"
    and pop_None: "pop h = None \<longleftrightarrow> bag h = {#}"
    and pop_bag: "pop h = Some (x, h') \<Longrightarrow> bag h = add_mset x (bag h')"
    and pop_max: "pop h = Some (x, h') \<Longrightarrow> y \<in># bag h \<Longrightarrow> y \<le> x"
    and len_bag: "heap_len h = size (bag h)"
begin

lemma pop_shrinks: "pop h = Some (x, h') \<Longrightarrow> heap_len h = Suc (heap_len h')"
  by (simp add: len_bag pop_bag)

lemma pop_subset: "pop h = Some (x, h') \<Longrightarrow> y \<in># bag h' \<Longrightarrow> y \<in># bag h"
  by (simp add: pop_bag)

lemma pop_mem: "pop h = Some (x, h') \<Longrightarrow> x \<in># bag h"
  by (simp add: pop_bag)

lemma pop_other: "pop h = Some (x, h') \<Longrightarrow> y \<in># bag h \<Longrightarrow> y \<noteq> x \<Longrightarrow> y \<in># bag h'"
  by (simp add: pop_bag)

lemma pop_nonempty: "bag h \<noteq> {#} \<Longrightarrow> \<exists>x h'. pop h = Some (x, h')"
  using pop_None by fastforce

end

lemma foldl_max_in: "foldl max (x :: 'a::linorder) xs \<in> set (x # xs)"
  by (induction xs arbitrary: x) (auto simp: max_def split: if_splits)

lemma foldl_max_ge: "y \<in> set (x # xs) \<Longrightarrow> y \<le> foldl max (x :: 'a::linorder) xs"
proof (induction xs arbitrary: x y)
  case Nil
  then show ?case by simp
next
  case (Cons z xs)
  from Cons.IH[of "max x z" "max x z"] Cons.IH[of y "max x z"] Cons.prems show ?case by auto
qed

interpretation bh: binary_heap_api bh_push bh_pop bh_len bh_collect mset
proof
  fix h h' :: "'a::linorder list" and x y
  show "bh_pop h = None \<longleftrightarrow> mset h = {#}" by (cases h) (auto simp: Let_def)
  assume p: "bh_pop h = Some (x, h')"
  then obtain z zs where h: "h = z # zs" and x: "x = foldl max z zs" and h': "h' = remove1 x h"
    by (cases h) (auto simp: Let_def)
  from h x have "x \<in> set h" using foldl_max_in by metis
  then show "mset h = add_mset x (mset h')" by (simp add: h')
  show "y \<le> x" if "y \<in># mset h" using that h x foldl_max_ge by (metis set_mset_mset)
qed (simp_all add: bh_push_def bh_len_def bh_collect_def)

end
