(* ===== verification/Proto.thy ===== *)
theory Proto
  imports Blocks Std_Collections
begin

text \<open>
  The messages of \<open>crates/protocol/proto/inference.proto\<close> as the generated Rust types have them
  (a message field is an option, a \<open>oneof\<close> an option of an enum, a map a hash map), and the
  gRPC status. Rust's \<open>String\<close> and \<open>Vec<u8>\<close> are HOL strings: a \<open>char\<close> is a byte, and a
  \<open>String\<close> is one that is valid UTF-8.
\<close>

subsection \<open>Status\<close>

text \<open>The status codes of gRPC. Their printed form belongs to tonic, so it is a parameter
  \<open>code_text\<close> of the definitions that print one.\<close>

datatype status_code =
  Ok | Cancelled | Unknown | InvalidArgument | DeadlineExceeded | NotFound | AlreadyExists
  | PermissionDenied | ResourceExhausted | FailedPrecondition | Aborted | OutOfRange
  | Unimplemented | Internal | Unavailable | DataLoss | Unauthenticated

record status =
  code :: status_code
  message :: string

definition status_of :: "status_code \<Rightarrow> string \<Rightarrow> status" where
  "status_of c msg = \<lparr>code = c, message = msg\<rparr>"

lemma status_of_fields [simp]: "code (status_of c msg) = c" "message (status_of c msg) = msg"
  by (simp_all add: status_of_def)

subsection \<open>Messages\<close>

datatype parameter_choice = BoolParam bool | Int64Param int | StringParam string

type_synonym infer_parameter = "parameter_choice option"

type_synonym parameter_map = "(string, infer_parameter) hash_map"

text \<open>Signed numbers are integers, floating-point numbers their bit patterns: no code computes with them.\<close>

record infer_tensor_contents =
  bool_contents :: "bool list"
  int_contents :: "int list"
  int64_contents :: "int list"
  uint_contents :: "u32 list"
  uint64_contents :: "u64 list"
  fp32_contents :: "32 word list"
  fp64_contents :: "64 word list"
  bytes_contents :: "string list"

record infer_input_tensor =
  in_name :: string
  in_datatype :: string
  in_shape :: "int list"
  in_parameters :: parameter_map
  in_contents :: "infer_tensor_contents option"

record infer_requested_output_tensor =
  requested_name :: string
  requested_parameters :: parameter_map

record infer_output_tensor =
  out_name :: string
  out_datatype :: string
  out_shape :: "int list"
  out_parameters :: parameter_map
  out_contents :: "infer_tensor_contents option"

record model_infer_request =
  req_model_name :: string
  req_model_version :: string
  req_id :: string
  req_parameters :: parameter_map
  inputs :: "infer_input_tensor list"
  requested_outputs :: "infer_requested_output_tensor list"

record model_infer_response =
  resp_model_name :: string
  resp_model_version :: string
  resp_id :: string
  parameters :: parameter_map
  outputs :: "infer_output_tensor list"

record model_stream_infer_response =
  error_message :: string
  infer_response :: "model_infer_response option"

record model_metadata_request =
  asked_name :: string
  asked_version :: string

record model_metadata_response =
  meta_name :: string
  versions :: "string list"
  platform :: string

record server_live_response =
  is_live :: bool

record server_ready_response =
  is_ready :: bool

text \<open>\<open>Default::default()\<close> of the generated types: every field empty.\<close>

definition tensor_contents_default :: infer_tensor_contents where
  "tensor_contents_default =
     \<lparr>bool_contents = [], int_contents = [], int64_contents = [], uint_contents = [], uint64_contents = [],
      fp32_contents = [], fp64_contents = [], bytes_contents = []\<rparr>"

definition input_tensor_default :: infer_input_tensor where
  "input_tensor_default = \<lparr>in_name = [], in_datatype = [], in_shape = [], in_parameters = [], in_contents = None\<rparr>"

definition infer_request_default :: model_infer_request where
  "infer_request_default =
     \<lparr>req_model_name = [], req_model_version = [], req_id = [], req_parameters = [], inputs = [], requested_outputs = []\<rparr>"

definition stream_error :: "string \<Rightarrow> model_stream_infer_response" where
  "stream_error msg = \<lparr>error_message = msg, infer_response = None\<rparr>"

definition stream_chunk :: "model_infer_response \<Rightarrow> model_stream_infer_response" where
  "stream_chunk r = \<lparr>error_message = [], infer_response = Some r\<rparr>"

subsection \<open>The standard library on bytes\<close>

text \<open>\<open>usize as i64\<close>: the low 64 bits read as a signed number.\<close>

definition as_i64 :: "usize \<Rightarrow> int" where
  "as_i64 n = sint (word_of_nat n :: 64 word)"

lemma as_i64_small: "n < 2 ^ 63 \<Longrightarrow> as_i64 n = int n"
  by (simp add: as_i64_def signed_of_nat signed_take_bit_int_eq_self)

text \<open>Well-formed UTF-8: one, two, three and four byte sequences, without overlong forms,
  surrogates and code points past U+10FFFF.\<close>

definition in_byte_range :: "nat \<Rightarrow> nat \<Rightarrow> char \<Rightarrow> bool" where
  "in_byte_range lo hi c = (lo \<le> of_char c \<and> of_char c \<le> hi)"

text \<open>The number of continuation bytes after a lead byte, and the range of the first of them.\<close>

definition utf8_lead :: "char \<Rightarrow> (nat \<times> nat \<times> nat) option" where
  "utf8_lead c =
     (if in_byte_range 0 127 c then Some (0, 0, 0)
      else if in_byte_range 194 223 c then Some (1, 128, 191)
      else if in_byte_range 224 224 c then Some (2, 160, 191)
      else if in_byte_range 225 236 c then Some (2, 128, 191)
      else if in_byte_range 237 237 c then Some (2, 128, 159)
      else if in_byte_range 238 239 c then Some (2, 128, 191)
      else if in_byte_range 240 240 c then Some (3, 144, 191)
      else if in_byte_range 241 243 c then Some (3, 128, 191)
      else if in_byte_range 244 244 c then Some (3, 128, 143)
      else None)"

text \<open>The state is the number of continuation bytes still due and the range of the next one.\<close>

fun utf8_loop :: "nat \<times> nat \<times> nat \<Rightarrow> string \<Rightarrow> bool" where
  "utf8_loop (k, lo, hi) [] = (k = 0)"
| "utf8_loop (0, lo, hi) (c # cs) =
     (case utf8_lead c of None \<Rightarrow> False | Some st \<Rightarrow> utf8_loop st cs)"
| "utf8_loop (Suc k, lo, hi) (c # cs) = (in_byte_range lo hi c \<and> utf8_loop (k, 128, 191) cs)"

definition utf8_valid :: "string \<Rightarrow> bool" where
  "utf8_valid bs = utf8_loop (0, 0, 0) bs"

definition from_utf8 :: "string \<Rightarrow> string option" where
  "from_utf8 bs = (if utf8_valid bs then Some bs else None)"

lemma utf8_loop_zero [simp]: "utf8_loop (0, lo, hi) bs = utf8_valid bs"
  unfolding utf8_valid_def by (cases bs) simp_all

lemma utf8_valid_simps [simp]:
  "utf8_valid []"
  "utf8_valid (c # cs) = (case utf8_lead c of None \<Rightarrow> False | Some st \<Rightarrow> utf8_loop st cs)"
  unfolding utf8_valid_def by (simp_all del: utf8_loop_zero)

lemma utf8_loop_append:
  "utf8_loop st xs \<Longrightarrow> utf8_valid ys \<Longrightarrow> utf8_loop st (xs @ ys)"
proof (induction st xs rule: utf8_loop.induct)
  case (2 lo hi c cs)
  from "2.prems" obtain k lo' hi' where "utf8_lead c = Some (k, lo', hi')" by (auto split: option.splits)
  with 2 show ?case by simp
qed simp_all

lemma utf8_valid_append: "utf8_valid xs \<Longrightarrow> utf8_valid ys \<Longrightarrow> utf8_valid (xs @ ys)"
  using utf8_loop_append[of "(0, 0, 0)" xs ys] by simp

lemma utf8_valid_ascii: "list_all (\<lambda>c. of_char c < (128 :: nat)) bs \<Longrightarrow> utf8_valid bs"
  by (induction bs) (simp_all add: utf8_lead_def in_byte_range_def)

subsection \<open>Inputs for examples\<close>

text \<open>A request with one text tensor, and a tokenizer that takes bytes as tokens.\<close>

definition text_request :: "string \<Rightarrow> model_infer_request" where
  "text_request text =
     infer_request_default\<lparr>req_model_name := ''m'',
       inputs := [input_tensor_default\<lparr>in_name := ''text_input'', in_datatype := ''BYTES'', in_shape := [1],
         in_contents := Some (tensor_contents_default\<lparr>bytes_contents := [text]\<rparr>)\<rparr>]\<rparr>"

definition byte_tokens :: "string \<Rightarrow> string + u32 list" where
  "byte_tokens text = Inr (map of_char text)"

end
