(* ===== verification/Channel.thy ===== *)
theory Channel
  imports Proto
begin

text \<open>
  The channel from the task that serves a client stream to the client, as both services use it.
\<close>

text \<open>
  The sending half of the channel to the client: what was sent, and how many messages it takes
  before the client is gone, if it ever goes. A send fails from then on.
\<close>

record client_tx =
  sent :: "(status + model_stream_infer_response) list"
  gone_after :: "nat option"

definition tx_open :: "client_tx \<Rightarrow> bool" where
  "tx_open tx = (case gone_after tx of None \<Rightarrow> True | Some n \<Rightarrow> length (sent tx) < n)"

definition tx_send :: "(status + model_stream_infer_response) \<Rightarrow> client_tx \<Rightarrow> client_tx \<times> bool" where
  "tx_send m tx = (if tx_open tx then (tx\<lparr>sent := sent tx @ [m]\<rparr>, True) else (tx, False))"

subsection \<open>Sending\<close>

text \<open>What of \<open>ms\<close> the client still receives.\<close>

definition delivered :: "client_tx \<Rightarrow> (status + model_stream_infer_response) list \<Rightarrow> (status + model_stream_infer_response) list" where
  "delivered tx ms = (case gone_after tx of None \<Rightarrow> ms | Some n \<Rightarrow> take (n - length (sent tx)) ms)"

text \<open>\<open>tx'\<close> is \<open>tx\<close> after \<open>ms\<close> was sent on it.\<close>

definition sends :: "client_tx \<Rightarrow> (status + model_stream_infer_response) list \<Rightarrow> client_tx \<Rightarrow> bool" where
  "sends tx ms tx' = (gone_after tx' = gone_after tx \<and> sent tx' = sent tx @ delivered tx ms)"

lemma sends_Nil [simp]: "sends tx [] tx"
  by (simp add: sends_def delivered_def split: option.splits)

lemma sends_append: "sends tx xs tx1 \<Longrightarrow> sends tx1 ys tx2 \<Longrightarrow> sends tx (xs @ ys) tx2"
  by (auto simp: sends_def delivered_def min_def split: option.splits)

lemma tx_send_sends: "sends tx [m] (fst (tx_send m tx))"
  by (auto simp: sends_def delivered_def tx_send_def tx_open_def take_Cons' split: option.splits)

lemma tx_send_flag: "snd (tx_send m tx) = (case gone_after tx of None \<Rightarrow> True | Some n \<Rightarrow> length (sent tx) < n)"
  by (simp add: tx_send_def tx_open_def)

lemma sends_blocked:
  assumes "\<not> tx_open tx"
  shows "sends tx ms tx"
  using assms by (simp add: sends_def delivered_def tx_open_def split: option.splits)

end
