(* ===== verification/Lazy_Lru.thy ===== *)
theory Lazy_Lru
  imports Std_Collections Lru_Spec
begin

text \<open>
  The state and the inner loops the router's \<open>PrefixCache\<close> and the replica's
  \<open>KvCacheSim\<close> have in common: a map from block hash to \<open>(last_access, seq)\<close>, a heap of
  eviction candidates that is cleaned lazily, a clock and a sequence number.

  \<open>lru_wf\<close> is the part of the invariant that holds whatever the counters do (a wrap-around
  included): keys are distinct and each live block has its entry in the heap. \<open>lru_ordered\<close>
  bounds the stored counters by the current ones; with it the lists of \<open>Lru_Spec\<close> are
  refined, as long as the counters do not wrap.
\<close>

subsection \<open>Heap entries\<close>

text \<open>
  The tuple \<open>(Reverse(access), seq, hash)\<close> with its derived order: greater (popped first)
  is the smaller access, then the larger sequence number, then the larger hash.
\<close>

datatype heap_entry = Entry (entry_access: u64) (entry_seq: u64) (entry_hash: u64)

instantiation heap_entry :: linorder
begin

definition less_eq_heap_entry :: "heap_entry \<Rightarrow> heap_entry \<Rightarrow> bool" where
  "less_eq_heap_entry x y =
     (entry_access y < entry_access x \<or> entry_access x = entry_access y \<and>
       (entry_seq x < entry_seq y \<or> entry_seq x = entry_seq y \<and> entry_hash x \<le> entry_hash y))"

definition less_heap_entry :: "heap_entry \<Rightarrow> heap_entry \<Rightarrow> bool" where
  "less_heap_entry x y = (x \<le> y \<and> x \<noteq> y)"

instance
proof
  fix x y z :: heap_entry
  show "x \<le> x" by (simp add: less_eq_heap_entry_def)
  show "x \<le> y \<or> y \<le> x" by (auto simp: less_eq_heap_entry_def)
  show xy: "x = y" if "x \<le> y" "y \<le> x"
    using that by (auto simp: less_eq_heap_entry_def intro: heap_entry.expand)
  show "x < y \<longleftrightarrow> x \<le> y \<and> \<not> y \<le> x"
    by (auto simp: less_heap_entry_def less_eq_heap_entry_def intro: heap_entry.expand)
  show "x \<le> z" if "x \<le> y" "y \<le> z"
    using that by (auto simp: less_eq_heap_entry_def)
qed

end

subsection \<open>The state\<close>

record lru =
  bmap :: "(u64, u64 \<times> u64) hash_map"
  heap :: "heap_entry binary_heap"
  clock :: u64
  seq :: u64

definition COMPACT_FLOOR :: usize where
  "COMPACT_FLOOR = 1024"

fun entry_of :: "u64 \<times> u64 \<times> u64 \<Rightarrow> heap_entry" where
  "entry_of (h, a, s) = Entry a s h"

text \<open>One round of the loop that touches a block: a new sequence number, map, heap.\<close>

definition touch_block :: "u64 \<Rightarrow> u64 \<Rightarrow> 'a lru_scheme \<Rightarrow> 'a lru_scheme" where
  "touch_block access h c =
     (let s = seq c + 1
      in c\<lparr>seq := s,
           bmap := hm_insert h (access, s) (bmap c),
           heap := bh_push (Entry access s h) (heap c)\<rparr>)"

text \<open>The body of the rebuild: the heap holds exactly the live entries.\<close>

definition rebuild_heap :: "'a lru_scheme \<Rightarrow> 'a lru_scheme" where
  "rebuild_heap c = c\<lparr>heap := bh_collect (map entry_of (bmap c))\<rparr>"

text \<open>The eviction loop over the map and the heap.\<close>

function evict_loop ::
  "usize \<Rightarrow> (u64, u64 \<times> u64) hash_map \<Rightarrow> heap_entry binary_heap \<Rightarrow>
   (u64, u64 \<times> u64) hash_map \<times> heap_entry binary_heap" where
  "evict_loop budget m h =
     (if hm_len m > budget then
        (case bh_pop h of
           None \<Rightarrow> (m, h)
         | Some (e, h') \<Rightarrow>
             if hm_get m (entry_hash e) = Some (entry_access e, entry_seq e)
             then evict_loop budget (hm_remove (entry_hash e) m) h'
             else evict_loop budget m h')
      else (m, h))"
  by pat_completeness auto
termination
  by (relation "measure (\<lambda>(budget, m, h). bh_len h)") (auto dest: bh.pop_shrinks)

declare evict_loop.simps [simp del]

subsection \<open>Live entries and their order\<close>

definition live :: "'a lru_scheme \<Rightarrow> heap_entry list" where
  "live c = map entry_of (bmap c)"

text \<open>Blocks in the order in which they are kept: the last one is evicted first.\<close>

definition recency :: "'a lru_scheme \<Rightarrow> u64 list" where
  "recency c = map entry_hash (sort (live c))"

definition lru_wf :: "'a lru_scheme \<Rightarrow> bool" where
  "lru_wf c = (hm_wf (bmap c) \<and> set (live c) \<subseteq> set (heap c))"

definition lru_ordered :: "'a lru_scheme \<Rightarrow> bool" where
  "lru_ordered c = (\<forall>e\<in>set (live c). entry_access e \<le> clock c \<and> entry_seq e \<le> seq c)"

text \<open>The counters can take \<open>n\<close> more touches of one tick without a wrap-around.\<close>

definition headroom :: "nat \<Rightarrow> 'a lru_scheme \<Rightarrow> bool" where
  "headroom n c = (unat (clock c) + 1 < 2 ^ 64 \<and> unat (seq c) + n < 2 ^ 64)"

lemma entry_of_inject [simp]: "entry_of x = entry_of y \<longleftrightarrow> x = y"
  by (cases x; cases y) auto

lemma entry_of_sel [simp]:
  "entry_hash (entry_of e) = fst e"
  "entry_access (entry_of e) = fst (snd e)"
  "entry_seq (entry_of e) = snd (snd e)"
  by (cases e; simp)+

lemma set_recency: "set (recency c) = fst ` set (bmap c)"
  by (force simp: recency_def live_def)

lemma length_recency: "length (recency c) = hm_len (bmap c)"
  by (simp add: recency_def live_def hm_len_def)

lemma distinct_recency: "lru_wf c \<Longrightarrow> distinct (recency c)"
proof -
  have "mset (recency c) = mset (map fst (bmap c))"
    by (simp add: recency_def live_def image_mset.compositionality comp_def)
  then have "distinct (recency c) = distinct (map fst (bmap c))"
    by (rule mset_eq_imp_distinct_iff)
  then show "lru_wf c \<Longrightarrow> distinct (recency c)" by (simp add: lru_wf_def hm_wf_def)
qed

lemma contains_iff_recency: "hm_contains_key (bmap c) h \<longleftrightarrow> h \<in> set (recency c)"
  unfolding hm_contains_key_def set_recency by (metis domIff dom_map_of_conv_image_fst)

subsection \<open>Well-formedness\<close>

lemma touch_block_fields [lru_simps]:
  "seq (touch_block a h c) = seq c + 1"
  "clock (touch_block a h c) = clock c"
  "bmap (touch_block a h c) = hm_insert h (a, seq c + 1) (bmap c)"
  "heap (touch_block a h c) = bh_push (Entry a (seq c + 1) h) (heap c)"
  "more (touch_block a h c) = more c"
  by (simp_all add: touch_block_def Let_def)

lemma rebuild_heap_fields [lru_simps]:
  "seq (rebuild_heap c) = seq c"
  "clock (rebuild_heap c) = clock c"
  "bmap (rebuild_heap c) = bmap c"
  "heap (rebuild_heap c) = live c"
  "more (rebuild_heap c) = more c"
  by (simp_all add: rebuild_heap_def bh_collect_def live_def)

lemma mset_live_touch_block:
  assumes "lru_wf c"
  shows "mset (live (touch_block a h c)) =
    add_mset (Entry a (seq c + 1) h) (filter_mset (\<lambda>e. entry_hash e \<noteq> h) (mset (live c)))"
proof -
  have "mset (live (touch_block a h c)) = image_mset entry_of (mset (hm_insert h (a, seq c + 1) (bmap c)))"
    by (simp add: live_def lru_simps)
  also have "mset (hm_insert h (a, seq c + 1) (bmap c)) =
      add_mset (h, a, seq c + 1) (filter_mset (\<lambda>e. fst e \<noteq> h) (mset (bmap c)))"
    using assms hm.entries_insert by (auto simp: lru_wf_def)
  finally show ?thesis by (simp add: live_def filter_mset_image_mset comp_def)
qed

lemma set_live_touch_block:
  "lru_wf c \<Longrightarrow> set (live (touch_block a h c)) =
    insert (Entry a (seq c + 1) h) {e \<in> set (live c). entry_hash e \<noteq> h}"
  using arg_cong[OF mset_live_touch_block, of c set_mset a h] by simp

lemma lru_wf_touch_block [simp, intro]: "lru_wf c \<Longrightarrow> lru_wf (touch_block a h c)"
  using set_live_touch_block[of c a h]
  by (auto simp: lru_wf_def lru_simps bh_push_def hm.wf_insert)

lemma lru_wf_rebuild_heap [simp, intro]: "lru_wf c \<Longrightarrow> lru_wf (rebuild_heap c)"
  by (simp add: lru_wf_def live_def lru_simps)

lemma recency_rebuild_heap [simp]: "recency (rebuild_heap c) = recency c"
  by (simp add: recency_def live_def lru_simps)

lemma hm_len_touch_block:
  "lru_wf c \<Longrightarrow> hm_len (bmap c) \<le> hm_len (bmap (touch_block a h c))"
  by (simp add: lru_simps hm.len_after_insert lru_wf_def)

lemma distinct_live: "lru_wf c \<Longrightarrow> distinct (live c)"
  by (auto simp: lru_wf_def hm_wf_def live_def distinct_map inj_on_def)

text \<open>Distinct live entries sit in the heap, so the heap is at least as long as the map.\<close>

lemma heap_covers_map: "lru_wf c \<Longrightarrow> hm_len (bmap c) \<le> bh_len (heap c)"
proof -
  assume wf: "lru_wf c"
  have "hm_len (bmap c) = card (set (live c))"
    using distinct_card[OF distinct_live[OF wf]] by (simp add: live_def hm_len_def)
  also have "\<dots> \<le> card (set (heap c))" using wf by (intro card_mono) (simp_all add: lru_wf_def)
  also have "\<dots> \<le> bh_len (heap c)" by (simp add: bh_len_def card_length)
  finally show ?thesis .
qed

subsection \<open>The eviction loop\<close>

lemma evict_loop_step:
  assumes wf: "hm_wf m" "set (map entry_of m) \<subseteq> set h" and pop: "bh_pop h = Some (e, h')"
    and hit: "hm_get m (entry_hash e) = Some (entry_access e, entry_seq e)"
  shows "mset (map entry_of m) = add_mset e (mset (map entry_of (hm_remove (entry_hash e) m)))"
    and "sort (map entry_of (hm_remove (entry_hash e) m)) = butlast (sort (map entry_of m))"
    and "set (map entry_of (hm_remove (entry_hash e) m)) \<subseteq> set h'"
proof -
  let ?m' = "hm_remove (entry_hash e) m"
  from hm.filter_present[OF wf(1) hit]
  have "mset m = add_mset (entry_hash e, entry_access e, entry_seq e) (mset ?m')"
    by (simp add: hm.entries_remove[OF wf(1)])
  then show 1: "mset (map entry_of m) = add_mset e (mset (map entry_of ?m'))" by simp
  let ?L = "sort (map entry_of m)"
  have e: "e \<in> set ?L" using 1 by (metis mset_sort set_mset_mset union_single_eq_member set_mset_add_mset_insert insertI1)
  have "last ?L = e"
  proof (rule antisym)
    show "e \<le> last ?L" using e by (intro sorted_last_max) simp_all
    have "last ?L \<in> set ?L" using e by (metis empty_iff last_in_set list.set(1))
    with wf(2) have "last ?L \<in> set h" by (metis set_sort subsetD)
    then show "last ?L \<le> e" using bh.pop_max[OF pop] by simp
  qed
  with e have "?L = butlast ?L @ [e]" by (metis append_butlast_last_id empty_iff list.set(1))
  from mset_snocD[OF this] 1 have "mset (butlast ?L) = mset (map entry_of ?m')" by simp
  then show "sort (map entry_of ?m') = butlast ?L"
    by (intro properties_for_sort) (simp_all add: sorted_butlast)
  show "set (map entry_of ?m') \<subseteq> set h'"
  proof
    fix x assume x: "x \<in> set (map entry_of ?m')"
    then have "x \<in> set (map entry_of m)" and "entry_hash x \<noteq> entry_hash e"
      by (auto simp: hm_remove_def)
    with wf(2) show "x \<in> set h'" using bh.pop_other[OF pop, of x] by auto
  qed
qed

lemma evict_loop_stale:
  assumes wf: "hm_wf m" "set (map entry_of m) \<subseteq> set h" and pop: "bh_pop h = Some (e, h')"
    and miss: "hm_get m (entry_hash e) \<noteq> Some (entry_access e, entry_seq e)"
  shows "set (map entry_of m) \<subseteq> set h'"
proof
  fix x assume x: "x \<in> set (map entry_of m)"
  then have "hm_get m (entry_hash x) = Some (entry_access x, entry_seq x)"
    by (auto simp: hm_get_iff[OF wf(1)])
  with miss have "x \<noteq> e" by auto
  with wf(2) x show "x \<in> set h'" using bh.pop_other[OF pop, of x] by auto
qed

text \<open>
  The loop keeps the \<open>budget\<close> blocks that stand first in the order, whatever stale entries
  the heap holds, and it never stops early: the heap cannot run dry while a block is live.
\<close>

lemma evict_loop_correct:
  assumes "hm_wf m" and "set (map entry_of m) \<subseteq> set h"
  shows "case evict_loop budget m h of (m', h') \<Rightarrow>
    hm_wf m' \<and> set (map entry_of m') \<subseteq> set h' \<and>
    sort (map entry_of m') = take budget (sort (map entry_of m)) \<and>
    length h' + length m \<le> length h + length m'"
  using assms
proof (induction budget m h rule: evict_loop.induct)
  case (1 budget m h)
  show ?case
  proof (cases "hm_len m > budget")
    case False
    with "1.prems" show ?thesis by (simp add: evict_loop.simps[of budget m h] hm_len_def)
  next
    case over: True
    then have "mset h \<noteq> {#}" using "1.prems"(2) by (cases m) (auto simp: hm_len_def)
    from bh.pop_nonempty[OF this] obtain e h' where pop: "bh_pop h = Some (e, h')" by blast
    have len: "length h = Suc (length h')" using bh.pop_shrinks[OF pop] by (simp add: bh_len_def)
    show ?thesis
    proof (cases "hm_get m (entry_hash e) = Some (entry_access e, entry_seq e)")
      case hit: True
      let ?m' = "hm_remove (entry_hash e) m"
      note step = evict_loop_step[OF "1.prems" pop hit]
      have "length m = Suc (length ?m')"
        using arg_cong[OF step(1), of size] by simp
      moreover have "take budget (sort (map entry_of ?m')) = take budget (sort (map entry_of m))"
        using over by (simp add: step(2) take_butlast hm_len_def)
      ultimately show ?thesis
        using "1.IH"(1)[OF over pop refl hit hm.wf_remove[OF "1.prems"(1)] step(3)] over pop hit len
        by (auto simp: evict_loop.simps[of budget m h] split: prod.splits)
    next
      case miss: False
      show ?thesis
        using "1.IH"(2)[OF over pop refl miss "1.prems"(1) evict_loop_stale[OF "1.prems" pop miss]]
          over pop miss len
        by (auto simp: evict_loop.simps[of budget m h] split: prod.splits)
    qed
  qed
qed

subsection \<open>Touching a chain in one tick\<close>

text \<open>
  The blocks of the current tick \<open>a\<close> and those of earlier ticks; in the order of retention the
  first come before the second.
\<close>

definition tick_blocks :: "u64 \<Rightarrow> 'a lru_scheme \<Rightarrow> u64 list" where
  "tick_blocks a c = map entry_hash (filter (\<lambda>e. entry_access e = a) (sort (live c)))"

definition past_blocks :: "u64 \<Rightarrow> 'a lru_scheme \<Rightarrow> u64 list" where
  "past_blocks a c = map entry_hash (filter (\<lambda>e. entry_access e \<noteq> a) (sort (live c)))"

definition in_tick :: "u64 \<Rightarrow> nat \<Rightarrow> 'a lru_scheme \<Rightarrow> bool" where
  "in_tick a n c = ((\<forall>e\<in>set (live c). entry_access e \<le> a \<and> entry_seq e \<le> seq c) \<and>
     unat (seq c) + n < 2 ^ 64)"

lemma mset_filter_disj:
  "(\<And>x. P x \<longleftrightarrow> Q x \<or> R x) \<Longrightarrow> (\<And>x. \<not> (Q x \<and> R x)) \<Longrightarrow>
    filter_mset P M = filter_mset Q M + filter_mset R M"
  by (induction M) auto

lemma sort_live_touch_block:
  assumes wf: "lru_wf c" and tick: "in_tick a (Suc n) c"
  shows "sort (live (touch_block a h c)) =
    filter (\<lambda>e. entry_access e = a \<and> entry_hash e \<noteq> h) (sort (live c)) @
    Entry a (seq c + 1) h # filter (\<lambda>e. entry_access e \<noteq> a \<and> entry_hash e \<noteq> h) (sort (live c))"
    (is "_ = filter ?P ?L @ ?e # filter ?Q ?L")
proof (rule properties_for_sort)
  have "filter_mset (\<lambda>e. entry_hash e \<noteq> h) (mset (live c)) =
      filter_mset ?P (mset (live c)) + filter_mset ?Q (mset (live c))"
    by (rule mset_filter_disj) auto
  then show "mset (filter ?P ?L @ ?e # filter ?Q ?L) = mset (live (touch_block a h c))"
    by (simp add: mset_live_touch_block[OF wf])
  have lt: "entry_seq e < seq c + 1" "entry_access e \<le> a" if "e \<in> set (live c)" for e
    using tick that by (auto simp: in_tick_def intro!: word_less_Suc_no_wrap)
  have "x \<le> ?e" if "x \<in> set (filter ?P ?L)" for x
    using that lt[of x] by (auto simp: less_eq_heap_entry_def)
  moreover have "y \<le> x" if "x \<in> set (filter ?Q ?L)" "y \<in> set (filter ?P ?L) \<or> y = ?e" for x y
    using that lt[of x] by (auto simp: less_eq_heap_entry_def)
  ultimately show "sorted (filter ?P ?L @ ?e # filter ?Q ?L)"
    by (auto simp: sorted_append sorted_wrt_filter)
qed

lemma tick_blocks_touch_block:
  "lru_wf c \<Longrightarrow> in_tick a (Suc n) c \<Longrightarrow>
    tick_blocks a (touch_block a h c) = filter (\<lambda>x. x \<noteq> h) (tick_blocks a c) @ [h]"
  by (simp add: tick_blocks_def sort_live_touch_block filter_map comp_def)
    (simp add: conj_commute conj_left_commute)

lemma past_blocks_touch_block:
  "lru_wf c \<Longrightarrow> in_tick a (Suc n) c \<Longrightarrow>
    past_blocks a (touch_block a h c) = filter (\<lambda>x. x \<noteq> h) (past_blocks a c)"
  by (simp add: past_blocks_def sort_live_touch_block filter_map comp_def)
    (simp add: conj_commute conj_left_commute)

lemma in_tick_touch_block:
  assumes wf: "lru_wf c" and tick: "in_tick a (Suc n) c"
  shows "in_tick a n (touch_block a h c)"
proof -
  have no_wrap: "unat (seq c) + 1 < 2 ^ 64" using tick by (simp add: in_tick_def)
  then show ?thesis
    using tick word_le_Suc_no_wrap[OF no_wrap] word_Suc_no_wrap[OF no_wrap]
    by (auto simp: in_tick_def set_live_touch_block[OF wf] lru_simps)
qed

lemma lru_wf_fold_touch [simp, intro]: "lru_wf c \<Longrightarrow> lru_wf (fold (touch_block a) hs c)"
  by (induction hs arbitrary: c) auto

lemma fold_touch_fields [lru_simps]:
  "clock (fold (touch_block a) hs c) = clock c"
  "seq (fold (touch_block a) hs c) = seq c + of_nat (length hs)"
  "more (fold (touch_block a) hs c) = more c"
  by (induction hs arbitrary: c) (simp_all add: lru_simps)

lemma fold_touch_blocks:
  assumes "lru_wf c" and "in_tick a (length hs) c"
  shows "tick_blocks a (fold (touch_block a) hs c) =
      filter (\<lambda>x. x \<notin> set hs) (tick_blocks a c) @ remdups hs"
    and "past_blocks a (fold (touch_block a) hs c) = filter (\<lambda>x. x \<notin> set hs) (past_blocks a c)"
    and "in_tick a 0 (fold (touch_block a) hs c)"
  using assms
proof (induction hs arbitrary: c)
  case Nil
  case 1 then show ?case by simp
  case 2 then show ?case by simp
  case 3 then show ?case by simp
next
  case (Cons h hs)
  {
    case 1
    then show ?case
      using Cons.IH(1)[of "touch_block a h c"] in_tick_touch_block[of c a "length hs" h]
      by (auto simp: tick_blocks_touch_block intro: filter_cong)
  next
    case 2
    then show ?case
      using Cons.IH(2)[of "touch_block a h c"] in_tick_touch_block[of c a "length hs" h]
      by (auto simp: past_blocks_touch_block intro: filter_cong)
  next
    case 3
    then show ?case
      using Cons.IH(3)[of "touch_block a h c"] in_tick_touch_block[of c a "length hs" h] by auto
  }
qed

text \<open>With all accesses up to \<open>a\<close>, the two parts make up the whole order.\<close>

lemma sorted_split:
  assumes "sorted es" and "\<forall>e\<in>set es. entry_access e \<le> a"
  shows "filter (\<lambda>e. entry_access e = a) es @ filter (\<lambda>e. entry_access e \<noteq> a) es = es"
  using assms
proof (induction es)
  case Nil
  then show ?case by simp
next
  case (Cons e es)
  show ?case
  proof (cases "entry_access e = a")
    case True
    with Cons show ?thesis by simp
  next
    case False
    with Cons.prems have "entry_access e < a" by (simp add: order.strict_iff_order)
    moreover have "entry_access x \<le> entry_access e" if "x \<in> set es" for x
      using Cons.prems(1) that by (auto simp: less_eq_heap_entry_def)
    ultimately have "entry_access x \<noteq> a" if "x \<in> set es" for x
      using that by fastforce
    then show ?thesis using False by (simp add: filter_empty_conv)
  qed
qed

lemma recency_split:
  assumes "\<forall>e\<in>set (live c). entry_access e \<le> a"
  shows "recency c = tick_blocks a c @ past_blocks a c"
  unfolding recency_def tick_blocks_def past_blocks_def map_append[symmetric]
  using sorted_split[of "sort (live c)" a] assms by simp

theorem recency_fold_touch:
  assumes wf: "lru_wf c" and ord: "lru_ordered c" and room: "headroom (length hs) c"
  shows "recency (fold (touch_block (clock c + 1)) hs (c\<lparr>clock := clock c + 1\<rparr>)) =
      lru_touch hs (recency c)"
    and "lru_ordered (fold (touch_block (clock c + 1)) hs (c\<lparr>clock := clock c + 1\<rparr>))"
proof -
  let ?a = "clock c + 1" and ?c = "c\<lparr>clock := clock c + 1\<rparr>"
  have live: "live ?c = live c" by (simp add: live_def)
  have lt: "entry_access e < ?a" if "e \<in> set (live c)" for e
    using that ord room by (auto simp: lru_ordered_def headroom_def intro!: word_less_Suc_no_wrap)
  have wf': "lru_wf ?c" using wf by (simp add: lru_wf_def live_def)
  have tick: "in_tick ?a (length hs) ?c"
    using ord room lt by (auto simp: in_tick_def live lru_ordered_def headroom_def less_imp_le)
  have none: "tick_blocks ?a ?c = []"
    using lt by (force simp: tick_blocks_def live filter_empty_conv)
  with lt have all: "past_blocks ?a ?c = recency c"
    using recency_split[of ?c ?a] by (simp add: live recency_def less_imp_le)
  note fold = fold_touch_blocks[OF wf' tick]
  from fold(3) have "recency (fold (touch_block ?a) hs ?c) =
      tick_blocks ?a (fold (touch_block ?a) hs ?c) @ past_blocks ?a (fold (touch_block ?a) hs ?c)"
    by (intro recency_split) (simp add: in_tick_def)
  then show "recency (fold (touch_block ?a) hs ?c) = lru_touch hs (recency c)"
    by (simp add: fold none all lru_touch_def)
  from fold(3) show "lru_ordered (fold (touch_block ?a) hs ?c)"
    by (auto simp: in_tick_def lru_ordered_def lru_simps)
qed

end
