(* ===== verification/Prefix_Cache.thy ===== *)
theory Prefix_Cache
  imports Lazy_Lru
begin

text \<open>
  \<open>crates/router/src/prefix_cache.rs\<close>: the router's picture of the blocks one replica holds.
  Each method of \<open>PrefixCache\<close> is one definition over the record \<open>lru\<close>; methods that take
  \<open>&mut self\<close> return the new state. The theory shows that the methods refine the recency
  lists of \<open>Lru_Spec\<close>, that the heap stays small, and what the scheduler may rely on (the
  locales \<open>prefix_index\<close> and \<open>recency_index\<close>).
\<close>

type_synonym prefix_cache = lru

definition prefix_cache_new :: prefix_cache where
  "prefix_cache_new = \<lparr>bmap = [], heap = [], clock = 0, seq = 0\<rparr>"

definition num_blocks :: "'a lru_scheme \<Rightarrow> usize" where
  "num_blocks c = hm_len (bmap c)"

definition compact_if_bloated :: "'a lru_scheme \<Rightarrow> 'a lru_scheme" where
  "compact_if_bloated c =
     (let threshold = 2 * max (hm_len (bmap c)) COMPACT_FLOOR
      in if bh_len (heap c) > threshold then rebuild_heap c else c)"

text \<open>The loop of \<open>touch\<close>: \<open>break\<close> at the first miss when only present blocks count.\<close>

fun touch_loop :: "u64 \<Rightarrow> bool \<Rightarrow> u64 list \<Rightarrow> 'a lru_scheme \<Rightarrow> usize \<Rightarrow> 'a lru_scheme \<times> usize" where
  "touch_loop access only_present [] c touched = (c, touched)"
| "touch_loop access only_present (h # hs) c touched =
     (if only_present \<and> \<not> hm_contains_key (bmap c) h then (c, touched)
      else touch_loop access only_present hs (touch_block access h c) (touched + 1))"

definition touch :: "'a lru_scheme \<Rightarrow> u64 list \<Rightarrow> bool \<Rightarrow> 'a lru_scheme \<times> usize" where
  "touch c hashes only_present =
     (let c = c\<lparr>clock := clock c + 1\<rparr>;
          (c, touched) = touch_loop (clock c) only_present hashes c 0
      in (compact_if_bloated c, touched))"

definition match_prefix :: "'a lru_scheme \<Rightarrow> u64 list \<Rightarrow> 'a lru_scheme \<times> usize" where
  "match_prefix c hashes = touch c hashes True"

definition insert_chain :: "'a lru_scheme \<Rightarrow> u64 list \<Rightarrow> 'a lru_scheme" where
  "insert_chain c hashes = fst (touch c hashes False)"

definition lookup :: "'a lru_scheme \<Rightarrow> u64 list \<Rightarrow> usize" where
  "lookup c hashes = length (takeWhile (hm_contains_key (bmap c)) hashes)"

definition evict_to :: "'a lru_scheme \<Rightarrow> usize \<Rightarrow> 'a lru_scheme" where
  "evict_to c budget =
     (let (m, h) = evict_loop budget (bmap c) (heap c) in c\<lparr>bmap := m, heap := h\<rparr>)"

subsection \<open>Well-formedness and sizes\<close>

lemma lru_wf_new [simp]: "lru_wf prefix_cache_new"
  by (simp add: lru_wf_def prefix_cache_new_def live_def hm.wf_empty)

lemma new_fields [lru_simps]:
  "num_blocks prefix_cache_new = 0" "recency prefix_cache_new = []"
  "clock prefix_cache_new = 0" "seq prefix_cache_new = 0" "live prefix_cache_new = []"
  by (simp_all add: prefix_cache_new_def num_blocks_def recency_def live_def hm_len_def)

lemma num_blocks_recency: "num_blocks c = length (recency c)"
  by (simp add: num_blocks_def length_recency)

lemma compact_fields [lru_simps]:
  "recency (compact_if_bloated c) = recency c"
  "clock (compact_if_bloated c) = clock c"
  "seq (compact_if_bloated c) = seq c"
  "bmap (compact_if_bloated c) = bmap c"
  "live (compact_if_bloated c) = live c"
  "lru_ordered (compact_if_bloated c) = lru_ordered c"
  "more (compact_if_bloated c) = more c"
  by (simp_all add: compact_if_bloated_def Let_def lru_simps live_def lru_ordered_def)

lemma lru_wf_compact [simp, intro]: "lru_wf c \<Longrightarrow> lru_wf (compact_if_bloated c)"
  by (simp add: compact_if_bloated_def Let_def lru_wf_rebuild_heap)

lemma compact_bounded:
  "bh_len (heap (compact_if_bloated c)) \<le> 2 * max (num_blocks c) COMPACT_FLOOR"
  by (auto simp: compact_if_bloated_def Let_def lru_simps num_blocks_def bh_len_def live_def hm_len_def max_def)

lemma contains_touch_block:
  "hm_contains_key (bmap (touch_block a h c)) x \<longleftrightarrow> x = h \<or> hm_contains_key (bmap c) x"
  by (simp add: lru_simps hm_contains_key_def hm_insert_def update_conv')

lemma set_recency_fold: "set (recency (fold (touch_block a) hs c)) = set hs \<union> set (recency c)"
  by (induction hs arbitrary: c) (auto simp: contains_touch_block simp flip: contains_iff_recency)

text \<open>The loop touches the whole chain, or its leading blocks that are present.\<close>

definition touched_part :: "'a lru_scheme \<Rightarrow> bool \<Rightarrow> u64 list \<Rightarrow> u64 list" where
  "touched_part c only_present hs =
     (if only_present then takeWhile (hm_contains_key (bmap c)) hs else hs)"

lemma touch_loop_eq:
  "touch_loop a only hs c n =
     (fold (touch_block a) (touched_part c only hs) c, n + length (touched_part c only hs))"
proof (induction hs arbitrary: c n)
  case Nil
  show ?case by (simp add: touched_part_def)
next
  case (Cons h hs)
  have "takeWhile (hm_contains_key (bmap (touch_block a h c))) hs = takeWhile (hm_contains_key (bmap c)) hs"
    if "hm_contains_key (bmap c) h"
    using that by (intro takeWhile_cong) (auto simp: contains_touch_block)
  with Cons.IH[of "touch_block a h c" "n + 1"] show ?case by (simp add: touched_part_def)
qed

lemma touch_eq:
  "touch c hs only =
     (compact_if_bloated (fold (touch_block (clock c + 1)) (touched_part c only hs) (c\<lparr>clock := clock c + 1\<rparr>)),
      length (touched_part c only hs))"
  by (simp add: touch_def Let_def touch_loop_eq touched_part_def)

lemma lru_wf_clock [simp]: "lru_wf (c\<lparr>clock := t\<rparr>) = lru_wf c"
  by (simp add: lru_wf_def live_def)

lemma lru_wf_touch [simp, intro]: "lru_wf c \<Longrightarrow> lru_wf (fst (touch c hs only))"
  by (simp add: touch_eq lru_wf_compact lru_wf_fold_touch)

lemma lru_wf_insert_chain [simp, intro]: "lru_wf c \<Longrightarrow> lru_wf (insert_chain c hs)"
  by (simp add: insert_chain_def lru_wf_touch)

lemma lru_wf_match_prefix [simp, intro]: "lru_wf c \<Longrightarrow> lru_wf (fst (match_prefix c hs))"
  by (simp add: match_prefix_def lru_wf_touch)

lemma evict_to_fields [lru_simps]:
  "clock (evict_to c b) = clock c" "seq (evict_to c b) = seq c" "more (evict_to c b) = more c"
  by (simp_all add: evict_to_def split: prod.splits)

lemma evict_to_correct:
  assumes "lru_wf c"
  shows "lru_wf (evict_to c b)"
    and "recency (evict_to c b) = lru_evict b (recency c)"
    and "bh_len (heap (evict_to c b)) + num_blocks c \<le> bh_len (heap c) + num_blocks (evict_to c b)"
  using evict_loop_correct[of "bmap c" "heap c" b] assms
  by (auto simp: evict_to_def lru_wf_def recency_def live_def lru_evict_def take_map num_blocks_def
      hm_len_def bh_len_def split: prod.splits)

lemma num_blocks_evict_to: "lru_wf c \<Longrightarrow> num_blocks (evict_to c b) = min b (num_blocks c)"
  by (simp add: num_blocks_recency evict_to_correct length_lru_evict)

lemma lookup_recency: "lookup c hs = lru_hits hs (recency c)"
  by (simp add: lookup_def lru_hits_def contains_iff_recency cong: takeWhile_cong)

lemma lookup_le: "lookup c hs \<le> length hs"
  by (simp add: lookup_recency lru_hits_le)

lemma touched_part_recency:
  "touched_part c True hs = takeWhile (\<lambda>h. h \<in> set (recency c)) hs"
  by (simp add: touched_part_def contains_iff_recency cong: takeWhile_cong)

subsection \<open>Refinement of the recency list\<close>

lemma headroom_mono: "headroom n c \<Longrightarrow> m \<le> n \<Longrightarrow> headroom m c"
  by (simp add: headroom_def)

lemma lru_ordered_new [simp]: "lru_ordered prefix_cache_new"
  by (simp add: lru_ordered_def lru_simps)

lemma touched_part_le: "length (touched_part c only hs) \<le> length hs"
  by (simp add: touched_part_def length_takeWhile_le)

lemma touch_refines:
  assumes "lru_wf c" "lru_ordered c" "headroom (length hs) c"
  shows "recency (fst (touch c hs only)) = lru_touch (touched_part c only hs) (recency c)"
    and "lru_ordered (fst (touch c hs only))"
proof -
  have "headroom (length (touched_part c only hs)) c"
    using assms(3) touched_part_le by (rule headroom_mono)
  from recency_fold_touch[OF assms(1,2) this]
  show "recency (fst (touch c hs only)) = lru_touch (touched_part c only hs) (recency c)"
    and "lru_ordered (fst (touch c hs only))"
    by (simp_all add: touch_eq lru_simps)
qed

lemma insert_chain_refines:
  assumes "lru_wf c" "lru_ordered c" "headroom (length hs) c"
  shows "recency (insert_chain c hs) = lru_touch hs (recency c)" and "lru_ordered (insert_chain c hs)"
  using touch_refines[OF assms, of False] by (simp_all add: insert_chain_def touched_part_def)

lemma match_prefix_refines:
  assumes "lru_wf c" "lru_ordered c" "headroom (length hs) c"
  shows "recency (fst (match_prefix c hs)) = lru_match hs (recency c)"
    and "lru_ordered (fst (match_prefix c hs))"
  using touch_refines[OF assms, of True] touched_part_recency[of c hs]
  by (simp_all add: match_prefix_def lru_match_def)

lemma match_prefix_count: "snd (match_prefix c hs) = lru_hits hs (recency c)"
  by (simp add: match_prefix_def touch_eq touched_part_recency lru_hits_def)

lemma set_live_evict: "lru_wf c \<Longrightarrow> set (live (evict_to c b)) \<subseteq> set (live c)"
proof -
  assume wf: "lru_wf c"
  have "sort (live (evict_to c b)) = take b (sort (live c))"
    using evict_loop_correct[of "bmap c" "heap c" b] wf
    by (auto simp: evict_to_def lru_wf_def live_def split: prod.splits)
  then show ?thesis by (metis set_sort set_take_subset)
qed

lemma lru_ordered_evict: "lru_wf c \<Longrightarrow> lru_ordered c \<Longrightarrow> lru_ordered (evict_to c b)"
  using set_live_evict[of c b] by (auto simp: lru_ordered_def lru_simps)

text \<open>How far a call moves the counters.\<close>

lemma unat_add_le: "unat (x + of_nat n :: u64) \<le> unat x + n"
proof -
  have "unat (x + of_nat n) \<le> unat x + unat (of_nat n :: u64)"
    by (simp add: unat_word_ariths)
  also have "unat (of_nat n :: u64) \<le> n" by (simp add: unat_of_nat)
  finally show ?thesis by simp
qed

lemma touch_counters:
  "unat (clock (fst (touch c hs only))) \<le> unat (clock c) + 1"
  "unat (seq (fst (touch c hs only))) \<le> unat (seq c) + length hs"
proof -
  have "unat (seq (fst (touch c hs only))) \<le> unat (seq c) + length (touched_part c only hs)"
    using unat_add_le by (simp add: touch_eq lru_simps)
  then show "unat (seq (fst (touch c hs only))) \<le> unat (seq c) + length hs"
    using touched_part_le[of c only hs] by linarith
  show "unat (clock (fst (touch c hs only))) \<le> unat (clock c) + 1"
    using unat_add_le[of "clock c" 1] by (simp add: touch_eq lru_simps)
qed

lemma counters_insert_chain:
  "unat (clock (insert_chain c hs)) \<le> unat (clock c) + 1"
  "unat (seq (insert_chain c hs)) \<le> unat (seq c) + length hs"
  using touch_counters[of c hs False] by (simp_all add: insert_chain_def)

lemma counters_match_prefix:
  "unat (clock (fst (match_prefix c hs))) \<le> unat (clock c) + 1"
  "unat (seq (fst (match_prefix c hs))) \<le> unat (seq c) + length hs"
  using touch_counters[of c hs True] by (simp_all add: match_prefix_def)

subsection \<open>Runs of calls\<close>

datatype cache_op = Insert "u64 list" | Match "u64 list" | Lookup "u64 list" | EvictTo usize

fun cache_step :: "cache_op \<Rightarrow> prefix_cache \<Rightarrow> prefix_cache \<times> usize" where
  "cache_step (Insert hs) c = (insert_chain c hs, 0)"
| "cache_step (Match hs) c = match_prefix c hs"
| "cache_step (Lookup hs) c = (c, lookup c hs)"
| "cache_step (EvictTo b) c = (evict_to c b, 0)"

fun cache_run :: "cache_op list \<Rightarrow> prefix_cache \<Rightarrow> prefix_cache \<times> usize list" where
  "cache_run [] c = (c, [])"
| "cache_run (p # ps) c =
     (let (c1, n) = cache_step p c; (c2, ns) = cache_run ps c1 in (c2, n # ns))"

text \<open>The same calls on the specification.\<close>

fun lru_step :: "cache_op \<Rightarrow> u64 list \<Rightarrow> u64 list \<times> nat" where
  "lru_step (Insert hs) xs = (lru_touch hs xs, 0)"
| "lru_step (Match hs) xs = (lru_match hs xs, lru_hits hs xs)"
| "lru_step (Lookup hs) xs = (xs, lru_hits hs xs)"
| "lru_step (EvictTo b) xs = (lru_evict b xs, 0)"

fun lru_run :: "cache_op list \<Rightarrow> u64 list \<Rightarrow> u64 list \<times> nat list" where
  "lru_run [] xs = (xs, [])"
| "lru_run (p # ps) xs = (let (ys, n) = lru_step p xs; (zs, ns) = lru_run ps ys in (zs, n # ns))"

text \<open>The number of touches a call may make, and the ticks it takes.\<close>

fun op_cost :: "cache_op \<Rightarrow> nat" where
  "op_cost (Insert hs) = Suc (length hs)"
| "op_cost (Match hs) = Suc (length hs)"
| "op_cost _ = 0"

definition run_cost :: "cache_op list \<Rightarrow> nat" where
  "run_cost ps = sum_list (map op_cost ps)"

definition counters_below :: "nat \<Rightarrow> 'a lru_scheme \<Rightarrow> bool" where
  "counters_below n c = (unat (clock c) + n < 2 ^ 64 \<and> unat (seq c) + n < 2 ^ 64)"

lemma counters_headroom: "counters_below (Suc (length hs) + n) c \<Longrightarrow> headroom (length hs) c"
  by (simp add: counters_below_def headroom_def)

lemma cache_step_refines:
  assumes inv: "lru_wf c" "lru_ordered c" and room: "counters_below (op_cost p + n) c"
    and s: "cache_step p c = (c', k)"
  shows "lru_step p (recency c) = (recency c', k)" and "lru_wf c'" and "lru_ordered c'"
    and "counters_below n c'"
proof -
  have "lru_step p (recency c) = (recency c', k) \<and> lru_wf c' \<and> lru_ordered c' \<and> counters_below n c'"
  proof (cases p)
    case (Insert hs)
    then have h: "headroom (length hs) c" using room counters_headroom[of hs n c] by simp
    show ?thesis
      using Insert s room insert_chain_refines[OF inv h] inv counters_insert_chain[of c hs]
      by (auto simp: counters_below_def)
  next
    case (Match hs)
    then have h: "headroom (length hs) c" using room counters_headroom[of hs n c] by simp
    show ?thesis
      using Match s room match_prefix_refines[OF inv h] inv counters_match_prefix[of c hs]
        match_prefix_count[of c hs] lru_wf_match_prefix[OF inv(1), of hs]
      by (auto simp: counters_below_def)
  next
    case (Lookup hs)
    then show ?thesis using s room inv by (auto simp: lookup_recency)
  next
    case (EvictTo b)
    then show ?thesis
      using s room inv evict_to_correct[OF inv(1), of b] lru_ordered_evict[OF inv, of b]
      by (auto simp: counters_below_def lru_simps)
  qed
  then show "lru_step p (recency c) = (recency c', k)" and "lru_wf c'" and "lru_ordered c'"
    and "counters_below n c'" by blast+
qed

lemma cache_run_refines:
  assumes "lru_wf c" "lru_ordered c" "counters_below (run_cost ps) c"
    and "cache_run ps c = (c', ks)"
  shows "lru_run ps (recency c) = (recency c', ks)" and "lru_wf c'" and "lru_ordered c'"
  using assms
proof (induction ps arbitrary: c ks)
  case Nil
  case 1 then show ?case by simp
  case 2 then show ?case by simp
  case 3 then show ?case by simp
next
  case (Cons p ps)
  have step: "\<exists>c1 k ks'. cache_step p c = (c1, k) \<and> cache_run ps c1 = (c', ks') \<and> ks = k # ks' \<and>
      lru_step p (recency c) = (recency c1, k) \<and> lru_wf c1 \<and> lru_ordered c1 \<and> counters_below (run_cost ps) c1"
    if "lru_wf c" "lru_ordered c" "counters_below (run_cost (p # ps)) c" "cache_run (p # ps) c = (c', ks)"
    for c ks
    using that cache_step_refines[of c p "run_cost ps"]
    by (auto simp: run_cost_def split: prod.splits)
  {
    case 1
    from step[OF 1] obtain c1 k ks' where "cache_run ps c1 = (c', ks')" "ks = k # ks'"
      "lru_step p (recency c) = (recency c1, k)" "lru_wf c1" "lru_ordered c1"
      "counters_below (run_cost ps) c1" by blast
    with Cons.IH(1)[of c1 ks'] show ?case by simp
  next
    case 2
    then show ?case using step Cons.IH(2) by blast
  next
    case 3
    then show ?case using step Cons.IH(3) by blast
  }
qed

subsection \<open>What the scheduler relies on\<close>

text \<open>
  The calls \<open>Scheduler::pick\<close> and \<open>mark_unhealthy\<close> make on a replica's cache and what they
  may assume of them whatever the counters do: sizes and the budget.
\<close>

locale prefix_index =
  fixes new_index :: 'c
    and look :: "'c \<Rightarrow> u64 list \<Rightarrow> usize"
    and ins :: "'c \<Rightarrow> u64 list \<Rightarrow> 'c"
    and evict :: "'c \<Rightarrow> usize \<Rightarrow> 'c"
    and blocks :: "'c \<Rightarrow> usize"
    and inv :: "'c \<Rightarrow> bool"
  assumes inv_new: "inv new_index"
    and inv_ins: "inv c \<Longrightarrow> inv (ins c hs)"
    and inv_evict: "inv c \<Longrightarrow> inv (evict c b)"
    and blocks_new: "blocks new_index = 0"
    and blocks_evict: "inv c \<Longrightarrow> blocks (evict c b) = min b (blocks c)"
    and look_le: "look c hs \<le> length hs"
begin

lemma admit_inv: "inv c \<Longrightarrow> inv (evict (ins c hs) b)"
  by (simp add: inv_ins inv_evict)

lemma admit_budget: "inv c \<Longrightarrow> blocks (evict (ins c hs) b) \<le> b"
  by (simp add: blocks_evict inv_ins)

lemma new_budget: "blocks new_index \<le> b"
  by (simp add: blocks_new)

end

text \<open>
  As long as the counters do not wrap, the index is a recency list: \<open>room n c\<close> says that \<open>c\<close>
  can take a chain of \<open>n\<close> blocks.
\<close>

locale recency_index = prefix_index new_index look ins evict blocks inv
  for new_index :: 'c and look ins evict blocks inv +
  fixes order :: "'c \<Rightarrow> u64 list"
    and ordered :: "'c \<Rightarrow> bool"
    and room :: "nat \<Rightarrow> 'c \<Rightarrow> bool"
  assumes ordered_new: "ordered new_index"
    and order_new: "order new_index = []"
    and look_order: "look c hs = lru_hits hs (order c)"
    and order_ins: "inv c \<Longrightarrow> ordered c \<Longrightarrow> room (length hs) c \<Longrightarrow> order (ins c hs) = lru_touch hs (order c)"
    and ordered_ins: "inv c \<Longrightarrow> ordered c \<Longrightarrow> room (length hs) c \<Longrightarrow> ordered (ins c hs)"
    and order_evict: "inv c \<Longrightarrow> order (evict c b) = lru_evict b (order c)"
    and ordered_evict: "inv c \<Longrightarrow> ordered c \<Longrightarrow> ordered (evict c b)"
begin

lemma admit_order:
  "inv c \<Longrightarrow> ordered c \<Longrightarrow> room (length hs) c \<Longrightarrow> order (evict (ins c hs) b) = lru_admit b hs (order c)"
  by (simp add: order_evict order_ins inv_ins lru_admit_def)

lemma admit_ordered:
  "inv c \<Longrightarrow> ordered c \<Longrightarrow> room (length hs) c \<Longrightarrow> ordered (evict (ins c hs) b)"
  by (simp add: ordered_evict ordered_ins inv_ins)

text \<open>A chain that fits the budget is found whole right after it was admitted.\<close>

lemma admit_then_hit:
  assumes "inv c" "ordered c" "room (length hs) c" "length hs \<le> b"
  shows "look (evict (ins c hs) b) hs = length hs"
proof -
  have "length (remdups hs) \<le> b" using length_remdups_leq[of hs] assms(4) by linarith
  then show ?thesis
    using lru_admit_keeps_chain by (simp add: look_order admit_order[OF assms(1-3)] lru_hits_full)
qed

end

interpretation pc: recency_index
  prefix_cache_new lookup insert_chain evict_to num_blocks lru_wf recency lru_ordered headroom
  by unfold_locales
    (auto simp: lru_simps num_blocks_evict_to lookup_recency lru_hits_le insert_chain_refines
      evict_to_correct lru_ordered_evict)

subsection \<open>Properties\<close>

lemma cache_run_wf: "lru_wf c \<Longrightarrow> lru_wf (fst (cache_run ps c))"
proof (induction ps arbitrary: c)
  case Nil
  then show ?case by simp
next
  case (Cons p ps)
  have "lru_wf (fst (cache_step p c))"
    using Cons.prems by (cases p) (auto intro: evict_to_correct)
  from Cons.IH[OF this] show ?case by (simp add: case_prod_beta)
qed

lemma counters_new: "run_cost ps < 2 ^ 64 \<Longrightarrow> counters_below (run_cost ps) prefix_cache_new"
  by (simp add: counters_below_def lru_simps)

text \<open>C1. The map, the lazily cleaned heap and the two counters implement the recency list: from
  a new cache, any run of insert, match, lookup and evict calls gives the results of the
  specification and leaves its blocks in its order, if fewer than 2^64 touches and ticks happen.\<close>

theorem prefix_cache_refines_lru:
  assumes "run_cost ps < 2 ^ 64" and "cache_run ps prefix_cache_new = (c, ks)"
  shows "lru_run ps [] = (recency c, ks)"
  using cache_run_refines(1)[OF lru_wf_new lru_ordered_new counters_new[OF assms(1)] assms(2)]
  by (simp add: lru_simps)

definition demo_ops :: "cache_op list" where
  "demo_ops = [Insert [1, 2], Insert [3, 4], Match [1, 2], EvictTo 3, Lookup [3, 4], Match [3, 4, 5], Insert [1, 9]]"

theorem prefix_cache_refines_lru_witness:
  "lru_run demo_ops [] = (recency (fst (cache_run demo_ops prefix_cache_new)), [0, 0, 2, 0, 1, 1, 0])
   \<and> recency (fst (cache_run demo_ops prefix_cache_new)) = [1, 9, 3, 2]"
proof -
  have run: "run_cost demo_ops < 2 ^ 64" by (simp add: demo_ops_def run_cost_def)
  have out: "cache_run demo_ops prefix_cache_new =
      (fst (cache_run demo_ops prefix_cache_new), snd (cache_run demo_ops prefix_cache_new))" by simp
  have spec: "lru_run demo_ops [] = ([1, 9, 3, 2], [0, 0, 2, 0, 1, 1, 0])" by code_simp
  from prefix_cache_refines_lru[OF run out] spec show ?thesis by simp
qed

text \<open>Eviction is exact in every reachable state, stale heap entries and counter wrap-around
  included: it never stops early on an empty heap, it leaves \<open>min budget (num_blocks)\<close> blocks,
  they are the first ones of the order, and it does not touch what is within budget.\<close>

theorem evict_to_exact:
  "num_blocks (evict_to (fst (cache_run ps prefix_cache_new)) b) =
      min b (num_blocks (fst (cache_run ps prefix_cache_new))) \<and>
   recency (evict_to (fst (cache_run ps prefix_cache_new)) b) =
      take b (recency (fst (cache_run ps prefix_cache_new)))"
  using evict_to_correct(2)[OF cache_run_wf[OF lru_wf_new]] num_blocks_evict_to[OF cache_run_wf[OF lru_wf_new]]
  by (simp add: lru_evict_def)

text \<open>The chains a run of calls mentions.\<close>

fun op_chains :: "cache_op \<Rightarrow> u64 list set" where
  "op_chains (Insert hs) = {hs}"
| "op_chains (Match hs) = {hs}"
| "op_chains (Lookup hs) = {hs}"
| "op_chains (EvictTo b) = {}"

lemma tail_first_lru_step:
  assumes F: "chain_family F" and p: "op_chains p \<subseteq> F" and xs: "tail_first F xs"
  shows "tail_first F (fst (lru_step p xs))"
proof (cases p)
  case (Insert hs)
  with p tail_first_touch[OF F _ _ xs, of hs hs "length hs"] show ?thesis by simp
next
  case (Match hs)
  with p tail_first_touch[OF F _ takeWhile_eq_take xs, of hs] show ?thesis by (simp add: lru_match_def)
qed (use xs in \<open>auto intro: tail_first_evict\<close>)

lemma tail_first_lru_run:
  "chain_family F \<Longrightarrow> (\<Union>p\<in>set ps. op_chains p) \<subseteq> F \<Longrightarrow> tail_first F xs \<Longrightarrow>
    tail_first F (fst (lru_run ps xs))"
proof (induction ps arbitrary: xs)
  case Nil
  then show ?case by simp
next
  case (Cons p ps)
  then have "tail_first F (fst (lru_step p xs))" by (intro tail_first_lru_step) auto
  with Cons show ?case by (simp add: case_prod_beta)
qed

lemma recency_no_orphan:
  assumes F: "chain_family F" and ps: "(\<Union>p\<in>set ps. op_chains p) \<subseteq> F" and cost: "run_cost ps < 2 ^ 64"
  shows "prefix_closed F (set (recency (fst (cache_run ps prefix_cache_new))))"
proof -
  have "lru_run ps [] = (recency (fst (cache_run ps prefix_cache_new)), snd (cache_run ps prefix_cache_new))"
    using cache_run_refines(1)[OF lru_wf_new lru_ordered_new counters_new[OF cost], of
        "fst (cache_run ps prefix_cache_new)" "snd (cache_run ps prefix_cache_new)"]
    by (simp add: lru_simps)
  with tail_first_lru_run[OF F ps tail_first_Nil] show ?thesis
    by (metis fst_conv tail_first_closed)
qed

text \<open>No orphans: if the chains used form a tree (no hash collision), then in every state a
  cache reaches, a block is present only with all blocks before it in its chain, so the
  number of leading blocks present, which \<open>lookup\<close> counts, is the number of blocks present.\<close>

theorem no_orphan_blocks:
  assumes "chain_family F" and "(\<Union>p\<in>set ps. op_chains p) \<subseteq> F" and "run_cost ps < 2 ^ 64"
    and "hs \<in> F" and "i \<le> j" and "j < length hs"
    and "hm_contains_key (bmap (fst (cache_run ps prefix_cache_new))) (hs ! j)"
  shows "hm_contains_key (bmap (fst (cache_run ps prefix_cache_new))) (hs ! i) \<and>
    lookup (fst (cache_run ps prefix_cache_new)) hs =
      length (filter (hm_contains_key (bmap (fst (cache_run ps prefix_cache_new)))) hs)"
proof -
  note closed = recency_no_orphan[OF assms(1-3)]
  have "hs ! i \<in> set (recency (fst (cache_run ps prefix_cache_new)))"
    using prefix_closed_below[OF closed assms(4,6) _ assms(5)] assms(7) by (simp add: contains_iff_recency)
  moreover have "lookup (fst (cache_run ps prefix_cache_new)) hs =
      length (filter (\<lambda>h. h \<in> set (recency (fst (cache_run ps prefix_cache_new)))) hs)"
    using closed_takeWhile_eq_filter[OF closed assms(4)] by (simp add: lookup_recency lru_hits_def)
  ultimately show ?thesis by (simp add: contains_iff_recency cong: filter_cong)
qed

definition demo_family :: "u64 list set" where
  "demo_family = {[1, 2, 3], [1, 2, 4], [5, 6]}"

definition demo_tree_ops :: "cache_op list" where
  "demo_tree_ops = [Insert [1, 2, 3], Insert [5, 6], Match [1, 2, 4], EvictTo 3]"

lemma demo_family_chains: "chain_family demo_family"
  by code_simp

theorem no_orphan_blocks_witness:
  "hm_contains_key (bmap (fst (cache_run demo_tree_ops prefix_cache_new))) 1 \<and>
   lookup (fst (cache_run demo_tree_ops prefix_cache_new)) [1, 2, 3] = 2"
proof -
  let ?c = "fst (cache_run demo_tree_ops prefix_cache_new)"
  have ops: "(\<Union>p\<in>set demo_tree_ops. op_chains p) \<subseteq> demo_family"
    by (simp add: demo_tree_ops_def demo_family_def)
  have cost: "run_cost demo_tree_ops < 2 ^ 64" by (simp add: demo_tree_ops_def run_cost_def)
  have c: "bmap ?c = [(1, 3, 6), (2, 3, 7), (5, 2, 4)]" by code_simp
  have mem: "[1, 2, 3] \<in> demo_family" by (simp add: demo_family_def)
  have "hm_contains_key (bmap ?c) ([1, 2, 3] ! 1)" by (simp add: c hm_contains_key_def)
  from no_orphan_blocks[OF demo_family_chains ops cost mem _ _ this, of 0] c
  show ?thesis by (simp add: hm_contains_key_def)
qed

text \<open>The heap stays small under traffic that never evicts: after every touch it is at most
  twice the larger of the number of blocks and the compaction floor, whatever its size was
  before; in reachable states it holds at least the live blocks, and an eviction shrinks it by
  at least one entry per block evicted.\<close>

theorem heap_bounded:
  "bh_len (heap (fst (touch c hs only))) \<le> 2 * max (num_blocks (fst (touch c hs only))) COMPACT_FLOOR \<and>
   num_blocks (fst (cache_run ps prefix_cache_new)) \<le> bh_len (heap (fst (cache_run ps prefix_cache_new))) \<and>
   bh_len (heap (evict_to (fst (cache_run ps prefix_cache_new)) b)) + num_blocks (fst (cache_run ps prefix_cache_new))
     \<le> bh_len (heap (fst (cache_run ps prefix_cache_new))) + min b (num_blocks (fst (cache_run ps prefix_cache_new)))"
proof (intro conjI)
  let ?c = "fst (cache_run ps prefix_cache_new)"
  have wf: "lru_wf ?c" by (rule cache_run_wf) simp
  show "bh_len (heap (fst (touch c hs only))) \<le> 2 * max (num_blocks (fst (touch c hs only))) COMPACT_FLOOR"
    using compact_bounded by (simp add: touch_eq lru_simps num_blocks_def)
  show "num_blocks ?c \<le> bh_len (heap ?c)" using heap_covers_map[OF wf] by (simp add: num_blocks_def)
  show "bh_len (heap (evict_to ?c b)) + num_blocks ?c \<le> bh_len (heap ?c) + min b (num_blocks ?c)"
    using evict_to_correct(3)[OF wf, of b] by (simp add: num_blocks_evict_to[OF wf])
qed

end
