(* ===== verification/F64.thy ===== *)
theory F64
  imports Prelude "HOL-Library.Log_Nat"
begin

text \<open>
  The \<open>f64\<close> of the code: IEEE 754 binary64 with round to nearest, ties to even, as far as the
  router and the load generator use it (conversion from integers, product, difference,
  comparison). A finite value is a pair of integers \<open>m\<close> and \<open>e\<close> standing for \<open>m * 2 ^ e\<close>;
  every operation computes the exact result and rounds it once, to 53 bits or to the
  subnormal grid, with overflow to infinity. The sign of zero is not kept: no operation used
  here can tell the two zeros apart (there is no division by a zero, and comparison does not).
\<close>

datatype f64 = F64_NaN | F64_Inf bool | F64 int int

text \<open>\<open>F64_Inf True\<close> is minus infinity.\<close>

definition f64_zero :: f64 where "f64_zero = F64 0 0"

text \<open>\<open>f64::MIN\<close>, the least finite value.\<close>

definition f64_MIN :: f64 where "f64_MIN = F64 (- (2 ^ 53 - 1)) 971"

text \<open>\<open>a / 2 ^ k\<close> to the nearest integer, ties to even.\<close>

definition rne :: "nat \<Rightarrow> nat \<Rightarrow> nat" where
  "rne a k =
     (let q = a div 2 ^ k; r = a mod 2 ^ k
      in if 2 ^ k < 2 * r \<or> 2 ^ k = 2 * r \<and> odd q then q + 1 else q)"

definition f64_round :: "int \<Rightarrow> int \<Rightarrow> f64" where
  "f64_round m e =
     (let a = nat \<bar>m\<bar>;
          k = nat (max (int (floorlog 2 a) - 53) (- 1074 - e));
          q = rne a k;
          e' = e + int k
      in if q \<noteq> 0 \<and> 1024 < int (floorlog 2 q) + e' then F64_Inf (m < 0)
         else F64 (sgn m * int q) e')"

definition f64_of_usize :: "usize \<Rightarrow> f64" where
  "f64_of_usize n = f64_round (int n) 0"

fun f64_neg :: "f64 \<Rightarrow> f64" where
  "f64_neg F64_NaN = F64_NaN"
| "f64_neg (F64_Inf s) = F64_Inf (\<not> s)"
| "f64_neg (F64 m e) = F64 (- m) e"

fun f64_mul :: "f64 \<Rightarrow> f64 \<Rightarrow> f64" where
  "f64_mul F64_NaN y = F64_NaN"
| "f64_mul x F64_NaN = F64_NaN"
| "f64_mul (F64_Inf s) (F64_Inf t) = F64_Inf (s \<noteq> t)"
| "f64_mul (F64_Inf s) (F64 m e) = (if m = 0 then F64_NaN else F64_Inf (s \<noteq> (m < 0)))"
| "f64_mul (F64 m e) (F64_Inf t) = (if m = 0 then F64_NaN else F64_Inf ((m < 0) \<noteq> t))"
| "f64_mul (F64 m e) (F64 n f) = f64_round (m * n) (e + f)"

fun f64_add :: "f64 \<Rightarrow> f64 \<Rightarrow> f64" where
  "f64_add F64_NaN y = F64_NaN"
| "f64_add x F64_NaN = F64_NaN"
| "f64_add (F64_Inf s) (F64_Inf t) = (if s = t then F64_Inf s else F64_NaN)"
| "f64_add (F64_Inf s) (F64 n f) = F64_Inf s"
| "f64_add (F64 m e) (F64_Inf t) = F64_Inf t"
| "f64_add (F64 m e) (F64 n f) =
     (let g = min e f in f64_round (m * 2 ^ nat (e - g) + n * 2 ^ nat (f - g)) g)"

definition f64_sub :: "f64 \<Rightarrow> f64 \<Rightarrow> f64" where
  "f64_sub x y = f64_add x (f64_neg y)"

text \<open>\<open>x > y\<close>; false when either is NaN.\<close>

fun f64_gt :: "f64 \<Rightarrow> f64 \<Rightarrow> bool" where
  "f64_gt F64_NaN y = False"
| "f64_gt x F64_NaN = False"
| "f64_gt (F64_Inf s) (F64_Inf t) = (\<not> s \<and> t)"
| "f64_gt (F64_Inf s) (F64 n f) = (\<not> s)"
| "f64_gt (F64 m e) (F64_Inf t) = t"
| "f64_gt (F64 m e) (F64 n f) =
     (let g = min e f in n * 2 ^ nat (f - g) < m * 2 ^ nat (e - g))"

subsection \<open>Comparison is an order on everything but NaN\<close>

text \<open>The value as a real, and the three classes in order.\<close>

definition dyadic :: "int \<Rightarrow> int \<Rightarrow> real" where
  "dyadic m e = real_of_int m * 2 powi e"

fun f64_class :: "f64 \<Rightarrow> int" where
  "f64_class F64_NaN = 0"
| "f64_class (F64_Inf s) = (if s then - 1 else 1)"
| "f64_class (F64 m e) = 0"

fun f64_val :: "f64 \<Rightarrow> real" where
  "f64_val (F64 m e) = dyadic m e"
| "f64_val _ = 0"

lemma dyadic_align: "g \<le> e \<Longrightarrow> dyadic m e = real_of_int (m * 2 ^ nat (e - g)) * 2 powi g"
proof -
  assume "g \<le> e"
  then have "(2::real) powi e = 2 ^ nat (e - g) * 2 powi g"
    using power_int_add[of "2::real" "e - g" g] power_int_of_nat[of "2::real" "nat (e - g)"] by simp
  then show ?thesis by (simp add: dyadic_def)
qed

lemma dyadic_less_iff:
  "n * 2 ^ nat (f - min e f) < m * 2 ^ nat (e - min e f) \<longleftrightarrow> dyadic n f < dyadic m e"
proof -
  have "(0::real) < 2 powi (min e f)" by simp
  then show ?thesis
    unfolding dyadic_align[of "min e f" e m, OF min.cobounded1] dyadic_align[of "min e f" f n, OF min.cobounded2]
    by (simp only: mult_less_cancel_right_pos of_int_less_iff)
qed

lemma f64_gt_iff:
  "f64_gt x y \<longleftrightarrow> x \<noteq> F64_NaN \<and> y \<noteq> F64_NaN \<and>
    (f64_class y < f64_class x \<or> f64_class x = f64_class y \<and> f64_val y < f64_val x)"
  by (cases x; cases y) (auto simp: Let_def dyadic_less_iff)

lemma f64_gt_trans: "f64_gt x y \<Longrightarrow> f64_gt y z \<Longrightarrow> f64_gt x z"
  by (auto simp: f64_gt_iff)

lemma f64_gt_irrefl [simp]: "\<not> f64_gt x x"
  by (simp add: f64_gt_iff)

lemma f64_not_gt_trans: "y \<noteq> F64_NaN \<Longrightarrow> \<not> f64_gt x y \<Longrightarrow> \<not> f64_gt y z \<Longrightarrow> \<not> f64_gt x z"
  by (auto simp: f64_gt_iff)

subsection \<open>Exact results\<close>

lemma floorlog_le: "a < 2 ^ n \<Longrightarrow> floorlog 2 a \<le> n"
  by (cases "a = 0") (auto simp: floorlog_leI)

text \<open>An integer of at most 53 bits is not rounded.\<close>

lemma f64_round_exact: "\<bar>m\<bar> < 2 ^ 53 \<Longrightarrow> f64_round m 0 = F64 m 0"
proof -
  assume "\<bar>m\<bar> < 2 ^ 53"
  then have "floorlog 2 (nat \<bar>m\<bar>) \<le> 53" by (intro floorlog_le) (simp add: nat_less_iff)
  moreover have "sgn m * \<bar>m\<bar> = m" by (simp add: sgn_if)
  ultimately show ?thesis by (simp add: f64_round_def rne_def Let_def)
qed

lemma f64_of_usize_exact: "n < 2 ^ 53 \<Longrightarrow> f64_of_usize n = F64 (int n) 0"
  by (simp add: f64_of_usize_def f64_round_exact)

lemma f64_gt_ints [simp]: "f64_gt (F64 m 0) (F64 n 0) \<longleftrightarrow> n < m"
  by simp

lemma f64_gt_MIN: "\<bar>m\<bar> < 2 ^ 53 \<Longrightarrow> f64_gt (F64 m 0) f64_MIN"
proof -
  assume m: "\<bar>m\<bar> < 2 ^ 53"
  have "(2::int) ^ 53 * 1 \<le> (2 ^ 53 - 1) * 2 ^ 971" by simp
  with m have "- ((2 ^ 53 - 1) * 2 ^ 971) < m" by linarith
  then show ?thesis by (simp add: f64_MIN_def)
qed

end
