(* ===== verification/Scheduler.thy ===== *)
theory Scheduler
  imports Prefix_Cache F64
begin

text \<open>
  \<open>crates/router/src/scheduler.rs\<close>: the routing decision. The scheduler owns the health, the
  in-flight count and the cache picture of every replica; \<open>pick\<close> is one decision, \<open>complete\<close>
  ends a request, \<open>mark_unhealthy\<close> and \<open>mark_healthy\<close> follow the health of a replica.
  Every method that takes \<open>&mut self\<close> returns the new state; an index out of bounds and a
  failed \<open>expect\<close> are the value \<open>None\<close> of \<open>panics\<close>.
\<close>

datatype policy = CacheAware | RoundRobin

record scheduler_config =
  alpha :: f64
  beta :: f64
  min_match_blocks :: usize
  block_budget :: usize
  max_inflight :: usize

definition default_config :: scheduler_config where
  "default_config =
     \<lparr>alpha = F64 1 0, beta = F64 2 0, min_match_blocks = 2, block_budget = 65536, max_inflight = 512\<rparr>"

record replica_state =
  cache :: prefix_cache
  inflight :: usize
  healthy :: bool

datatype pick_error = NoHealthyReplicas | AllSaturated

record route_decision =
  replica :: usize
  matched_blocks :: usize
  inflight_after :: usize

record scheduler =
  replicas :: "replica_state list"
  policy :: policy
  cfg :: scheduler_config
  rr_next :: usize

definition new_replica :: replica_state where
  "new_replica = \<lparr>cache = prefix_cache_new, inflight = 0, healthy = True\<rparr>"

definition scheduler_new :: "usize \<Rightarrow> policy \<Rightarrow> scheduler_config \<Rightarrow> scheduler" where
  "scheduler_new n pol c =
     \<lparr>replicas = map (\<lambda>_. new_replica) [0..<n], policy = pol, cfg = c, rr_next = 0\<rparr>"

subsection \<open>pick\<close>

text \<open>The first loop: the mask of replicas that can take a request, and two flags.\<close>

fun scan_replicas :: "scheduler_config \<Rightarrow> replica_state list \<Rightarrow> bool list \<times> bool \<times> bool" where
  "scan_replicas c [] = ([], False, False)"
| "scan_replicas c (r # rs) =
     (let (amask, any_available, any_healthy) = scan_replicas c rs
      in if healthy r then
           (if inflight r < max_inflight c then (True # amask, True, True)
            else (False # amask, any_available, True))
         else (False # amask, any_available, any_healthy))"

text \<open>The wrap-around scan of the round-robin policy over the offsets \<open>0..n\<close>.\<close>

fun rr_scan :: "bool list \<Rightarrow> usize \<Rightarrow> usize \<Rightarrow> usize list \<Rightarrow> usize option" where
  "rr_scan avail_mask next n [] = None"
| "rr_scan avail_mask next n (off # offs) =
     (let cand = (next + off) mod n
      in if avail_mask ! cand then Some cand else rr_scan avail_mask next n offs)"

definition score :: "scheduler_config \<Rightarrow> replica_state \<Rightarrow> u64 list \<Rightarrow> f64" where
  "score c r hashes =
     f64_sub (f64_mul (alpha c) (f64_of_usize (lookup (cache r) hashes)))
       (f64_mul (beta c) (f64_of_usize (inflight r)))"

text \<open>The scoring loop: a later replica replaces the best one only with a greater score.\<close>

fun best_loop ::
  "scheduler_config \<Rightarrow> replica_state list \<Rightarrow> u64 list \<Rightarrow> usize list \<Rightarrow> usize \<Rightarrow> f64 \<Rightarrow> usize \<Rightarrow> usize \<times> usize" where
  "best_loop c rs hashes [] best best_score best_matched = (best, best_matched)"
| "best_loop c rs hashes (i # is) best best_score best_matched =
     (let matched = lookup (cache (rs ! i)) hashes;
          s = score c (rs ! i) hashes
      in if f64_gt s best_score then best_loop c rs hashes is i s matched
         else best_loop c rs hashes is best best_score best_matched)"

definition pick_cache_aware ::
  "scheduler_config \<Rightarrow> replica_state list \<Rightarrow> bool list \<Rightarrow> u64 list \<Rightarrow> (usize \<times> usize) panics" where
  "pick_cache_aware c rs avail_mask hashes =
     (let available = filter (\<lambda>i. avail_mask ! i) [0..<length rs]
      in do {
        first \<leftarrow> vec_get available 0;
        let (best, best_matched) = best_loop c rs hashes available first f64_MIN 0;
        if best_matched < min_match_blocks c then do {
          least \<leftarrow> min_by_key (\<lambda>i. inflight (rs ! i)) available;
          Some (least, lookup (cache (rs ! least)) hashes)
        } else Some (best, best_matched)
      })"

definition pick_round_robin :: "scheduler \<Rightarrow> bool list \<Rightarrow> (scheduler \<times> usize \<times> usize) panics" where
  "pick_round_robin s avail_mask =
     (let n = length (replicas s)
      in do {
        cand \<leftarrow> rr_scan avail_mask (rr_next s) n [0..<n];
        Some (s\<lparr>rr_next := (cand + 1) mod n\<rparr>, cand, 0)
      })"

text \<open>The tail of \<open>pick\<close>: what the decision does to the chosen replica.\<close>

definition route_to :: "scheduler \<Rightarrow> u64 list \<Rightarrow> usize \<Rightarrow> usize \<Rightarrow> (scheduler \<times> route_decision) panics" where
  "route_to s hashes idx matched = do {
     r \<leftarrow> vec_get (replicas s) idx;
     let r = (if policy s = CacheAware
              then r\<lparr>cache := evict_to (insert_chain (cache r) hashes) (block_budget (cfg s))\<rparr> else r);
     let r = r\<lparr>inflight := inflight r + 1\<rparr>;
     Some (s\<lparr>replicas := (replicas s)[idx := r]\<rparr>,
           \<lparr>replica = idx, matched_blocks = matched, inflight_after = inflight r\<rparr>)
   }"

definition pick :: "scheduler \<Rightarrow> u64 list \<Rightarrow> (scheduler \<times> (pick_error + route_decision)) panics" where
  "pick s hashes =
     (let (avail_mask, any_available, any_healthy) = scan_replicas (cfg s) (replicas s)
      in if \<not> any_available
         then Some (s, Inl (if any_healthy then AllSaturated else NoHealthyReplicas))
         else do {
           (s1, idx, matched) \<leftarrow>
             (case policy s of
                RoundRobin \<Rightarrow> pick_round_robin s avail_mask
              | CacheAware \<Rightarrow> do {
                  (idx, matched) \<leftarrow> pick_cache_aware (cfg s) (replicas s) avail_mask hashes;
                  Some (s, idx, matched)
                });
           (s2, d) \<leftarrow> route_to s1 hashes idx matched;
           Some (s2, Inr d)
         })"

subsection \<open>The other methods\<close>

text \<open>\<open>saturating_sub\<close> on \<open>usize\<close> is subtraction on \<open>nat\<close>.\<close>

definition complete :: "scheduler \<Rightarrow> usize \<Rightarrow> scheduler panics" where
  "complete s i = do {
     r \<leftarrow> vec_get (replicas s) i;
     Some (s\<lparr>replicas := (replicas s)[i := r\<lparr>inflight := inflight r - 1\<rparr>]\<rparr>)
   }"

definition mark_unhealthy :: "scheduler \<Rightarrow> usize \<Rightarrow> scheduler panics" where
  "mark_unhealthy s i = do {
     r \<leftarrow> vec_get (replicas s) i;
     Some (s\<lparr>replicas := (replicas s)[i := r\<lparr>healthy := False, inflight := 0, cache := prefix_cache_new\<rparr>]\<rparr>)
   }"

definition mark_healthy :: "scheduler \<Rightarrow> usize \<Rightarrow> scheduler panics" where
  "mark_healthy s i = do {
     r \<leftarrow> vec_get (replicas s) i;
     Some (s\<lparr>replicas := (replicas s)[i := r\<lparr>healthy := True\<rparr>]\<rparr>)
   }"

definition is_healthy :: "scheduler \<Rightarrow> usize \<Rightarrow> bool panics" where
  "is_healthy s i = map_option healthy (vec_get (replicas s) i)"

definition inflight_of :: "scheduler \<Rightarrow> usize \<Rightarrow> usize panics" where
  "inflight_of s i = map_option inflight (vec_get (replicas s) i)"

definition replica_blocks :: "scheduler \<Rightarrow> usize \<Rightarrow> usize panics" where
  "replica_blocks s i = map_option (\<lambda>r. num_blocks (cache r)) (vec_get (replicas s) i)"

definition num_replicas :: "scheduler \<Rightarrow> usize" where
  "num_replicas s = length (replicas s)"

subsection \<open>What the loops of \<open>pick\<close> compute\<close>

definition available :: "scheduler_config \<Rightarrow> replica_state \<Rightarrow> bool" where
  "available c r = (healthy r \<and> inflight r < max_inflight c)"

definition available_indices :: "scheduler_config \<Rightarrow> replica_state list \<Rightarrow> usize list" where
  "available_indices c rs = filter (\<lambda>i. available c (rs ! i)) [0..<length rs]"

lemma set_available_indices [simp]:
  "set (available_indices c rs) = {i. i < length rs \<and> available c (rs ! i)}"
  by (auto simp: available_indices_def)

lemma scan_replicas_eq:
  "scan_replicas c rs = (map (available c) rs, (\<exists>r\<in>set rs. available c r), (\<exists>r\<in>set rs. healthy r))"
  by (induction rs) (auto simp: available_def Let_def)

lemma filter_mask: "filter (\<lambda>i. map (available c) rs ! i) [0..<length rs] = available_indices c rs"
  unfolding available_indices_def by (rule filter_cong) auto

lemma rr_scan_eq:
  "rr_scan amask next n offs = map_option (\<lambda>off. (next + off) mod n) (find (\<lambda>off. amask ! ((next + off) mod n)) offs)"
  by (induction offs) (auto simp: Let_def)

lemma rr_scan_reaches:
  assumes "i < n" and "amask ! i"
  shows "rr_scan amask next n [0..<n] \<noteq> None"
proof -
  define off where "off = (i + (n - next mod n)) mod n"
  have "next mod n \<le> n" using assms(1) by (simp add: less_imp_le)
  have "(next + off) mod n = (next mod n + (i + (n - next mod n))) mod n"
    unfolding off_def by (simp add: mod_simps)
  also have "next mod n + (i + (n - next mod n)) = i + n" using \<open>next mod n \<le> n\<close> by simp
  finally have "(next + off) mod n = i" using assms(1) by simp
  moreover have "off < n" using assms(1) by (simp add: off_def)
  ultimately have "\<exists>off. off \<in> set [0..<n] \<and> amask ! ((next + off) mod n)"
    using assms(2) by (intro exI[of _ off]) simp
  then have "find (\<lambda>off. amask ! ((next + off) mod n)) [0..<n] \<noteq> None"
    by (simp only: find_None_iff not_not simp_thms)
  then show ?thesis by (simp add: rr_scan_eq)
qed

lemma rr_scan_Some:
  assumes "rr_scan amask next n [0..<n] = Some cand"
  shows "cand < n \<and> amask ! cand"
proof -
  from assms obtain off where off: "find (\<lambda>off. amask ! ((next + off) mod n)) [0..<n] = Some off"
    and cand: "cand = (next + off) mod n"
    by (auto simp: rr_scan_eq)
  from off have "off < n" "amask ! ((next + off) mod n)" by (auto simp: find_Some_iff)
  with cand show ?thesis by simp
qed

text \<open>What routing a request does to the chosen replica.\<close>

definition routed :: "scheduler \<Rightarrow> u64 list \<Rightarrow> replica_state \<Rightarrow> replica_state" where
  "routed s hashes r =
     (if policy s = CacheAware
      then r\<lparr>cache := evict_to (insert_chain (cache r) hashes) (block_budget (cfg s)), inflight := inflight r + 1\<rparr>
      else r\<lparr>inflight := inflight r + 1\<rparr>)"

lemma route_to_eq:
  "i < length (replicas s) \<Longrightarrow>
    route_to s hs i m =
      Some (s\<lparr>replicas := (replicas s)[i := routed s hs (replicas s ! i)]\<rparr>,
            \<lparr>replica = i, matched_blocks = m, inflight_after = inflight (replicas s ! i) + 1\<rparr>)"
  by (simp add: route_to_def routed_def vec_get_def Let_def)

subsection \<open>The scoring loop\<close>

lemma best_loop_mem:
  "fst (best_loop c rs hs is b sc m) = b \<or> fst (best_loop c rs hs is b sc m) \<in> set is"
  by (induction "is" arbitrary: b sc m) (force simp: Let_def)+

text \<open>
  The state of the loop is right when the best replica so far carries its own score and match
  count, or nothing has beaten \<open>f64::MIN\<close> yet and the match count is 0.
\<close>

definition best_ok :: "scheduler_config \<Rightarrow> replica_state list \<Rightarrow> u64 list \<Rightarrow> usize \<Rightarrow> f64 \<Rightarrow> usize \<Rightarrow> bool" where
  "best_ok c rs hs b sc m =
     (sc \<noteq> F64_NaN \<and>
      (sc = f64_MIN \<and> m = 0 \<or> sc = score c (rs ! b) hs \<and> m = lookup (cache (rs ! b)) hs))"

lemma best_loop_result:
  assumes "best_ok c rs hs b sc m" and "best_loop c rs hs is b sc m = (b', m')"
  shows "\<exists>sc'. best_ok c rs hs b' sc' m' \<and> \<not> f64_gt sc sc' \<and>
    (\<forall>i\<in>set is. \<not> f64_gt (score c (rs ! i) hs) sc')"
  using assms
proof (induction "is" arbitrary: b sc m)
  case Nil
  then show ?case by (intro exI[of _ sc]) simp
next
  case (Cons i "is")
  let ?s = "score c (rs ! i) hs"
  show ?case
  proof (cases "f64_gt ?s sc")
    case True
    then have "best_ok c rs hs i ?s (lookup (cache (rs ! i)) hs)" by (auto simp: best_ok_def)
    moreover from True Cons.prems(2)
    have "best_loop c rs hs is i ?s (lookup (cache (rs ! i)) hs) = (b', m')" by (simp add: Let_def)
    ultimately obtain sc' where "best_ok c rs hs b' sc' m'" "\<not> f64_gt ?s sc'"
      "\<forall>i\<in>set is. \<not> f64_gt (score c (rs ! i) hs) sc'"
      using Cons.IH by blast
    moreover from this True have "\<not> f64_gt sc sc'" by (metis f64_gt_trans)
    ultimately show ?thesis by auto
  next
    case False
    with Cons.prems(2) have "best_loop c rs hs is b sc m = (b', m')" by (simp add: Let_def)
    with Cons.IH[OF Cons.prems(1)] obtain sc' where sc': "best_ok c rs hs b' sc' m'" "\<not> f64_gt sc sc'"
      "\<forall>i\<in>set is. \<not> f64_gt (score c (rs ! i) hs) sc'" by blast
    moreover have "\<not> f64_gt ?s sc'"
      using False sc'(2) Cons.prems(1) f64_not_gt_trans[of sc ?s sc'] by (simp add: best_ok_def)
    ultimately show ?thesis by auto
  qed
qed

lemma best_ok_start: "best_ok c rs hs b f64_MIN 0"
  by (simp add: best_ok_def f64_MIN_def)

subsection \<open>Case analysis of a decision\<close>

text \<open>The replica and match count a policy decides on, as a relation.\<close>

definition decides :: "scheduler \<Rightarrow> u64 list \<Rightarrow> usize \<Rightarrow> usize \<Rightarrow> bool" where
  "decides s hs i m =
     (case policy s of
        RoundRobin \<Rightarrow>
          rr_scan (map (available (cfg s)) (replicas s)) (rr_next s) (length (replicas s)) [0..<length (replicas s)] = Some i \<and> m = 0
      | CacheAware \<Rightarrow>
          pick_cache_aware (cfg s) (replicas s) (map (available (cfg s)) (replicas s)) hs = Some (i, m))"

lemma pick_cache_aware_eq:
  "pick_cache_aware c rs (map (available c) rs) hs =
    (if available_indices c rs = [] then None
     else let (b, m) = best_loop c rs hs (available_indices c rs) (available_indices c rs ! 0) f64_MIN 0
          in if m < min_match_blocks c
             then map_option (\<lambda>l. (l, lookup (cache (rs ! l)) hs))
                    (min_by_key (\<lambda>i. inflight (rs ! i)) (available_indices c rs))
             else Some (b, m))"
  unfolding pick_cache_aware_def filter_mask Let_def
  by (auto simp: vec_get_def map_option_case split: prod.splits option.splits)

lemma decides_available:
  assumes "decides s hs i m"
  shows "i < length (replicas s) \<and> available (cfg s) (replicas s ! i)"
proof (cases "policy s")
  case RoundRobin
  with assms have "i < length (replicas s) \<and> map (available (cfg s)) (replicas s) ! i"
    by (auto simp: decides_def dest: rr_scan_Some)
  then show ?thesis by auto
next
  case CacheAware
  let ?av = "available_indices (cfg s) (replicas s)"
  from CacheAware assms have ne: "?av \<noteq> []" and "i \<in> set ?av"
    using best_loop_mem[of "cfg s" "replicas s" hs ?av "?av ! 0" f64_MIN 0] nth_mem[of 0 ?av]
    by (auto simp: decides_def pick_cache_aware_eq split: prod.splits if_splits dest: min_by_key_Some(1))
  then show ?thesis by simp
qed

lemma decides_exists:
  assumes "r \<in> set (replicas s)" and "available (cfg s) r"
  shows "\<exists>i m. decides s hs i m"
proof -
  from assms obtain j where j: "j < length (replicas s)" "available (cfg s) (replicas s ! j)"
    by (auto simp: in_set_conv_nth)
  show ?thesis
  proof (cases "policy s")
    case RoundRobin
    from rr_scan_reaches[of j "length (replicas s)" "map (available (cfg s)) (replicas s)" "rr_next s"] j
    show ?thesis by (auto simp: decides_def RoundRobin)
  next
    case CacheAware
    from j have "available_indices (cfg s) (replicas s) \<noteq> []"
      by (metis (mono_tags, lifting) empty_iff list.set(1) mem_Collect_eq set_available_indices)
    with min_by_key_nonempty[OF this] show ?thesis
      by (auto simp: decides_def CacheAware pick_cache_aware_eq Let_def split: prod.splits)
  qed
qed

lemma decides_unique: "decides s hs i m \<Longrightarrow> decides s hs j k \<Longrightarrow> i = j \<and> m = k"
  by (auto simp: decides_def split: policy.splits)

text \<open>\<open>pick\<close> by cases: an error, or the routing to the replica decided on.\<close>

definition rr_advance :: "scheduler \<Rightarrow> usize \<Rightarrow> scheduler" where
  "rr_advance s i = (if policy s = RoundRobin then s\<lparr>rr_next := (i + 1) mod length (replicas s)\<rparr> else s)"

lemma pick_unavailable:
  "\<not> (\<exists>r\<in>set (replicas s). available (cfg s) r) \<Longrightarrow>
    pick s hs = Some (s, Inl (if \<exists>r\<in>set (replicas s). healthy r then AllSaturated else NoHealthyReplicas))"
  by (simp add: pick_def scan_replicas_eq)

lemma pick_decides:
  assumes "decides s hs i m"
  shows "pick s hs =
    Some ((rr_advance s i)\<lparr>replicas := (replicas s)[i := routed s hs (replicas s ! i)]\<rparr>,
      Inr \<lparr>replica = i, matched_blocks = m, inflight_after = inflight (replicas s ! i) + 1\<rparr>)"
proof -
  have i: "i < length (replicas s)" and "available (cfg s) (replicas s ! i)"
    using decides_available[OF assms] by simp_all
  then have "\<exists>r\<in>set (replicas s). available (cfg s) r" by (metis nth_mem)
  then show ?thesis
    using assms i
    by (cases "policy s")
      (simp_all add: pick_def scan_replicas_eq decides_def pick_round_robin_def route_to_eq rr_advance_def
        routed_def Let_def)
qed

lemma pick_cases:
  obtains (error) e where "pick s hs = Some (s, Inl e)" "\<forall>r\<in>set (replicas s). \<not> available (cfg s) r"
      "e = (if \<exists>r\<in>set (replicas s). healthy r then AllSaturated else NoHealthyReplicas)"
  | (routed) i m where "decides s hs i m"
      "pick s hs = Some ((rr_advance s i)\<lparr>replicas := (replicas s)[i := routed s hs (replicas s ! i)]\<rparr>,
        Inr \<lparr>replica = i, matched_blocks = m, inflight_after = inflight (replicas s ! i) + 1\<rparr>)"
proof (cases "\<exists>r\<in>set (replicas s). available (cfg s) r")
  case True
  then obtain i m where "decides s hs i m" using decides_exists by blast
  from routed[OF this pick_decides[OF this]] show thesis .
next
  case False
  from error[OF pick_unavailable[OF False]] False show thesis by blast
qed

lemma rr_advance_fields [sched_simps]:
  "replicas (rr_advance s i) = replicas s" "policy (rr_advance s i) = policy s" "cfg (rr_advance s i) = cfg s"
  by (simp_all add: rr_advance_def)

lemma pick_decision:
  assumes "pick s hs = Some (s', Inr d)"
  shows "decides s hs (replica d) (matched_blocks d)"
    and "s' = (rr_advance s (replica d))\<lparr>replicas := (replicas s)[replica d := routed s hs (replicas s ! replica d)]\<rparr>"
    and "inflight_after d = inflight (replicas s ! replica d) + 1"
  by (rule pick_cases[of s hs]; use assms in auto)+

subsection \<open>Invariant\<close>

definition replica_inv :: "scheduler_config \<Rightarrow> replica_state \<Rightarrow> bool" where
  "replica_inv c r =
     (lru_wf (cache r) \<and> num_blocks (cache r) \<le> block_budget c \<and> inflight r \<le> max_inflight c \<and>
      (\<not> healthy r \<longrightarrow> inflight r = 0 \<and> cache r = prefix_cache_new))"

definition sched_inv :: "scheduler \<Rightarrow> bool" where
  "sched_inv s =
     ((\<forall>r\<in>set (replicas s). replica_inv (cfg s) r) \<and> (replicas s \<noteq> [] \<longrightarrow> rr_next s < length (replicas s)))"

lemma replica_inv_routed:
  "replica_inv (cfg s) r \<Longrightarrow> available (cfg s) r \<Longrightarrow> replica_inv (cfg s) (routed s hs r)"
  by (auto simp: replica_inv_def available_def routed_def pc.admit_inv pc.admit_budget)

lemma sched_inv_update:
  "sched_inv s \<Longrightarrow> replica_inv (cfg s) r \<Longrightarrow> sched_inv (s\<lparr>replicas := (replicas s)[i := r]\<rparr>)"
  using set_update_subset_insert[of "replicas s" i r] by (auto simp: sched_inv_def)

lemma sched_inv_nth: "sched_inv s \<Longrightarrow> i < length (replicas s) \<Longrightarrow> replica_inv (cfg s) (replicas s ! i)"
  by (simp add: sched_inv_def)

lemma sched_inv_new: "sched_inv (scheduler_new n pol c)"
  by (auto simp: sched_inv_def scheduler_new_def new_replica_def replica_inv_def pc.inv_new pc.new_budget)

lemma sched_inv_advance: "sched_inv s \<Longrightarrow> sched_inv (rr_advance s i)"
  by (auto simp: sched_inv_def rr_advance_def intro!: mod_less_divisor)

lemma sched_inv_pick: "sched_inv s \<Longrightarrow> pick s hs = Some (s', res) \<Longrightarrow> sched_inv s'"
proof (rule pick_cases[of s hs])
  fix i m
  assume inv: "sched_inv s" and d: "decides s hs i m" and p: "pick s hs = Some (s', res)"
    and eq: "pick s hs = Some ((rr_advance s i)\<lparr>replicas := (replicas s)[i := routed s hs (replicas s ! i)]\<rparr>,
      Inr \<lparr>replica = i, matched_blocks = m, inflight_after = inflight (replicas s ! i) + 1\<rparr>)"
  from decides_available[OF d] inv have "replica_inv (cfg s) (routed s hs (replicas s ! i))"
    by (intro replica_inv_routed sched_inv_nth) auto
  moreover have "sched_inv (rr_advance s i)" using inv by (rule sched_inv_advance)
  ultimately show "sched_inv s'"
    using sched_inv_update[of "rr_advance s i" "routed s hs (replicas s ! i)" i] p eq
    by (auto simp: sched_simps)
qed simp

lemma sched_inv_complete: "sched_inv s \<Longrightarrow> complete s i = Some s' \<Longrightarrow> sched_inv s'"
  using sched_inv_nth[of s i]
  by (auto simp: complete_def replica_inv_def bind_eq_Some_conv intro!: sched_inv_update)

lemma sched_inv_mark_unhealthy: "sched_inv s \<Longrightarrow> mark_unhealthy s i = Some s' \<Longrightarrow> sched_inv s'"
  using sched_inv_nth[of s i]
  by (auto simp: mark_unhealthy_def replica_inv_def bind_eq_Some_conv pc.inv_new pc.new_budget intro!: sched_inv_update)

lemma sched_inv_mark_healthy: "sched_inv s \<Longrightarrow> mark_healthy s i = Some s' \<Longrightarrow> sched_inv s'"
  using sched_inv_nth[of s i]
  by (auto simp: mark_healthy_def replica_inv_def bind_eq_Some_conv intro!: sched_inv_update)

subsection \<open>Runs of calls\<close>

datatype sched_op = Pick "u64 list" | Complete usize | MarkUnhealthy usize | MarkHealthy usize

fun sched_step :: "sched_op \<Rightarrow> scheduler \<Rightarrow> scheduler panics" where
  "sched_step (Pick hs) s = map_option fst (pick s hs)"
| "sched_step (Complete i) s = complete s i"
| "sched_step (MarkUnhealthy i) s = mark_unhealthy s i"
| "sched_step (MarkHealthy i) s = mark_healthy s i"

fun sched_run :: "sched_op list \<Rightarrow> scheduler \<Rightarrow> scheduler panics" where
  "sched_run [] s = Some s"
| "sched_run (p # ps) s = Option.bind (sched_step p s) (sched_run ps)"

fun op_index :: "sched_op \<Rightarrow> usize option" where
  "op_index (Pick hs) = None"
| "op_index (Complete i) = Some i"
| "op_index (MarkUnhealthy i) = Some i"
| "op_index (MarkHealthy i) = Some i"

definition in_range :: "usize \<Rightarrow> sched_op list \<Rightarrow> bool" where
  "in_range n ps = list_all (\<lambda>p. case op_index p of None \<Rightarrow> True | Some i \<Rightarrow> i < n) ps"

lemma sched_step_inv: "sched_inv s \<Longrightarrow> sched_step p s = Some s' \<Longrightarrow> sched_inv s'"
  by (cases p) (auto dest: sched_inv_pick sched_inv_complete sched_inv_mark_unhealthy sched_inv_mark_healthy)

lemma sched_run_inv: "sched_inv s \<Longrightarrow> sched_run ps s = Some s' \<Longrightarrow> sched_inv s'"
  by (induction ps arbitrary: s) (auto simp: bind_eq_Some_conv dest: sched_step_inv)

lemma pick_frame:
  assumes "pick s hs = Some (s', res)"
  shows "length (replicas s') = length (replicas s)" and "policy s' = policy s" and "cfg s' = cfg s"
  by (rule pick_cases[of s hs]; use assms in \<open>auto simp: sched_simps\<close>)+

lemma sched_step_frame:
  assumes "sched_step p s = Some s'"
  shows "length (replicas s') = length (replicas s)" and "policy s' = policy s" and "cfg s' = cfg s"
  using assms
  by (cases p; auto simp: complete_def mark_unhealthy_def mark_healthy_def bind_eq_Some_conv dest: pick_frame)+

lemma sched_run_frame:
  assumes "sched_run ps s = Some s'"
  shows "length (replicas s') = length (replicas s)" and "policy s' = policy s" and "cfg s' = cfg s"
  using assms
  by (induction ps arbitrary: s) (auto simp: bind_eq_Some_conv dest: sched_step_frame)

lemma pick_total: "\<exists>s' res. pick s hs = Some (s', res)"
  by (rule pick_cases[of s hs]) auto

lemma sched_step_total:
  "(case op_index p of None \<Rightarrow> True | Some i \<Rightarrow> i < length (replicas s)) \<Longrightarrow> \<exists>s'. sched_step p s = Some s'"
  using pick_total[of s] by (cases p) (force simp: complete_def mark_unhealthy_def mark_healthy_def vec_get_def)+

lemma sched_run_total: "in_range (length (replicas s)) ps \<Longrightarrow> \<exists>s'. sched_run ps s = Some s'"
proof (induction ps arbitrary: s)
  case Nil
  then show ?case by simp
next
  case (Cons p ps)
  then obtain s1 where s1: "sched_step p s = Some s1"
    using sched_step_total[of s p] by (auto simp: in_range_def)
  with Cons.prems have "in_range (length (replicas s1)) ps"
    by (simp add: in_range_def sched_step_frame(1)[OF s1])
  with Cons.IH s1 show ?case by simp
qed

end
