(* ===== verification/Scheduler_Props.thy ===== *)
theory Scheduler_Props
  imports Scheduler
begin

text \<open>
  The properties of the scheduler: no panic, the exact error conditions, the effect of a
  decision, optimality of the cache-aware choice, the order of round robin, affinity of a
  prompt to the replica that served it, and the accounting of in-flight requests.
\<close>

subsection \<open>A small fleet for the witnesses\<close>

definition demo_config :: scheduler_config where
  "demo_config = \<lparr>alpha = F64 1 0, beta = F64 2 0, min_match_blocks = 2, block_budget = 8, max_inflight = 2\<rparr>"

definition warm_cache :: prefix_cache where
  "warm_cache = insert_chain prefix_cache_new [1, 2, 3, 4]"

definition demo_fleet :: "policy \<Rightarrow> scheduler" where
  "demo_fleet pol =
     \<lparr>replicas =
        [\<lparr>cache = prefix_cache_new, inflight = 1, healthy = True\<rparr>,
         \<lparr>cache = warm_cache, inflight = 1, healthy = True\<rparr>,
         \<lparr>cache = prefix_cache_new, inflight = 0, healthy = True\<rparr>,
         \<lparr>cache = prefix_cache_new, inflight = 0, healthy = False\<rparr>],
      policy = pol, cfg = demo_config, rr_next = 3\<rparr>"

text \<open>Replica and match count of a successful pick, to evaluate examples.\<close>

definition picked :: "scheduler \<Rightarrow> u64 list \<Rightarrow> (usize \<times> usize) option" where
  "picked s hs = (case pick s hs of Some (s', Inr d) \<Rightarrow> Some (replica d, matched_blocks d) | _ \<Rightarrow> None)"

lemma picked_Some:
  "picked s hs = Some (i, m) \<Longrightarrow> \<exists>s' d. pick s hs = Some (s', Inr d) \<and> replica d = i \<and> matched_blocks d = m"
  by (auto simp: picked_def split: option.splits prod.splits sum.splits)

subsection \<open>Totality and errors\<close>

text \<open>\<open>pick\<close> never panics: in every state, whatever the hashes, the cursor and the flags are,
  it returns; the \<open>available[0]\<close>, \<open>expect\<close>, \<open>unwrap\<close> and index of the code are unreachable
  failures.\<close>

theorem pick_never_panics: "\<exists>s' res. pick s hs = Some (s', res)"
  by (rule pick_total)

text \<open>C30. \<open>pick\<close> fails exactly when no replica can take the request: \<open>NoHealthyReplicas\<close> when all
  are unhealthy, \<open>AllSaturated\<close> when some are healthy and each of these is at its cap; a failed
  pick changes nothing.\<close>

theorem pick_errors_exactly:
  "pick s hs = Some (s', Inl e) \<longleftrightarrow>
    s' = s \<and>
    (case e of
       NoHealthyReplicas \<Rightarrow> (\<forall>r\<in>set (replicas s). \<not> healthy r)
     | AllSaturated \<Rightarrow> (\<exists>r\<in>set (replicas s). healthy r) \<and>
         (\<forall>r\<in>set (replicas s). healthy r \<longrightarrow> max_inflight (cfg s) \<le> inflight r))"
proof (rule pick_cases[of s hs])
  fix e'
  assume p: "pick s hs = Some (s, Inl e')" and none: "\<forall>r\<in>set (replicas s). \<not> available (cfg s) r"
    and e': "e' = (if \<exists>r\<in>set (replicas s). healthy r then AllSaturated else NoHealthyReplicas)"
  from none have "\<forall>r\<in>set (replicas s). healthy r \<longrightarrow> max_inflight (cfg s) \<le> inflight r"
    by (auto simp: available_def)
  with p e' show ?thesis by (auto split: pick_error.splits)
next
  fix i m
  assume d: "decides s hs i m"
    and p: "pick s hs = Some ((rr_advance s i)\<lparr>replicas := (replicas s)[i := routed s hs (replicas s ! i)]\<rparr>,
      Inr \<lparr>replica = i, matched_blocks = m, inflight_after = inflight (replicas s ! i) + 1\<rparr>)"
  from decides_available[OF d] have "replicas s ! i \<in> set (replicas s)" "available (cfg s) (replicas s ! i)"
    by auto
  then show ?thesis using p by (fastforce simp: available_def split: pick_error.splits)
qed

theorem pick_errors_exactly_witness:
  "pick ((demo_fleet CacheAware)\<lparr>cfg := demo_config\<lparr>max_inflight := 0\<rparr>\<rparr>) [1] =
     Some ((demo_fleet CacheAware)\<lparr>cfg := demo_config\<lparr>max_inflight := 0\<rparr>\<rparr>, Inl AllSaturated)"
  unfolding pick_errors_exactly by (simp add: demo_fleet_def demo_config_def)

subsection \<open>The effect of a decision\<close>

text \<open>A successful \<open>pick\<close> routes to a replica that was healthy and below its cap, counts the
  request there, reports the new count, and leaves every other replica as it was; the chain
  is recorded in the chosen replica's cache under the cache-aware policy only.\<close>

theorem pick_routes_to_available:
  assumes "pick s hs = Some (s', Inr d)"
  shows "replica d < length (replicas s) \<and>
    healthy (replicas s ! replica d) \<and> inflight (replicas s ! replica d) < max_inflight (cfg s) \<and>
    inflight (replicas s' ! replica d) = inflight (replicas s ! replica d) + 1 \<and>
    inflight_after d = inflight (replicas s' ! replica d) \<and>
    healthy (replicas s' ! replica d) \<and>
    cache (replicas s' ! replica d) =
      (if policy s = CacheAware
       then evict_to (insert_chain (cache (replicas s ! replica d)) hs) (block_budget (cfg s))
       else cache (replicas s ! replica d)) \<and>
    length (replicas s') = length (replicas s) \<and>
    (\<forall>j. j \<noteq> replica d \<longrightarrow> replicas s' ! j = replicas s ! j)"
  using pick_decision[OF assms] decides_available[of s hs "replica d" "matched_blocks d"]
  by (simp add: sched_simps routed_def available_def)

theorem pick_routes_to_available_witness:
  "\<exists>s' d. pick (demo_fleet CacheAware) [1, 2, 3] = Some (s', Inr d) \<and> replica d = 1 \<and>
     inflight (replicas s' ! 1) = 2 \<and> inflight_after d = 2 \<and> replicas s' ! 2 = replicas (demo_fleet CacheAware) ! 2"
proof -
  have "picked (demo_fleet CacheAware) [1, 2, 3] = Some (1, 3)" by code_simp
  then obtain s' d where p: "pick (demo_fleet CacheAware) [1, 2, 3] = Some (s', Inr d)" and d: "replica d = 1"
    using picked_Some by blast
  with pick_routes_to_available[OF p] show ?thesis by (auto simp: demo_fleet_def)
qed

subsection \<open>The cache-aware choice\<close>

lemma cache_aware_choice:
  assumes pol: "policy s = CacheAware" and d: "decides s hs i m"
  obtains (warm) "min_match_blocks (cfg s) \<le> m"
      "best_loop (cfg s) (replicas s) hs (available_indices (cfg s) (replicas s))
        (available_indices (cfg s) (replicas s) ! 0) f64_MIN 0 = (i, m)"
  | (cold) b k where "k < min_match_blocks (cfg s)"
      "best_loop (cfg s) (replicas s) hs (available_indices (cfg s) (replicas s))
        (available_indices (cfg s) (replicas s) ! 0) f64_MIN 0 = (b, k)"
      "min_by_key (\<lambda>i. inflight (replicas s ! i)) (available_indices (cfg s) (replicas s)) = Some i"
      "m = lookup (cache (replicas s ! i)) hs"
  using assms by (auto simp: decides_def pick_cache_aware_eq not_less split: prod.splits if_splits)

text \<open>No available replica of \<open>s\<close> scores more than replica \<open>i\<close>.\<close>

definition top_score :: "scheduler \<Rightarrow> u64 list \<Rightarrow> usize \<Rightarrow> bool" where
  "top_score s hs i =
     (\<forall>j<length (replicas s). available (cfg s) (replicas s ! j) \<longrightarrow>
        \<not> f64_gt (score (cfg s) (replicas s ! j) hs) (score (cfg s) (replicas s ! i) hs))"

definition least_loaded :: "scheduler \<Rightarrow> usize \<Rightarrow> bool" where
  "least_loaded s i =
     (\<forall>j<length (replicas s). available (cfg s) (replicas s ! j) \<longrightarrow>
        inflight (replicas s ! i) \<le> inflight (replicas s ! j))"

lemma best_loop_top:
  assumes "best_loop (cfg s) (replicas s) hs (available_indices (cfg s) (replicas s)) a f64_MIN 0 = (i, m)"
  shows "m = lookup (cache (replicas s ! i)) hs \<and> top_score s hs i \<or>
    m = 0 \<and> (\<forall>j<length (replicas s). available (cfg s) (replicas s ! j) \<longrightarrow>
      \<not> f64_gt (score (cfg s) (replicas s ! j) hs) f64_MIN)"
  using best_loop_result[OF best_ok_start assms] by (auto simp: best_ok_def top_score_def)

text \<open>C14. The cache-aware policy with a threshold of at least one block, for any weights (NaN and
  infinite ones included): the match count reported is what the chosen replica's cache
  really holds, and the choice is one of three. Either the replica has a top score and at
  least the threshold of matching blocks, or it is least loaded because some replica with a
  top score (which may be another) matches fewer blocks than the threshold, or it is least
  loaded because no score exceeds \<open>f64::MIN\<close>.\<close>

theorem cache_aware_choice_is_optimal:
  assumes "policy s = CacheAware" and "0 < min_match_blocks (cfg s)" and "pick s hs = Some (s', Inr d)"
  shows "matched_blocks d = lookup (cache (replicas s ! replica d)) hs \<and>
    (min_match_blocks (cfg s) \<le> matched_blocks d \<and> top_score s hs (replica d) \<or>
     least_loaded s (replica d) \<and>
       (\<exists>b. top_score s hs b \<and> lookup (cache (replicas s ! b)) hs < min_match_blocks (cfg s)) \<or>
     least_loaded s (replica d) \<and>
       (\<forall>j<length (replicas s). available (cfg s) (replicas s ! j) \<longrightarrow>
          \<not> f64_gt (score (cfg s) (replicas s ! j) hs) f64_MIN))"
  using assms(1) pick_decision(1)[OF assms(3)]
proof (cases rule: cache_aware_choice)
  case warm
  with best_loop_top[OF warm(2)] assms(2) show ?thesis by auto
next
  case (cold b k)
  from min_by_key_Some[OF cold(3)] have "least_loaded s (replica d)"
    by (auto simp: least_loaded_def)
  with best_loop_top[OF cold(2)] cold(1,4) show ?thesis by blast
qed

theorem cache_aware_choice_is_optimal_witness:
  "top_score (demo_fleet CacheAware) [1, 2, 3] 1 \<and> lookup warm_cache [1, 2, 3] = 3 \<and>
   least_loaded (demo_fleet CacheAware) 2"
proof -
  have pol: "policy (demo_fleet CacheAware) = CacheAware" "0 < min_match_blocks (cfg (demo_fleet CacheAware))"
    by (simp_all add: demo_fleet_def demo_config_def)
  have "picked (demo_fleet CacheAware) [1, 2, 3] = Some (1, 3)" by code_simp
  then obtain s' d where p: "pick (demo_fleet CacheAware) [1, 2, 3] = Some (s', Inr d)" "replica d = 1" "matched_blocks d = 3"
    using picked_Some by blast
  have "picked (demo_fleet CacheAware) [7, 8, 9] = Some (2, 0)" by code_simp
  then obtain t e where q: "pick (demo_fleet CacheAware) [7, 8, 9] = Some (t, Inr e)" "replica e = 2" "matched_blocks e = 0"
    using picked_Some by blast
  have load: "\<not> least_loaded (demo_fleet CacheAware) 1"
    by (auto simp: least_loaded_def demo_fleet_def demo_config_def available_def numeral_2_eq_2 intro!: exI[of _ 2])
  from cache_aware_choice_is_optimal[OF pol p(1)] p load
  have "top_score (demo_fleet CacheAware) [1, 2, 3] 1" "lookup (cache (replicas (demo_fleet CacheAware) ! 1)) [1, 2, 3] = 3"
    by auto
  moreover have "least_loaded (demo_fleet CacheAware) 2"
    using cache_aware_choice_is_optimal[OF pol q(1)] q by (auto simp: demo_fleet_def demo_config_def)
  ultimately show ?thesis by (simp add: demo_fleet_def)
qed

subsection \<open>The default weights\<close>

text \<open>
  With \<open>alpha = 1.0\<close> and \<open>beta = 2.0\<close> the floating-point scores are exact integers as long as the
  counts stay below 2^51, so the choice is an integer argmax.
\<close>

definition default_weights :: "scheduler \<Rightarrow> bool" where
  "default_weights s =
     (policy s = CacheAware \<and> alpha (cfg s) = F64 1 0 \<and> beta (cfg s) = F64 2 0 \<and>
      0 < min_match_blocks (cfg s) \<and> max_inflight (cfg s) \<le> 2 ^ 51)"

definition net_matches :: "scheduler \<Rightarrow> u64 list \<Rightarrow> usize \<Rightarrow> int" where
  "net_matches s hs i = int (lookup (cache (replicas s ! i)) hs) - 2 * int (inflight (replicas s ! i))"

lemma counts_exact:
  assumes "a < (2::nat) ^ 51" and "b < 2 ^ 51"
  shows "\<bar>2 * int b\<bar> < 2 ^ 53" and "\<bar>int a\<bar> < 2 ^ 53" and "\<bar>int a - 2 * int b\<bar> < 2 ^ 53"
  using assms by simp_all

lemma score_exact:
  assumes "default_weights s" and "length hs < 2 ^ 51" and "available (cfg s) (replicas s ! i)"
  shows "score (cfg s) (replicas s ! i) hs = F64 (net_matches s hs i) 0"
proof -
  let ?m = "lookup (cache (replicas s ! i)) hs" and ?n = "inflight (replicas s ! i)"
  have m: "?m < 2 ^ 51" using lookup_le[of "cache (replicas s ! i)" hs] assms(2) by linarith
  have n: "?n < 2 ^ 51" using assms(1,3) by (simp add: default_weights_def available_def)
  show ?thesis
    using assms(1) m n counts_exact[OF m n]
    by (simp add: score_def default_weights_def f64_sub_def f64_of_usize_exact f64_round_exact net_matches_def)
qed

lemma net_matches_small:
  assumes "default_weights s" and "length hs < 2 ^ 51" and "available (cfg s) (replicas s ! i)"
  shows "\<bar>net_matches s hs i\<bar> < 2 ^ 53"
proof -
  have "lookup (cache (replicas s ! i)) hs < 2 ^ 51"
    using lookup_le[of "cache (replicas s ! i)" hs] assms(2) by linarith
  moreover have "inflight (replicas s ! i) < 2 ^ 51"
    using assms(1,3) by (simp add: default_weights_def available_def)
  ultimately show ?thesis unfolding net_matches_def by (rule counts_exact(3))
qed

text \<open>The loop returns the first of the greatest, with its own match count.\<close>

lemma best_loop_first:
  assumes "\<And>i. i \<in> set is \<Longrightarrow> score c (rs ! i) hs = F64 (z i) 0"
    and "best_loop c rs hs is b (F64 y 0) m = (b', m')"
  shows "b' = b \<and> m' = m \<and> (\<forall>i\<in>set is. z i \<le> y) \<or>
    (\<exists>us vs. is = us @ b' # vs \<and> y < z b' \<and> (\<forall>i\<in>set us. z i < z b') \<and> (\<forall>i\<in>set vs. z i \<le> z b') \<and>
      m' = lookup (cache (rs ! b')) hs)"
  using assms
proof (induction "is" arbitrary: b y m)
  case Nil
  then show ?case by simp
next
  case (Cons i "is")
  show ?case
  proof (cases "y < z i")
    case True
    with Cons.prems have loop: "best_loop c rs hs is i (F64 (z i) 0) (lookup (cache (rs ! i)) hs) = (b', m')"
      by (simp add: Let_def)
    have IH: "b' = i \<and> m' = lookup (cache (rs ! i)) hs \<and> (\<forall>j\<in>set is. z j \<le> z i) \<or>
      (\<exists>us vs. is = us @ b' # vs \<and> z i < z b' \<and> (\<forall>i\<in>set us. z i < z b') \<and> (\<forall>i\<in>set vs. z i \<le> z b') \<and>
        m' = lookup (cache (rs ! b')) hs)"
      by (rule Cons.IH[OF _ loop]) (simp add: Cons.prems(1))
    then show ?thesis
    proof (elim disjE exE conjE)
      assume "b' = i" "m' = lookup (cache (rs ! i)) hs" "\<forall>j\<in>set is. z j \<le> z i"
      with True show ?thesis by (intro disjI2 exI[of _ "[]"] exI[of _ "is"]) simp
    next
      fix us vs
      assume "is = us @ b' # vs" "z i < z b'" "\<forall>i\<in>set us. z i < z b'" "\<forall>i\<in>set vs. z i \<le> z b'"
        "m' = lookup (cache (rs ! b')) hs"
      with True show ?thesis by (intro disjI2 exI[of _ "i # us"] exI[of _ vs]) simp
    qed
  next
    case False
    with Cons.prems have loop: "best_loop c rs hs is b (F64 y 0) m = (b', m')" by (simp add: Let_def)
    have IH: "b' = b \<and> m' = m \<and> (\<forall>i\<in>set is. z i \<le> y) \<or>
      (\<exists>us vs. is = us @ b' # vs \<and> y < z b' \<and> (\<forall>i\<in>set us. z i < z b') \<and> (\<forall>i\<in>set vs. z i \<le> z b') \<and>
        m' = lookup (cache (rs ! b')) hs)"
      by (rule Cons.IH[OF _ loop]) (simp add: Cons.prems(1))
    then show ?thesis
    proof (elim disjE exE conjE)
      assume "b' = b" "m' = m" "\<forall>i\<in>set is. z i \<le> y"
      with False show ?thesis by simp
    next
      fix us vs
      assume "is = us @ b' # vs" "y < z b'" "\<forall>i\<in>set us. z i < z b'" "\<forall>i\<in>set vs. z i \<le> z b'"
        "m' = lookup (cache (rs ! b')) hs"
      with False show ?thesis by (intro disjI2 exI[of _ "i # us"] exI[of _ vs]) simp
    qed
  qed
qed

text \<open>Replica \<open>i\<close> is the first available one with the greatest net matches.\<close>

definition first_best :: "scheduler \<Rightarrow> u64 list \<Rightarrow> usize \<Rightarrow> bool" where
  "first_best s hs i =
     (\<forall>j<length (replicas s). available (cfg s) (replicas s ! j) \<longrightarrow>
        net_matches s hs j \<le> net_matches s hs i \<and> (j < i \<longrightarrow> net_matches s hs j < net_matches s hs i))"

lemma sorted_split_first:
  assumes "sorted (us @ b # vs)" and "distinct (us @ b # vs)" and "j \<in> set (us @ b # vs)" and "j < b"
  shows "j \<in> set us"
  using assms by (auto simp: sorted_append)

text \<open>The best element of a list, as the scoring loop finds it, from its first element on.\<close>

lemma first_best_cons:
  fixes N :: "usize \<Rightarrow> int" and M :: "usize \<Rightarrow> usize"
  assumes "b = a \<and> m = M a \<and> (\<forall>i\<in>set as. N i \<le> N a) \<or>
    (\<exists>us vs. as = us @ b # vs \<and> N a < N b \<and> (\<forall>i\<in>set us. N i < N b) \<and> (\<forall>i\<in>set vs. N i \<le> N b) \<and> m = M b)"
  shows "\<exists>us vs. a # as = us @ b # vs \<and> m = M b \<and> (\<forall>i\<in>set us. N i < N b) \<and> (\<forall>i\<in>set vs. N i \<le> N b)"
  using assms
proof (elim disjE exE conjE)
  assume "b = a" "m = M a" "\<forall>i\<in>set as. N i \<le> N a"
  then show ?thesis by (intro exI[of _ "[]"] exI[of _ as]) simp
next
  fix us vs
  assume "as = us @ b # vs" "N a < N b" "m = M b" "\<forall>i\<in>set us. N i < N b" "\<forall>i\<in>set vs. N i \<le> N b"
  then show ?thesis by (intro exI[of _ "a # us"] exI[of _ vs]) simp
qed

lemma default_best_loop:
  assumes w: "default_weights s" "length hs < 2 ^ 51"
    and loop: "best_loop (cfg s) (replicas s) hs (available_indices (cfg s) (replicas s))
        (available_indices (cfg s) (replicas s) ! 0) f64_MIN 0 = (b, m)"
    and ne: "available_indices (cfg s) (replicas s) \<noteq> []"
  shows "b < length (replicas s) \<and> available (cfg s) (replicas s ! b) \<and> first_best s hs b \<and>
    m = lookup (cache (replicas s ! b)) hs"
proof -
  let ?av = "available_indices (cfg s) (replicas s)"
  obtain a as where av: "?av = a # as" using ne by (cases ?av) auto
  have mem: "j < length (replicas s) \<and> available (cfg s) (replicas s ! j) \<longleftrightarrow> j \<in> set (a # as)" for j
    by (simp only: av[symmetric] set_available_indices) simp
  have sc: "score (cfg s) (replicas s ! j) hs = F64 (net_matches s hs j) 0" if "j \<in> set (a # as)" for j
    using that score_exact[OF w] mem by blast
  have sorted: "sorted (a # as)" "distinct (a # as)"
    unfolding av[symmetric] available_indices_def by (simp_all add: sorted_wrt_filter)
  have "f64_gt (F64 (net_matches s hs a) 0) f64_MIN"
    by (rule f64_gt_MIN) (use net_matches_small[OF w] mem in auto)
  with loop sc[of a]
  have rest: "best_loop (cfg s) (replicas s) hs as a (F64 (net_matches s hs a) 0) (lookup (cache (replicas s ! a)) hs) = (b, m)"
    by (simp add: av Let_def)
  have "b = a \<and> m = lookup (cache (replicas s ! a)) hs \<and> (\<forall>i\<in>set as. net_matches s hs i \<le> net_matches s hs a) \<or>
    (\<exists>us vs. as = us @ b # vs \<and> net_matches s hs a < net_matches s hs b \<and>
      (\<forall>i\<in>set us. net_matches s hs i < net_matches s hs b) \<and>
      (\<forall>i\<in>set vs. net_matches s hs i \<le> net_matches s hs b) \<and> m = lookup (cache (replicas s ! b)) hs)"
    by (rule best_loop_first[OF _ rest]) (simp add: sc)
  from first_best_cons[OF this] obtain us vs where split: "a # as = us @ b # vs" and m: "m = lookup (cache (replicas s ! b)) hs"
    and less: "\<forall>i\<in>set us. net_matches s hs i < net_matches s hs b"
    and le: "\<forall>i\<in>set vs. net_matches s hs i \<le> net_matches s hs b"
    by blast
  have "first_best s hs b"
    unfolding first_best_def
  proof (intro allI impI)
    fix j assume "j < length (replicas s)" "available (cfg s) (replicas s ! j)"
    then have j: "j \<in> set (us @ b # vs)" using mem split by metis
    then show "net_matches s hs j \<le> net_matches s hs b \<and> (j < b \<longrightarrow> net_matches s hs j < net_matches s hs b)"
      using less le sorted_split_first[of us b vs j] sorted split by fastforce
  qed
  moreover have "b \<in> set (a # as)" using split by simp
  ultimately show ?thesis using mem m by blast
qed

lemma default_choice:
  assumes "default_weights s" and "length hs < 2 ^ 51" and "pick s hs = Some (s', Inr d)"
  shows "\<exists>b. first_best s hs b \<and> b < length (replicas s) \<and> available (cfg s) (replicas s ! b) \<and>
    (if min_match_blocks (cfg s) \<le> lookup (cache (replicas s ! b)) hs
     then replica d = b \<and> matched_blocks d = lookup (cache (replicas s ! b)) hs
     else least_loaded s (replica d) \<and> matched_blocks d = lookup (cache (replicas s ! replica d)) hs)"
proof -
  from assms(1) have pol: "policy s = CacheAware" by (simp add: default_weights_def)
  note d = pick_decision(1)[OF assms(3)]
  have ne: "available_indices (cfg s) (replicas s) \<noteq> []"
    using decides_available[OF d] set_available_indices[of "cfg s" "replicas s"] by (metis (mono_tags, lifting) empty_iff list.set(1) mem_Collect_eq)
  from pol d show ?thesis
  proof (cases rule: cache_aware_choice)
    case warm
    from default_best_loop[OF assms(1,2) warm(2) ne] warm(1) show ?thesis by auto
  next
    case (cold b k)
    from min_by_key_Some[OF cold(3)] have "least_loaded s (replica d)" by (auto simp: least_loaded_def)
    with default_best_loop[OF assms(1,2) cold(2) ne] cold(1,4) show ?thesis
      by (intro exI[of _ b]) auto
  qed
qed

text \<open>With the default weights and counts below 2^51 the floating-point decision is exact:
  the replica chosen is the first one with the greatest \<open>matched - 2 * inflight\<close> if that one
  matches at least the threshold, and a least-loaded one if it does not.\<close>

theorem default_choice_is_integer_argmax:
  assumes "default_weights s" and "length hs < 2 ^ 51" and "pick s hs = Some (s', Inr d)"
  shows "\<exists>b. first_best s hs b \<and> b < length (replicas s) \<and> available (cfg s) (replicas s ! b) \<and>
    (if min_match_blocks (cfg s) \<le> lookup (cache (replicas s ! b)) hs
     then replica d = b \<and> matched_blocks d = lookup (cache (replicas s ! b)) hs
     else least_loaded s (replica d) \<and> matched_blocks d = lookup (cache (replicas s ! replica d)) hs)"
  by (rule default_choice[OF assms])

theorem default_choice_is_integer_argmax_witness:
  "\<exists>b. first_best (demo_fleet CacheAware) [1, 2, 3] b"
proof -
  have w: "default_weights (demo_fleet CacheAware)"
    by (simp add: default_weights_def demo_fleet_def demo_config_def)
  have "picked (demo_fleet CacheAware) [1, 2, 3] = Some (1, 3)" by code_simp
  then obtain s' d where p: "pick (demo_fleet CacheAware) [1, 2, 3] = Some (s', Inr d)"
    using picked_Some by blast
  from default_choice_is_integer_argmax[OF w _ p] show ?thesis by auto
qed

subsection \<open>Round robin\<close>

lemma rr_decides:
  assumes "policy s = RoundRobin" and "decides s hs i m"
  shows "m = 0" and "\<exists>off<length (replicas s). i = (rr_next s + off) mod length (replicas s) \<and>
    (\<forall>k<off. \<not> available (cfg s) (replicas s ! ((rr_next s + k) mod length (replicas s))))"
proof -
  let ?n = "length (replicas s)"
  show "m = 0" using assms by (simp add: decides_def)
  from assms obtain off where off: "find (\<lambda>off. map (available (cfg s)) (replicas s) ! ((rr_next s + off) mod ?n)) [0..<?n] = Some off"
    and i: "i = (rr_next s + off) mod ?n"
    by (auto simp: decides_def rr_scan_eq)
  from off have lt: "off < ?n" and "\<forall>k<off. \<not> map (available (cfg s)) (replicas s) ! ((rr_next s + k) mod ?n)"
    by (auto simp: find_Some_iff)
  moreover have "(rr_next s + k) mod ?n < ?n" for k using lt by (intro mod_less_divisor) linarith
  ultimately show "\<exists>off<?n. i = (rr_next s + off) mod ?n \<and>
    (\<forall>k<off. \<not> available (cfg s) (replicas s ! ((rr_next s + k) mod ?n)))"
    using i by (intro exI[of _ off]) simp
qed

lemma rr_decides_next:
  assumes "policy s = RoundRobin" and "rr_next s < length (replicas s)" and "available (cfg s) (replicas s ! rr_next s)"
  shows "decides s hs (rr_next s) 0"
proof -
  obtain r where "r \<in> set (replicas s)" "available (cfg s) r" using assms(2,3) nth_mem by blast
  then obtain i m where d: "decides s hs i m" using decides_exists by blast
  from rr_decides[OF assms(1) d] obtain off where m: "m = 0"
    and i: "i = (rr_next s + off) mod length (replicas s)"
    and skip: "\<forall>k<off. \<not> available (cfg s) (replicas s ! ((rr_next s + k) mod length (replicas s)))"
    by blast
  from skip assms(2,3) have "off = 0" by (cases off) auto
  with i m d assms(2) show ?thesis by simp
qed

text \<open>Round robin takes the first available replica in cyclic order from the cursor, moves the
  cursor just past it, reports no matching blocks, and leaves every cache alone.\<close>

theorem round_robin_cyclic_order:
  assumes "policy s = RoundRobin" and "pick s hs = Some (s', Inr d)"
  shows "(\<exists>off<length (replicas s). replica d = (rr_next s + off) mod length (replicas s) \<and>
      (\<forall>k<off. \<not> available (cfg s) (replicas s ! ((rr_next s + k) mod length (replicas s))))) \<and>
    rr_next s' = (replica d + 1) mod length (replicas s) \<and> matched_blocks d = 0 \<and>
    map cache (replicas s') = map cache (replicas s)"
proof -
  note p = pick_decision[OF assms(2)]
  have "map cache ((replicas s)[replica d := routed s hs (replicas s ! replica d)]) = map cache (replicas s)"
    using assms(1) by (intro nth_equalityI; cases "replica d < length (replicas s)")
      (auto simp: nth_list_update routed_def)
  with p(2) assms(1) rr_decides[OF assms(1) p(1)] show ?thesis by (simp add: rr_advance_def)
qed

theorem round_robin_cyclic_order_witness:
  "\<exists>s' d. pick (demo_fleet RoundRobin) [1, 2, 3] = Some (s', Inr d) \<and> replica d = 0 \<and> rr_next s' = 1"
proof -
  have "picked (demo_fleet RoundRobin) [1, 2, 3] = Some (0, 0)" by code_simp
  then obtain s' d where p: "pick (demo_fleet RoundRobin) [1, 2, 3] = Some (s', Inr d)" and d: "replica d = 0"
    using picked_Some by blast
  have pol: "policy (demo_fleet RoundRobin) = RoundRobin" by (simp add: demo_fleet_def)
  from round_robin_cyclic_order[OF pol p] p d show ?thesis by (auto simp: demo_fleet_def)
qed

text \<open>Successive picks that all succeed, with the replicas chosen.\<close>

fun pick_all :: "u64 list list \<Rightarrow> scheduler \<Rightarrow> (scheduler \<times> usize list) option" where
  "pick_all [] s = Some (s, [])"
| "pick_all (hs # hss) s = do {
     (s1, res) \<leftarrow> pick s hs;
     (case res of
        Inl e \<Rightarrow> None
      | Inr d \<Rightarrow> do { (s2, is) \<leftarrow> pick_all hss s1; Some (s2, replica d # is) })
   }"

text \<open>The replicas visited by \<open>k\<close> picks from the cursor.\<close>

definition visited :: "usize \<Rightarrow> usize \<Rightarrow> nat \<Rightarrow> usize list" where
  "visited start n k = map (\<lambda>j. (start + j) mod n) [0..<k]"

lemma visited_Suc: "visited start n (Suc k) = start mod n # visited (Suc start mod n) n k"
  by (simp add: visited_def upt_conv_Cons del: upt_Suc flip: map_Suc_upt)
    (simp add: mod_simps comp_def)

lemma mod_add_inject:
  assumes "(a + i) mod n = (a + j) mod n" and "i < n" and "j < (n :: nat)"
  shows "i = j"
proof -
  have "int ((a + i) mod n) = int ((a + j) mod n)" using assms(1) by simp
  then have "(int a + int i) mod int n = (int a + int j) mod int n" by (simp add: zmod_int)
  then have "int n dvd (int a + int i) - (int a + int j)" by (simp add: mod_eq_dvd_iff)
  then have "int n dvd int i - int j" by simp
  moreover have "\<bar>int i - int j\<bar> < int n" using assms(2,3) by linarith
  ultimately have "int i - int j = 0" using zdvd_not_zless[of "\<bar>int i - int j\<bar>" "int n"] by auto
  then show ?thesis by simp
qed

lemma distinct_visited: "k \<le> n \<Longrightarrow> distinct (visited start n k)"
  by (auto simp: visited_def distinct_map inj_on_def dest: mod_add_inject)

lemma set_visited_all:
  assumes "0 < n"
  shows "set (visited start n n) = {0..<n}"
proof (rule card_subset_eq)
  show "set (visited start n n) \<subseteq> {0..<n}" using assms by (auto simp: visited_def)
  show "card (set (visited start n n)) = card {0..<n}"
    using distinct_card[OF distinct_visited[of n n start]] by (simp add: visited_def)
qed simp

lemma rr_pick_next:
  assumes "policy s = RoundRobin" and "rr_next s < length (replicas s)" and "available (cfg s) (replicas s ! rr_next s)"
  defines "s1 \<equiv> s\<lparr>rr_next := (rr_next s + 1) mod length (replicas s),
      replicas := (replicas s)[rr_next s := (replicas s ! rr_next s)\<lparr>inflight := inflight (replicas s ! rr_next s) + 1\<rparr>]\<rparr>"
  shows "\<exists>d. pick s hs = Some (s1, Inr d) \<and> replica d = rr_next s"
  using pick_decides[OF rr_decides_next[OF assms(1-3)], of hs] assms(1)
  by (simp add: s1_def rr_advance_def routed_def)

lemma round_robin_visits:
  assumes "policy s = RoundRobin" and "rr_next s < length (replicas s)" and "length hss \<le> length (replicas s)"
    and "\<forall>i\<in>set (visited (rr_next s) (length (replicas s)) (length hss)). available (cfg s) (replicas s ! i)"
  shows "\<exists>s'. pick_all hss s = Some (s', visited (rr_next s) (length (replicas s)) (length hss)) \<and>
    rr_next s' = (rr_next s + length hss) mod length (replicas s) \<and> length (replicas s') = length (replicas s) \<and>
    (\<forall>i<length (replicas s). inflight (replicas s' ! i) = inflight (replicas s ! i) +
      (if i \<in> set (visited (rr_next s) (length (replicas s)) (length hss)) then 1 else 0))"
  using assms
proof (induction hss arbitrary: s)
  case Nil
  then show ?case by (simp add: visited_def)
next
  case (Cons hs hss)
  let ?n = "length (replicas s)" and ?k = "rr_next s"
  define s1 where "s1 = s\<lparr>rr_next := (?k + 1) mod ?n,
      replicas := (replicas s)[?k := (replicas s ! ?k)\<lparr>inflight := inflight (replicas s ! ?k) + 1\<rparr>]\<rparr>"
  have vis: "visited ?k ?n (length (hs # hss)) = ?k # visited (rr_next s1) ?n (length hss)"
    using Cons.prems(2) by (simp add: visited_Suc s1_def)
  have notin: "?k \<notin> set (visited (rr_next s1) ?n (length hss))"
    using distinct_visited[OF Cons.prems(3), of ?k] unfolding vis by simp
  have len: "length (replicas s1) = ?n" by (simp add: s1_def)
  from Cons.prems(4) have "available (cfg s) (replicas s ! ?k)" unfolding vis by simp
  from rr_pick_next[OF Cons.prems(1,2) this, of hs] obtain d
    where p: "pick s hs = Some (s1, Inr d)" "replica d = ?k" unfolding s1_def by blast
  have av: "\<forall>i\<in>set (visited (rr_next s1) (length (replicas s1)) (length hss)). available (cfg s1) (replicas s1 ! i)"
  proof
    fix i assume i: "i \<in> set (visited (rr_next s1) (length (replicas s1)) (length hss))"
    then have "i \<noteq> ?k" using notin len by auto
    then have "replicas s1 ! i = replicas s ! i" by (simp add: s1_def)
    moreover have "available (cfg s) (replicas s ! i)" using Cons.prems(4) i unfolding vis len by simp
    ultimately show "available (cfg s1) (replicas s1 ! i)" by (simp add: s1_def)
  qed
  have pre: "policy s1 = RoundRobin" "rr_next s1 < length (replicas s1)" "length hss \<le> length (replicas s1)"
    using Cons.prems(1-3) by (auto simp: s1_def intro!: mod_less_divisor)
  from Cons.IH[OF pre av] obtain s' where s':
    "pick_all hss s1 = Some (s', visited (rr_next s1) ?n (length hss))"
    "rr_next s' = (rr_next s1 + length hss) mod ?n" "length (replicas s') = ?n"
    "\<forall>i<?n. inflight (replicas s' ! i) = inflight (replicas s1 ! i) +
      (if i \<in> set (visited (rr_next s1) ?n (length hss)) then 1 else 0)"
    unfolding len by blast
  have "pick_all (hs # hss) s = Some (s', visited ?k ?n (length (hs # hss)))"
    using p s'(1) unfolding vis by simp
  moreover have "rr_next s' = (?k + length (hs # hss)) mod ?n"
    using s'(2) by (simp add: s1_def mod_simps)
  moreover have "inflight (replicas s' ! i) = inflight (replicas s ! i) +
      (if i \<in> set (visited ?k ?n (length (hs # hss))) then 1 else 0)" if "i < ?n" for i
    using s'(4) that notin Cons.prems(2) unfolding vis by (auto simp: s1_def nth_list_update)
  ultimately show ?case using s'(3) by blast
qed

text \<open>C31. Round robin is fair: as many picks as there are replicas, all of them available, reach
  every replica exactly once, in cyclic order from the cursor, add one request to each, and
  bring the cursor back.\<close>

theorem round_robin_fair:
  assumes "policy s = RoundRobin" and "rr_next s < length (replicas s)"
    and "\<forall>r\<in>set (replicas s). available (cfg s) r" and "length hss = length (replicas s)"
  shows "\<exists>s' is. pick_all hss s = Some (s', is) \<and> distinct is \<and> set is = {0..<length (replicas s)} \<and>
    (\<forall>k<length (replicas s). is ! k = (rr_next s + k) mod length (replicas s)) \<and>
    rr_next s' = rr_next s \<and>
    map inflight (replicas s') = map (\<lambda>r. inflight r + 1) (replicas s)"
proof -
  let ?n = "length (replicas s)"
  have pos: "0 < ?n" using assms(2) by linarith
  have "\<forall>i\<in>set (visited (rr_next s) ?n (length hss)). available (cfg s) (replicas s ! i)"
    using assms(3,4) by (simp add: set_visited_all[OF pos])
  from round_robin_visits[OF assms(1,2) _ this] assms(4) obtain s' where s':
    "pick_all hss s = Some (s', visited (rr_next s) ?n ?n)"
    "rr_next s' = (rr_next s + ?n) mod ?n" "length (replicas s') = ?n"
    "\<forall>i<?n. inflight (replicas s' ! i) = inflight (replicas s ! i) + 1"
    using set_visited_all[OF pos] by auto
  have "map inflight (replicas s') = map (\<lambda>r. inflight r + 1) (replicas s)"
    using s'(3,4) by (intro nth_equalityI) auto
  moreover have "visited (rr_next s) ?n ?n ! k = (rr_next s + k) mod ?n" if "k < ?n" for k
    using that by (simp add: visited_def)
  ultimately show ?thesis
    using s'(1,2) assms(2) distinct_visited[of ?n ?n] set_visited_all[OF pos]
    by (intro exI[of _ s'] exI[of _ "visited (rr_next s) ?n ?n"]) simp
qed

theorem round_robin_fair_witness:
  "\<exists>s' is. pick_all [[1], [1], [1]] (scheduler_new 3 RoundRobin default_config) = Some (s', is) \<and>
     distinct is \<and> set is = {0..<3}"
proof -
  have "\<forall>r\<in>set (replicas (scheduler_new 3 RoundRobin default_config)).
      available (cfg (scheduler_new 3 RoundRobin default_config)) r"
    by (simp add: scheduler_new_def new_replica_def available_def default_config_def)
  from round_robin_fair[OF _ _ this, of "[[1], [1], [1]]"] show ?thesis
    by (auto simp: scheduler_new_def)
qed

subsection \<open>Runs of the scheduler\<close>

text \<open>From a new scheduler, any sequence of calls with replica indices in range succeeds; the
  number of replicas never changes, every cache stays within the block budget, every count
  within the cap, and a replica that is out of routing has no requests and an empty cache.\<close>

theorem scheduler_run_invariant:
  assumes "in_range n ps"
  shows "\<exists>s. sched_run ps (scheduler_new n pol c) = Some s \<and> num_replicas s = n \<and>
    (\<forall>i<n. (\<exists>b. replica_blocks s i = Some b \<and> b \<le> block_budget c) \<and>
      (\<exists>k. inflight_of s i = Some k \<and> k \<le> max_inflight c) \<and>
      (is_healthy s i = Some False \<longrightarrow> inflight_of s i = Some 0 \<and> replica_blocks s i = Some 0))"
proof -
  have new: "length (replicas (scheduler_new n pol c)) = n" "cfg (scheduler_new n pol c) = c"
    by (simp_all add: scheduler_new_def)
  from sched_run_total[of "scheduler_new n pol c" ps] assms new obtain s
    where s: "sched_run ps (scheduler_new n pol c) = Some s" by auto
  note frame = sched_run_frame[OF s, unfolded new]
  have "replica_inv c (replicas s ! i)" if "i < n" for i
    using sched_inv_nth[OF sched_run_inv[OF sched_inv_new s], of i] that frame by simp
  then show ?thesis
    using s frame(1) pc.blocks_new
    by (auto simp: num_replicas_def replica_blocks_def inflight_of_def is_healthy_def vec_get_def replica_inv_def)
qed

definition demo_sched_ops :: "sched_op list" where
  "demo_sched_ops = [Pick [1, 2, 3], Pick [1, 2, 3], Complete 0, MarkUnhealthy 0, Complete 0, Pick [4], MarkHealthy 0]"

theorem scheduler_run_invariant_witness:
  "\<exists>s. sched_run demo_sched_ops (scheduler_new 2 CacheAware demo_config) = Some s \<and> num_replicas s = 2"
proof -
  have "in_range 2 demo_sched_ops" by (simp add: in_range_def demo_sched_ops_def)
  from scheduler_run_invariant[OF this, of CacheAware demo_config] show ?thesis by blast
qed

subsection \<open>Counting requests\<close>

text \<open>
  The calls of a server that completes only what it picked, beside the number of requests it has
  really picked and not yet completed on each replica.
\<close>

fun tracked_step :: "sched_op \<Rightarrow> scheduler \<times> nat list \<Rightarrow> (scheduler \<times> nat list) option" where
  "tracked_step (Pick hs) (s, out) = do {
     (s1, res) \<leftarrow> pick s hs;
     Some (s1, case res of Inl e \<Rightarrow> out | Inr d \<Rightarrow> out[replica d := out ! replica d + 1])
   }"
| "tracked_step (Complete i) (s, out) =
     (if i < length out \<and> 0 < out ! i
      then do { s1 \<leftarrow> complete s i; Some (s1, out[i := out ! i - 1]) } else None)"
| "tracked_step (MarkUnhealthy i) (s, out) = do { s1 \<leftarrow> mark_unhealthy s i; Some (s1, out) }"
| "tracked_step (MarkHealthy i) (s, out) = do { s1 \<leftarrow> mark_healthy s i; Some (s1, out) }"

fun tracked_run :: "sched_op list \<Rightarrow> scheduler \<times> nat list \<Rightarrow> (scheduler \<times> nat list) option" where
  "tracked_run [] x = Some x"
| "tracked_run (p # ps) x = Option.bind (tracked_step p x) (tracked_run ps)"

lemma tracked_run_append: "tracked_run (ps @ qs) x = Option.bind (tracked_run ps x) (tracked_run qs)"
  by (induction ps arbitrary: x) (auto split: Option.bind_splits)

text \<open>Replica \<open>i\<close> is counted right, or (once it was marked unhealthy) too low.\<close>

definition counts_at :: "bool \<Rightarrow> usize \<Rightarrow> scheduler \<times> nat list \<Rightarrow> bool" where
  "counts_at exact i x =
     (i < length (replicas (fst x)) \<and> length (snd x) = length (replicas (fst x)) \<and>
      (if exact then inflight (replicas (fst x) ! i) = snd x ! i else inflight (replicas (fst x) ! i) \<le> snd x ! i))"

lemma counts_at_pick:
  assumes "counts_at e i (s, out)" and "tracked_step (Pick hs) (s, out) = Some y"
  shows "counts_at e i y"
proof (rule pick_cases[of s hs])
  fix err assume "pick s hs = Some (s, Inl err)"
  with assms show ?thesis by auto
next
  fix j m
  assume d: "decides s hs j m"
    and p: "pick s hs = Some ((rr_advance s j)\<lparr>replicas := (replicas s)[j := routed s hs (replicas s ! j)]\<rparr>,
      Inr \<lparr>replica = j, matched_blocks = m, inflight_after = inflight (replicas s ! j) + 1\<rparr>)"
  from decides_available[OF d] have "j < length (replicas s)" by simp
  with p assms show ?thesis by (auto simp: counts_at_def nth_list_update routed_def)
qed

lemma counts_at_step:
  assumes "counts_at e i (s, out)" and "tracked_step p (s, out) = Some y"
    and "e \<Longrightarrow> p \<noteq> MarkUnhealthy i"
  shows "counts_at e i y"
proof (cases p)
  case (Pick hs)
  with assms counts_at_pick show ?thesis by blast
next
  case (Complete j)
  with assms show ?thesis
    by (auto simp: counts_at_def complete_def bind_eq_Some_conv nth_list_update vec_get_def split: if_splits)
next
  case (MarkUnhealthy j)
  with assms show ?thesis
    by (auto simp: counts_at_def mark_unhealthy_def bind_eq_Some_conv nth_list_update vec_get_def split: if_splits)
next
  case (MarkHealthy j)
  with assms show ?thesis
    by (auto simp: counts_at_def mark_healthy_def bind_eq_Some_conv nth_list_update vec_get_def split: if_splits)
qed

lemma counts_at_run:
  "counts_at e i x \<Longrightarrow> tracked_run ps x = Some y \<Longrightarrow> (e \<Longrightarrow> MarkUnhealthy i \<notin> set ps) \<Longrightarrow> counts_at e i y"
proof (induction ps arbitrary: x)
  case Nil
  then show ?case by simp
next
  case (Cons p ps)
  obtain s out where x: "x = (s, out)" by (cases x)
  from Cons.prems(2) x obtain x1 where x1: "tracked_step p (s, out) = Some x1" "tracked_run ps x1 = Some y"
    by (auto simp: bind_eq_Some_conv)
  have "counts_at e i x1"
    by (rule counts_at_step[OF Cons.prems(1)[unfolded x] x1(1)]) (use Cons.prems(3) in auto)
  then show ?case by (rule Cons.IH[OF _ x1(2)]) (use Cons.prems(3) in auto)
qed

lemma counts_at_new: "i < n \<Longrightarrow> counts_at e i (scheduler_new n pol c, replicate n 0)"
  by (simp add: counts_at_def scheduler_new_def new_replica_def)

text \<open>The in-flight count never exceeds the number of requests really outstanding on the
  replica, and it is that number as long as the replica was never marked unhealthy.\<close>

theorem inflight_accounting:
  assumes "tracked_run ps (scheduler_new n pol c, replicate n 0) = Some (s, out)" and "i < n"
  shows "inflight (replicas s ! i) \<le> out ! i \<and>
    (MarkUnhealthy i \<notin> set ps \<longrightarrow> inflight (replicas s ! i) = out ! i \<and> out ! i \<le> max_inflight c)"
proof -
  have "sched_run ps (fst x) = Some (fst y)" if "tracked_run ps x = Some y" for ps x y
    using that
  proof (induction ps arbitrary: x)
    case (Cons p ps)
    then obtain x1 where x1: "tracked_step p x = Some x1" "tracked_run ps x1 = Some y"
      by (auto simp: bind_eq_Some_conv)
    have "sched_step p (fst x) = Some (fst x1)"
      using x1(1) by (cases x; cases p) (auto simp: bind_eq_Some_conv split: if_splits)
    with Cons.IH[OF x1(2)] show ?case by simp
  qed simp
  from this[OF assms(1)] have run: "sched_run ps (scheduler_new n pol c) = Some s" by simp
  have new: "length (replicas (scheduler_new n pol c)) = n" "cfg (scheduler_new n pol c) = c"
    by (simp_all add: scheduler_new_def)
  note frame = sched_run_frame[OF run, unfolded new]
  have "inflight (replicas s ! i) \<le> max_inflight c"
    using sched_inv_nth[OF sched_run_inv[OF sched_inv_new run], of i] frame assms(2) by (simp add: replica_inv_def)
  moreover have "inflight (replicas s ! i) \<le> out ! i"
    using counts_at_run[OF counts_at_new[of i n False] assms(1)] assms(2) by (simp add: counts_at_def)
  moreover have "inflight (replicas s ! i) = out ! i" if "MarkUnhealthy i \<notin> set ps"
    using counts_at_run[OF counts_at_new[of i n True] assms(1)] assms(2) that by (simp add: counts_at_def)
  ultimately show ?thesis by auto
qed

definition demo_tracked_ops :: "sched_op list" where
  "demo_tracked_ops = [Pick [1, 2, 3], Pick [1, 2, 3], Complete 0, Pick [1, 2, 3]]"

theorem inflight_accounting_witness:
  "\<exists>s out. tracked_run demo_tracked_ops (scheduler_new 2 CacheAware demo_config, replicate 2 0) = Some (s, out) \<and>
     out = [2, 0] \<and> inflight (replicas s ! 0) = 2"
proof -
  have "map_option (\<lambda>x. snd x) (tracked_run demo_tracked_ops (scheduler_new 2 CacheAware demo_config, replicate 2 0)) = Some [2, 0]"
    by code_simp
  then obtain s where s: "tracked_run demo_tracked_ops (scheduler_new 2 CacheAware demo_config, replicate 2 0) = Some (s, [2, 0])"
    by auto
  from inflight_accounting[OF s, of 0] s show ?thesis by (auto simp: demo_tracked_ops_def)
qed

text \<open>A request, then a failure and a recovery of the only replica while it is pending.\<close>

definition flap :: "sched_op list" where
  "flap = [Pick [], MarkUnhealthy 0, MarkHealthy 0]"

lemma flap_step:
  assumes "replicas s = [new_replica]" and "policy s = CacheAware" and "max_inflight (cfg s) = 1"
  shows "\<exists>s'. tracked_run flap (s, [k]) = Some (s', [Suc k]) \<and>
    replicas s' = [new_replica] \<and> policy s' = CacheAware \<and> max_inflight (cfg s') = 1"
proof -
  have "available (cfg s) new_replica" using assms(3) by (simp add: available_def new_replica_def)
  then obtain i m where d: "decides s [] i m" using decides_exists[of new_replica s "[]"] assms(1) by auto
  with decides_available[OF d] assms(1) have "decides s [] 0 m" by simp
  from pick_decides[OF this] assms(1,2) show ?thesis
    by (simp add: flap_def rr_advance_def mark_unhealthy_def mark_healthy_def vec_get_def routed_def new_replica_def assms(3))
qed

text \<open>C32. After \<open>mark_unhealthy\<close> the cap no longer bounds what is outstanding: a replica with cap
  one that fails and recovers \<open>k\<close> times while its requests are pending gets \<open>k\<close> requests, and its
  count is back at zero each time. \<open>complete\<close> documents the skew of a late completion as small
  and harmless.\<close>

theorem cap_not_a_bound_on_outstanding:
  "\<exists>s. tracked_run (concat (replicate k flap)) (scheduler_new 1 CacheAware (default_config\<lparr>max_inflight := 1\<rparr>), [0]) =
     Some (s, [k]) \<and> inflight_of s 0 = Some 0"
proof -
  have "\<exists>s'. tracked_run (concat (replicate k flap)) (s, [j]) = Some (s', [j + k]) \<and> replicas s' = [new_replica]"
    if "replicas s = [new_replica]" "policy s = CacheAware" "max_inflight (cfg s) = 1" for s j
    using that
  proof (induction k arbitrary: s j)
    case (Suc k)
    from flap_step[OF Suc.prems, of j] obtain s1 where s1: "tracked_run flap (s, [j]) = Some (s1, [Suc j])"
      "replicas s1 = [new_replica]" "policy s1 = CacheAware" "max_inflight (cfg s1) = 1" by blast
    from Suc.IH[OF s1(2-4), of "Suc j"] s1(1) show ?case by (simp add: tracked_run_append)
  qed simp
  from this[of "scheduler_new 1 CacheAware (default_config\<lparr>max_inflight := 1\<rparr>)" 0] show ?thesis
    by (auto simp: scheduler_new_def inflight_of_def vec_get_def new_replica_def)
qed

end
