(* ===== verification/Router_Server.thy ===== *)
theory Router_Server
  imports Channel Scheduler_Props
begin

text \<open>
  \<open>crates/router/src/server.rs\<close>: the shared state of the router, the critical sections on it, and
  the handlers of the gRPC service. Code outside the repository is a parameter: \<open>tok\<close> is the
  tokenizer, \<open>code_text\<close> prints a status code, and \<open>upstream i req\<close> awaits a call to replica \<open>i\<close>.
  An upstream call transforms a state that consists of the router and of everything else the
  call can see, since other tasks may run on the router while it is awaited. The tracing
  spans and the measured times are left out.
\<close>

subsection \<open>RouterInner\<close>

text \<open>
  The scheduler behind its mutex and the metrics. There is one gauge and one client per replica,
  so \<open>inflight_gauges\<close> stands for both vectors. Counters wrap as the 64-bit atomics do; of the
  overhead histogram only the number of observations is kept.
\<close>

record router_inner =
  sched :: scheduler
  requests_total :: u64
  matched_blocks_total :: u64
  prompt_blocks_total :: u64
  routing_observations :: nat
  inflight_gauges :: "int list"
  healthy_replicas :: int

definition router_inner_new :: "scheduler \<Rightarrow> usize \<Rightarrow> router_inner" where
  "router_inner_new s num_clients =
     \<lparr>sched = s, requests_total = 0, matched_blocks_total = 0, prompt_blocks_total = 0,
      routing_observations = 0, inflight_gauges = map (\<lambda>_. 0) [0..<num_clients], healthy_replicas = 0\<rparr>"

text \<open>The first bytes of an input tensor, if it has any.\<close>

definition first_bytes :: "infer_input_tensor option \<Rightarrow> string option" where
  "first_bytes t = do {
     i \<leftarrow> t;
     c \<leftarrow> in_contents i;
     (case bytes_contents c of [] \<Rightarrow> None | b # _ \<Rightarrow> Some b)
   }"

definition first_of :: "'a list \<Rightarrow> 'a option" where
  "first_of xs = (case xs of [] \<Rightarrow> None | x # _ \<Rightarrow> Some x)"

definition text_input_tensor :: "model_infer_request \<Rightarrow> infer_input_tensor option" where
  "text_input_tensor req =
     (case find (\<lambda>i. in_name i = ''text_input'') (inputs req) of
        Some i \<Rightarrow> Some i
      | None \<Rightarrow> first_of (inputs req))"

definition extract_text :: "model_infer_request \<Rightarrow> status + string" where
  "extract_text req =
     (case first_bytes (text_input_tensor req) of
        None \<Rightarrow> Inl (status_of InvalidArgument ''missing text_input bytes tensor'')
      | Some bytes \<Rightarrow>
          (case from_utf8 bytes of
             None \<Rightarrow> Inl (status_of InvalidArgument ''text_input not utf8'')
           | Some text \<Rightarrow> Inr text))"

text \<open>\<open>PromptTokenizer::tokenize\<close> of \<open>tokenizer.rs\<close> over the \<open>encode\<close> of the tokenizers crate.\<close>

definition tokenize :: "(string \<Rightarrow> string + u32 list) \<Rightarrow> string \<Rightarrow> string + u32 list" where
  "tokenize encode txt = (case encode txt of Inl e \<Rightarrow> Inl (''tokenize: '' @ e) | Inr ids \<Rightarrow> Inr ids)"

definition hash_prompt :: "(string \<Rightarrow> string + u32 list) \<Rightarrow> string \<Rightarrow> status + u64 list" where
  "hash_prompt tok text =
     (case tok text of
        Inl e \<Rightarrow> Inl (status_of InvalidArgument e)
      | Inr tokens \<Rightarrow> Inr (block_hashes tokens))"

fun pick_status :: "pick_error \<Rightarrow> status" where
  "pick_status NoHealthyReplicas = status_of Unavailable ''no healthy replicas''"
| "pick_status AllSaturated = status_of ResourceExhausted ''all replicas saturated''"

text \<open>Storing into a gauge indexes the vector of gauges.\<close>

definition set_gauge :: "usize \<Rightarrow> int \<Rightarrow> router_inner \<Rightarrow> router_inner panics" where
  "set_gauge i v r =
     (if i < length (inflight_gauges r)
      then Some (r\<lparr>inflight_gauges := (inflight_gauges r)[i := v]\<rparr>) else None)"

definition pick_replica :: "router_inner \<Rightarrow> u64 list \<Rightarrow> (router_inner \<times> (status + route_decision)) panics" where
  "pick_replica r hashes = do {
     (s, picked) \<leftarrow> pick (sched r) hashes;
     let r = r\<lparr>sched := s, routing_observations := routing_observations r + 1\<rparr>;
     (case picked of
        Inl e \<Rightarrow> Some (r, Inl (pick_status e))
      | Inr d \<Rightarrow> do {
          r \<leftarrow> set_gauge (replica d) (as_i64 (inflight_after d)) r;
          Some (r, Inr d)
        })
   }"

definition record_served :: "router_inner \<Rightarrow> usize \<Rightarrow> route_decision \<Rightarrow> router_inner" where
  "record_served r prompt_blocks d =
     r\<lparr>requests_total := requests_total r + 1,
       matched_blocks_total := matched_blocks_total r + word_of_nat (matched_blocks d),
       prompt_blocks_total := prompt_blocks_total r + word_of_nat prompt_blocks\<rparr>"

definition router_complete :: "router_inner \<Rightarrow> usize \<Rightarrow> router_inner panics" where
  "router_complete r i = do {
     s \<leftarrow> complete (sched r) i;
     n \<leftarrow> inflight_of s i;
     set_gauge i (as_i64 n) (r\<lparr>sched := s\<rparr>)
   }"

definition router_mark_unhealthy :: "router_inner \<Rightarrow> usize \<Rightarrow> router_inner panics" where
  "router_mark_unhealthy r i = do {
     s \<leftarrow> mark_unhealthy (sched r) i;
     Some (r\<lparr>sched := s\<rparr>)
   }"

subsection \<open>Status helpers\<close>

definition is_transport_failure :: "status \<Rightarrow> bool" where
  "is_transport_failure st = (code st \<in> {Unavailable, Unknown, Internal, Cancelled})"

definition fmt_status :: "(status_code \<Rightarrow> string) \<Rightarrow> status \<Rightarrow> string" where
  "fmt_status code_text st = code_text (code st) @ '': '' @ message st"

definition all_attempts_failed :: "(status_code \<Rightarrow> string) \<Rightarrow> status \<Rightarrow> status" where
  "all_attempts_failed code_text st =
     status_of Unavailable (''all attempts failed: '' @ code_text (code st) @ '': '' @ message st)"

subsection \<open>Unary requests\<close>

type_synonym 'w upstream =
  "usize \<Rightarrow> model_infer_request \<Rightarrow> router_inner \<times> 'w \<Rightarrow> (router_inner \<times> 'w) \<times> (status + model_infer_response)"

text \<open>One attempt: the decision, the awaited call, the completion.\<close>

definition attempt ::
  "'w upstream \<Rightarrow> model_infer_request \<Rightarrow> u64 list \<Rightarrow> router_inner \<times> 'w \<Rightarrow>
    ((router_inner \<times> 'w) \<times> (status + route_decision \<times> (status + model_infer_response))) panics" where
  "attempt upstream req hashes rw = do {
     (r, picked) \<leftarrow> pick_replica (fst rw) hashes;
     (case picked of
        Inl st \<Rightarrow> Some ((r, snd rw), Inl st)
      | Inr decision \<Rightarrow> do {
          let ((r, w), result) = upstream (replica decision) req (r, snd rw);
          r \<leftarrow> router_complete r (replica decision);
          Some ((r, w), Inr (decision, result))
        })
   }"

definition model_infer_attempts ::
  "(string \<Rightarrow> string + u32 list) \<Rightarrow> (status_code \<Rightarrow> string) \<Rightarrow> 'w upstream \<Rightarrow> model_infer_request \<Rightarrow>
    router_inner \<times> 'w \<Rightarrow> ((router_inner \<times> 'w) \<times> (status + model_infer_response)) panics" where
  "model_infer_attempts tok code_text upstream req rw =
     (case extract_text req of
        Inl st \<Rightarrow> Some (rw, Inl st)
      | Inr text \<Rightarrow>
          (case hash_prompt tok text of
             Inl st \<Rightarrow> Some (rw, Inl st)
           | Inr hashes \<Rightarrow> do {
               ((r, w), first) \<leftarrow> attempt upstream req hashes rw;
               (case first of
                  Inl st \<Rightarrow> Some ((r, w), Inl st)
                | Inr (d, Inr resp) \<Rightarrow> Some ((record_served r (length hashes) d, w), Inr resp)
                | Inr (d, Inl st) \<Rightarrow>
                    if is_transport_failure st then do {
                      r \<leftarrow> router_mark_unhealthy r (replica d);
                      ((r, w), second) \<leftarrow> attempt upstream req hashes (r, w);
                      (case second of
                         Inl st \<Rightarrow> Some ((r, w), Inl st)
                       | Inr (d, Inr resp) \<Rightarrow> Some ((record_served r (length hashes) d, w), Inr resp)
                       | Inr (d, Inl st) \<Rightarrow>
                           if is_transport_failure st then do {
                             r \<leftarrow> router_mark_unhealthy r (replica d);
                             Some ((r, w), Inl (all_attempts_failed code_text st))
                           } else Some ((r, w), Inl st))
                    } else Some ((r, w), Inl st))
             }))"

subsection \<open>Liveness, readiness, metadata\<close>

definition server_live :: server_live_response where
  "server_live = \<lparr>is_live = True\<rparr>"

definition server_ready :: "router_inner \<Rightarrow> server_ready_response" where
  "server_ready r = \<lparr>is_ready = list_ex (\<lambda>i. is_healthy (sched r) i = Some True) [0..<num_replicas (sched r)]\<rparr>"

definition model_metadata ::
  "(usize \<Rightarrow> model_metadata_request \<Rightarrow> status + model_metadata_response) \<Rightarrow> model_metadata_request \<Rightarrow> router_inner \<Rightarrow>
    (status + model_metadata_response) panics" where
  "model_metadata upstream req r =
     (case find (\<lambda>i. is_healthy (sched r) i = Some True) [0..<num_replicas (sched r)] of
        None \<Rightarrow> Some (Inl (status_of Unavailable ''no healthy replicas''))
      | Some i \<Rightarrow> if i < length (inflight_gauges r) then Some (upstream i req) else None)"

subsection \<open>Streaming requests\<close>

text \<open>The inner loop over the chunks of the upstream stream, which ends with or without an error.
  The flag returned says that the client is gone.\<close>

fun forward_chunks ::
  "(status_code \<Rightarrow> string) \<Rightarrow> model_stream_infer_response list \<Rightarrow> status option \<Rightarrow> client_tx \<Rightarrow> client_tx \<times> bool" where
  "forward_chunks code_text [] None tx = (tx, False)"
| "forward_chunks code_text [] (Some st) tx =
     (fst (tx_send (Inr (stream_error (''upstream: '' @ fmt_status code_text st))) tx), False)"
| "forward_chunks code_text (c # cs) fin tx =
     (let (tx, delivered) = tx_send (Inr c) tx
      in if delivered then forward_chunks code_text cs fin tx else (tx, True))"

type_synonym 'w stream_upstream =
  "usize \<Rightarrow> model_infer_request \<Rightarrow> router_inner \<times> 'w \<Rightarrow>
    (router_inner \<times> 'w) \<times> (status + model_stream_infer_response list \<times> status option)"

text \<open>One request of a client stream; the flag returned says that the task ends.\<close>

definition stream_request ::
  "(string \<Rightarrow> string + u32 list) \<Rightarrow> (status_code \<Rightarrow> string) \<Rightarrow> 'w stream_upstream \<Rightarrow> model_infer_request \<Rightarrow>
    router_inner \<times> 'w \<Rightarrow> client_tx \<Rightarrow> ((router_inner \<times> 'w) \<times> client_tx \<times> bool) panics" where
  "stream_request tok code_text upstream req rw tx =
     (case extract_text req of
        Inl st \<Rightarrow> Some (rw, fst (tx_send (Inr (stream_error (fmt_status code_text st))) tx), False)
      | Inr text \<Rightarrow>
          (case hash_prompt tok text of
             Inl st \<Rightarrow> Some (rw, fst (tx_send (Inr (stream_error (fmt_status code_text st))) tx), False)
           | Inr hashes \<Rightarrow> do {
               (r, picked) \<leftarrow> pick_replica (fst rw) hashes;
               (case picked of
                  Inl st \<Rightarrow>
                    Some ((r, snd rw), fst (tx_send (Inr (stream_error (fmt_status code_text st))) tx), False)
                | Inr d \<Rightarrow> do {
                    let r = record_served r (length hashes) d;
                    let ((r, w), opened) = upstream (replica d) req (r, snd rw);
                    (case opened of
                       Inr (chunks, fin) \<Rightarrow> do {
                         let (tx, gone) = forward_chunks code_text chunks fin tx;
                         r \<leftarrow> router_complete r (replica d);
                         Some ((r, w), tx, gone)
                       }
                     | Inl st \<Rightarrow> do {
                         r \<leftarrow> (if is_transport_failure st then router_mark_unhealthy r (replica d) else Some r);
                         let tx = fst (tx_send (Inr (stream_error (''upstream connect: '' @ fmt_status code_text st))) tx);
                         r \<leftarrow> router_complete r (replica d);
                         Some ((r, w), tx, False)
                       })
                  })
             }))"

text \<open>The task spawned for a client stream: the messages are handled one after the other.\<close>

fun model_stream_infer ::
  "(string \<Rightarrow> string + u32 list) \<Rightarrow> (status_code \<Rightarrow> string) \<Rightarrow> 'w stream_upstream \<Rightarrow>
    (status + model_infer_request) list \<Rightarrow> router_inner \<times> 'w \<Rightarrow> client_tx \<Rightarrow>
    ((router_inner \<times> 'w) \<times> client_tx) panics" where
  "model_stream_infer tok code_text upstream [] rw tx = Some (rw, tx)"
| "model_stream_infer tok code_text upstream (Inl e # msgs) rw tx = Some (rw, fst (tx_send (Inl e) tx))"
| "model_stream_infer tok code_text upstream (Inr req # msgs) rw tx = do {
     (rw, tx, stop) \<leftarrow> stream_request tok code_text upstream req rw tx;
     if stop then Some (rw, tx) else model_stream_infer tok code_text upstream msgs rw tx
   }"

subsection \<open>Health prober\<close>

text \<open>One pass: the results of the probes in the order they arrive, applied under one lock.\<close>

fun apply_probes :: "(usize \<times> bool) list \<Rightarrow> scheduler \<Rightarrow> int \<Rightarrow> (scheduler \<times> int) panics" where
  "apply_probes [] s healthy_count = Some (s, healthy_count)"
| "apply_probes ((i, alive) # results) s healthy_count = do {
     h \<leftarrow> is_healthy s i;
     if alive then do {
       s \<leftarrow> mark_healthy s i;
       apply_probes results s (healthy_count + 1)
     } else if h then do {
       s \<leftarrow> mark_unhealthy s i;
       apply_probes results s healthy_count
     } else apply_probes results s healthy_count
   }"

definition probe_pass :: "(usize \<times> bool) list \<Rightarrow> router_inner \<Rightarrow> router_inner panics" where
  "probe_pass results r = do {
     (s, healthy_count) \<leftarrow> apply_probes results (sched r) 0;
     Some (r\<lparr>sched := s, healthy_replicas := healthy_count\<rparr>)
   }"

end
