(* ===== verification/Router_Props.thy ===== *)
theory Router_Props
  imports Router_Server
begin

text \<open>
  The properties of the request handlers: they never panic and keep the invariant of the router
  whatever runs in between, the retry discipline, the counters, the bookkeeping of in-flight
  requests on every path, and the effect of a pass of the health prober.
\<close>

subsection \<open>What the server relies on\<close>

text \<open>
  The scheduler as the server sees it: calls with an index in range return and keep the
  invariant and the number of replicas, and a decision is in range.
\<close>

locale scheduler_api =
  fixes route :: "'s \<Rightarrow> u64 list \<Rightarrow> ('s \<times> (pick_error + route_decision)) panics"
    and finish :: "'s \<Rightarrow> usize \<Rightarrow> 's panics"
    and down :: "'s \<Rightarrow> usize \<Rightarrow> 's panics"
    and up :: "'s \<Rightarrow> usize \<Rightarrow> 's panics"
    and replicas_of :: "'s \<Rightarrow> usize"
    and inv :: "'s \<Rightarrow> bool"
  assumes route_ok: "inv s \<Longrightarrow> \<exists>t res. route s hs = Some (t, res) \<and> inv t \<and> replicas_of t = replicas_of s \<and>
      (\<forall>d. res = Inr d \<longrightarrow> replica d < replicas_of s)"
    and finish_ok: "inv s \<Longrightarrow> i < replicas_of s \<Longrightarrow> \<exists>t. finish s i = Some t \<and> inv t \<and> replicas_of t = replicas_of s"
    and down_ok: "inv s \<Longrightarrow> i < replicas_of s \<Longrightarrow> \<exists>t. down s i = Some t \<and> inv t \<and> replicas_of t = replicas_of s"
    and up_ok: "inv s \<Longrightarrow> i < replicas_of s \<Longrightarrow> \<exists>t. up s i = Some t \<and> inv t \<and> replicas_of t = replicas_of s"
begin

lemma route_keeps:
  assumes "inv s" and "route s hs = Some (t, res)"
  shows "inv t" and "replicas_of t = replicas_of s" and "res = Inr d \<Longrightarrow> replica d < replicas_of s"
  using route_ok[OF assms(1), of hs] assms(2) by auto

lemma finish_keeps:
  assumes "inv s" and "i < replicas_of s" and "finish s i = Some t"
  shows "inv t" and "replicas_of t = replicas_of s"
  using finish_ok[OF assms(1,2)] assms(3) by auto

lemma down_keeps:
  assumes "inv s" and "i < replicas_of s" and "down s i = Some t"
  shows "inv t" and "replicas_of t = replicas_of s"
  using down_ok[OF assms(1,2)] assms(3) by auto

text \<open>A health flip, as the prober does it.\<close>

definition flip :: "'s \<Rightarrow> usize \<times> bool \<Rightarrow> 's panics" where
  "flip s p = (if snd p then up s (fst p) else down s (fst p))"

lemma flip_ok:
  "inv s \<Longrightarrow> fst p < replicas_of s \<Longrightarrow> \<exists>t. flip s p = Some t \<and> inv t \<and> replicas_of t = replicas_of s"
  using up_ok down_ok by (simp add: flip_def)

end

lemma sched_step_ok:
  assumes "sched_inv s" and "case op_index p of None \<Rightarrow> True | Some i \<Rightarrow> i < num_replicas s"
  shows "\<exists>t. sched_step p s = Some t \<and> sched_inv t \<and> num_replicas t = num_replicas s"
proof -
  from sched_step_total[of s p] assms(2) obtain t where t: "sched_step p s = Some t"
    unfolding num_replicas_def by blast
  with sched_step_inv[OF assms(1) t] sched_step_frame(1)[OF t] show ?thesis by (simp add: num_replicas_def)
qed

interpretation sc: scheduler_api pick complete mark_unhealthy mark_healthy num_replicas sched_inv
proof unfold_locales
  fix s hs assume inv: "sched_inv s"
  obtain t res where p: "pick s hs = Some (t, res)" using pick_total by blast
  have "replica d < num_replicas s" if "res = Inr d" for d
    using decides_available[OF pick_decision(1)] p that by (fastforce simp: num_replicas_def)
  with p sched_inv_pick[OF inv p] pick_frame(1)[OF p]
  show "\<exists>t res. pick s hs = Some (t, res) \<and> sched_inv t \<and> num_replicas t = num_replicas s \<and>
      (\<forall>d. res = Inr d \<longrightarrow> replica d < num_replicas s)" by (simp add: num_replicas_def)
qed (use sched_step_ok[of _ "Complete _"] sched_step_ok[of _ "MarkUnhealthy _"] sched_step_ok[of _ "MarkHealthy _"] in auto)

definition router_inv :: "router_inner \<Rightarrow> bool" where
  "router_inv r = (sched_inv (sched r) \<and> length (inflight_gauges r) = num_replicas (sched r))"

definition fleet_size :: "router_inner \<Rightarrow> usize" where
  "fleet_size r = num_replicas (sched r)"

lemma router_inv_new: "router_inv (router_inner_new (scheduler_new n pol c) n)"
  using sched_inv_new[of n pol c]
  by (simp add: router_inv_def router_inner_new_def num_replicas_def) (simp add: scheduler_new_def)

subsection \<open>The critical sections\<close>

lemma pick_replica_ok:
  assumes "router_inv r"
  shows "\<exists>r' res. pick_replica r hs = Some (r', res) \<and> router_inv r' \<and> fleet_size r' = fleet_size r \<and>
    (\<forall>d. res = Inr d \<longrightarrow> replica d < fleet_size r)"
proof -
  from assms have inv: "sched_inv (sched r)" and len: "length (inflight_gauges r) = num_replicas (sched r)"
    by (simp_all add: router_inv_def)
  from sc.route_ok[OF inv, of hs] obtain t res where p: "pick (sched r) hs = Some (t, res)" "sched_inv t"
    "num_replicas t = num_replicas (sched r)" "\<forall>d. res = Inr d \<longrightarrow> replica d < num_replicas (sched r)" by blast
  then show ?thesis
    by (cases res) (auto simp: pick_replica_def set_gauge_def router_inv_def fleet_size_def len Let_def)
qed

lemma router_complete_ok:
  assumes "router_inv r" and "i < fleet_size r"
  shows "\<exists>r'. router_complete r i = Some r' \<and> router_inv r' \<and> fleet_size r' = fleet_size r"
proof -
  from assms have inv: "sched_inv (sched r)" and len: "length (inflight_gauges r) = num_replicas (sched r)"
    and i: "i < num_replicas (sched r)" by (simp_all add: router_inv_def fleet_size_def)
  from sc.finish_ok[OF inv i] obtain t where "complete (sched r) i = Some t" "sched_inv t"
    "num_replicas t = num_replicas (sched r)" by blast
  with i len show ?thesis
    by (simp add: router_complete_def inflight_of_def set_gauge_def router_inv_def fleet_size_def vec_get_def num_replicas_def)
qed

lemma router_mark_unhealthy_ok:
  assumes "router_inv r" and "i < fleet_size r"
  shows "\<exists>r'. router_mark_unhealthy r i = Some r' \<and> router_inv r' \<and> fleet_size r' = fleet_size r"
  using sc.down_ok[of "sched r" i] assms
  by (auto simp: router_mark_unhealthy_def router_inv_def fleet_size_def)

lemma record_served_inv [simp]:
  "router_inv (record_served r n d) = router_inv r" "fleet_size (record_served r n d) = fleet_size r"
  "sched (record_served r n d) = sched r" "inflight_gauges (record_served r n d) = inflight_gauges r"
  by (simp_all add: record_served_def router_inv_def fleet_size_def)

text \<open>What an upstream call must leave of the router, whatever else runs meanwhile.\<close>

definition keeps_router :: "'w upstream \<Rightarrow> bool" where
  "keeps_router upstream =
     (\<forall>i req r w. router_inv r \<longrightarrow>
        router_inv (fst (fst (upstream i req (r, w)))) \<and> fleet_size (fst (fst (upstream i req (r, w)))) = fleet_size r)"

lemma pick_status_code: "code (pick_status e) \<in> {Unavailable, ResourceExhausted}"
  by (cases e) simp_all

lemma pick_replica_error:
  "pick_replica r hs = Some (r1, Inl st) \<Longrightarrow> code st \<in> {Unavailable, ResourceExhausted}"
proof -
  assume p: "pick_replica r hs = Some (r1, Inl st)"
  then obtain s picked where s: "pick (sched r) hs = Some (s, picked)" by (auto simp: pick_replica_def bind_eq_Some_conv)
  with p obtain e where "st = pick_status e"
    by (cases picked) (auto simp: pick_replica_def bind_eq_Some_conv Let_def)
  with pick_status_code show ?thesis by simp
qed

lemma attempt_ok:
  assumes up: "keeps_router upstream" and inv: "router_inv r"
  shows "\<exists>r' w' out. attempt upstream req hs (r, w) = Some ((r', w'), out) \<and> router_inv r' \<and>
    fleet_size r' = fleet_size r \<and> (\<forall>d res. out = Inr (d, res) \<longrightarrow> replica d < fleet_size r) \<and>
    (\<forall>st. out = Inl st \<longrightarrow> code st \<in> {Unavailable, ResourceExhausted})"
proof -
  from pick_replica_ok[OF inv, of hs] obtain r1 res where p: "pick_replica r hs = Some (r1, res)" "router_inv r1"
    "fleet_size r1 = fleet_size r" "\<forall>d. res = Inr d \<longrightarrow> replica d < fleet_size r" by blast
  show ?thesis
  proof (cases res)
    case (Inl st)
    with p pick_replica_error show ?thesis by (simp add: attempt_def)
  next
    case (Inr d)
    obtain r2 w2 out where u: "upstream (replica d) req (r1, w) = ((r2, w2), out)" by (metis prod.exhaust)
    with up p have r2: "router_inv r2" "fleet_size r2 = fleet_size r" unfolding keeps_router_def
      by (metis fst_conv)+
    from router_complete_ok[OF r2(1), of "replica d"] p(4) Inr r2(2)
    obtain r3 where "router_complete r2 (replica d) = Some r3" "router_inv r3" "fleet_size r3 = fleet_size r" by auto
    with p Inr u show ?thesis by (simp add: attempt_def)
  qed
qed

subsection \<open>Unary requests under any interference\<close>

lemma unary_ok:
  assumes up: "keeps_router upstream" and inv: "router_inv r"
  shows "\<exists>r' w' res. model_infer_attempts tok code_text upstream req (r, w) = Some ((r', w'), res) \<and>
    router_inv r' \<and> fleet_size r' = fleet_size r \<and>
    (\<forall>st. res = Inl st \<longrightarrow> is_transport_failure st \<longrightarrow> code st = Unavailable)"
proof -
  note tf = is_transport_failure_def
  consider (bad) st where "extract_text req = Inl st" "code st = InvalidArgument"
    | (tok) tx st where "extract_text req = Inr tx" "hash_prompt tok tx = Inl st" "code st = InvalidArgument"
    | (ok) tx hs where "extract_text req = Inr tx" "hash_prompt tok tx = Inr hs"
    by (cases "extract_text req"; cases "hash_prompt tok (projr (extract_text req))")
      (auto simp: extract_text_def hash_prompt_def split: option.splits sum.splits)
  then show ?thesis
  proof cases
    case ok
    from attempt_ok[OF up inv] obtain r1 w1 out where a1: "attempt upstream req hs (r, w) = Some ((r1, w1), out)"
      "router_inv r1" "fleet_size r1 = fleet_size r" "\<forall>d res. out = Inr (d, res) \<longrightarrow> replica d < fleet_size r"
      "\<forall>st. out = Inl st \<longrightarrow> code st \<in> {Unavailable, ResourceExhausted}" by blast
    consider (err) st where "out = Inl st" "code st \<in> {Unavailable, ResourceExhausted}"
      | (served) d resp where "out = Inr (d, Inr resp)"
      | (app) d st where "out = Inr (d, Inl st)" "\<not> is_transport_failure st"
      | (retry) d st where "out = Inr (d, Inl st)" "is_transport_failure st" "replica d < fleet_size r1"
      using a1(3-5) by (metis old.sum.exhaust surj_pair)
    then show ?thesis
    proof cases
      case retry
      from router_mark_unhealthy_ok[OF a1(2) retry(3)] obtain r2 where r2: "router_mark_unhealthy r1 (replica d) = Some r2"
        "router_inv r2" "fleet_size r2 = fleet_size r1" by blast
      from attempt_ok[OF up r2(2)] obtain r3 w3 out2 where a2: "attempt upstream req hs (r2, w1) = Some ((r3, w3), out2)"
        "router_inv r3" "fleet_size r3 = fleet_size r2" "\<forall>d res. out2 = Inr (d, res) \<longrightarrow> replica d < fleet_size r2"
        "\<forall>st. out2 = Inl st \<longrightarrow> code st \<in> {Unavailable, ResourceExhausted}" by blast
      consider (err2) st where "out2 = Inl st" "code st \<in> {Unavailable, ResourceExhausted}"
        | (served2) d resp where "out2 = Inr (d, Inr resp)"
        | (app2) d st where "out2 = Inr (d, Inl st)" "\<not> is_transport_failure st"
        | (gaveup) d st where "out2 = Inr (d, Inl st)" "is_transport_failure st" "replica d < fleet_size r3"
        using a2(3-5) by (metis old.sum.exhaust surj_pair)
      then show ?thesis
      proof cases
        case gaveup
        from router_mark_unhealthy_ok[OF a2(2) gaveup(3)] obtain r4 where "router_mark_unhealthy r3 (replica d) = Some r4"
          "router_inv r4" "fleet_size r4 = fleet_size r3" by blast
        with ok a1 retry r2 a2 gaveup show ?thesis by (simp add: model_infer_attempts_def all_attempts_failed_def)
      qed (use ok a1 retry r2 a2 in \<open>auto simp: model_infer_attempts_def tf\<close>)
    qed (use ok a1 in \<open>auto simp: model_infer_attempts_def tf\<close>)
  qed (use inv in \<open>auto simp: model_infer_attempts_def tf\<close>)
qed

text \<open>C18. A unary request never panics and keeps the invariant of the router (budgets, caps, one
  gauge per replica), whatever other tasks do to the router while an upstream call is
  awaited, as long as they keep it too; and a transport failure never reaches the client
  under its own code, only as \<open>Unavailable\<close>.\<close>

theorem unary_request_safe:
  assumes "keeps_router upstream" and "router_inv r"
  shows "\<exists>r' w' res. model_infer_attempts tok code_text upstream req (r, w) = Some ((r', w'), res) \<and>
    router_inv r' \<and> fleet_size r' = fleet_size r \<and>
    (\<forall>st. res = Inl st \<longrightarrow> is_transport_failure st \<longrightarrow> code st = Unavailable)"
  by (rule unary_ok[OF assms])

text \<open>An upstream that always resets the connection.\<close>

definition resetting :: "unit upstream" where
  "resetting i req rw = (rw, Inl (status_of Cancelled ''reset''))"

definition demo_router :: router_inner where
  "demo_router = router_inner_new (scheduler_new 2 CacheAware demo_config) 2"

theorem unary_request_safe_witness:
  "\<exists>r' res. model_infer_attempts byte_tokens (\<lambda>_. ''c'') resetting (text_request ''hello'') (demo_router, ()) =
     Some ((r', ()), res) \<and> router_inv r'"
proof -
  have "keeps_router resetting" by (simp add: keeps_router_def resetting_def)
  moreover have "router_inv demo_router" unfolding demo_router_def by (rule router_inv_new)
  ultimately show ?thesis
    using unary_request_safe[of resetting demo_router byte_tokens "\<lambda>_. ''c''" "text_request ''hello''" "()"] by auto
qed

subsection \<open>Unary requests one at a time\<close>

text \<open>
  The upstream as a script: the answer to the \<open>k\<close>-th call is given, the calls are logged, and
  nothing else touches the router meanwhile.
\<close>

definition scripted ::
  "(nat \<Rightarrow> usize \<Rightarrow> model_infer_request \<Rightarrow> status + model_infer_response) \<Rightarrow> (usize \<times> model_infer_request) list upstream" where
  "scripted answers i req = (\<lambda>(r, calls). ((r, calls @ [(i, req)]), answers (length calls) i req))"

text \<open>The counters of served requests.\<close>

definition counters :: "router_inner \<Rightarrow> u64 \<times> u64 \<times> u64" where
  "counters r = (requests_total r, matched_blocks_total r, prompt_blocks_total r)"

text \<open>Replica \<open>i\<close> as a request that is over leaves it.\<close>

definition after_request :: "scheduler \<Rightarrow> u64 list \<Rightarrow> usize \<Rightarrow> replica_state" where
  "after_request s hs i = (routed s hs (replicas s ! i))\<lparr>inflight := inflight (replicas s ! i)\<rparr>"

lemma after_request_fields [simp]:
  "inflight (after_request s hs i) = inflight (replicas s ! i)" "healthy (after_request s hs i) = healthy (replicas s ! i)"
  by (simp_all add: after_request_def routed_def)

text \<open>A router after it routed a prompt to \<open>i\<close>, and the decision it made.\<close>

abbreviation after_pick :: "router_inner \<Rightarrow> u64 list \<Rightarrow> usize \<Rightarrow> router_inner" where
  "after_pick r hs i \<equiv>
     r\<lparr>sched := (rr_advance (sched r) i)
         \<lparr>replicas := (replicas (sched r))[i := routed (sched r) hs (replicas (sched r) ! i)]\<rparr>,
       routing_observations := routing_observations r + 1,
       inflight_gauges := (inflight_gauges r)[i := as_i64 (inflight (replicas (sched r) ! i) + 1)]\<rparr>"

abbreviation picked_decision :: "router_inner \<Rightarrow> usize \<Rightarrow> usize \<Rightarrow> route_decision" where
  "picked_decision r i m \<equiv> \<lparr>replica = i, matched_blocks = m, inflight_after = inflight (replicas (sched r) ! i) + 1\<rparr>"

lemma pick_replica_decides:
  assumes inv: "router_inv r" and d: "decides (sched r) hs i m"
  shows "i < fleet_size r" and "pick_replica r hs = Some (after_pick r hs i, Inr (picked_decision r i m))"
proof -
  show i: "i < fleet_size r" using decides_available[OF d] by (simp add: fleet_size_def num_replicas_def)
  then have "i < length (inflight_gauges r)" using inv by (simp add: router_inv_def fleet_size_def)
  with pick_decides[OF d] show "pick_replica r hs = Some (after_pick r hs i, Inr (picked_decision r i m))"
    by (simp add: pick_replica_def set_gauge_def Let_def)
qed

lemma pick_replica_cases:
  assumes inv: "router_inv r"
  obtains (error) e where
      "pick_replica r hs = Some (r\<lparr>routing_observations := routing_observations r + 1\<rparr>, Inl (pick_status e))"
  | (picked) i m where "decides (sched r) hs i m" "i < fleet_size r"
      "pick_replica r hs = Some (after_pick r hs i, Inr (picked_decision r i m))"
proof (rule pick_cases[of "sched r" hs])
  fix e assume "pick (sched r) hs = Some (sched r, Inl e)"
  then show thesis by (intro error[of e]) (simp add: pick_replica_def Let_def)
next
  fix i m
  assume d: "decides (sched r) hs i m"
  from pick_replica_decides[OF inv this] show thesis using picked d by blast
qed

lemma attempt_scripted:
  assumes inv: "router_inv r"
  obtains (error) e r' where "attempt (scripted answers) req hs (r, calls) = Some ((r', calls), Inl (pick_status e))"
      "sched r' = sched r" "inflight_gauges r' = inflight_gauges r" "counters r' = counters r"
  | (called) i m n r' where "decides (sched r) hs i m" "i < fleet_size r"
      "attempt (scripted answers) req hs (r, calls) =
        Some ((r', calls @ [(i, req)]), Inr (\<lparr>replica = i, matched_blocks = m, inflight_after = n\<rparr>, answers (length calls) i req))"
      "replicas (sched r') = (replicas (sched r))[i := after_request (sched r) hs i]"
      "inflight_gauges r' = (inflight_gauges r)[i := as_i64 (inflight (replicas (sched r) ! i))]"
      "counters r' = counters r" "router_inv r'" "fleet_size r' = fleet_size r" "cfg (sched r') = cfg (sched r)"
      "policy (sched r') = policy (sched r)"
proof (rule pick_replica_cases[OF inv, of hs])
  fix e
  assume "pick_replica r hs = Some (r\<lparr>routing_observations := routing_observations r + 1\<rparr>, Inl (pick_status e))"
  then show thesis
    by (intro error[of "r\<lparr>routing_observations := routing_observations r + 1\<rparr>" e]) (simp_all add: attempt_def counters_def)
next
  fix i m
  let ?r1 = "after_pick r hs i"
  assume d: "decides (sched r) hs i m" and i: "i < fleet_size r"
    and p: "pick_replica r hs = Some (?r1, Inr (picked_decision r i m))"
  from pick_replica_ok[OF inv, of hs] p have inv1: "router_inv ?r1" "fleet_size ?r1 = fleet_size r" by simp_all
  from router_complete_ok[OF inv1(1), of i] inv1(2) i obtain r' where c: "router_complete ?r1 i = Some r'"
    "router_inv r'" "fleet_size r' = fleet_size r" by auto
  have i': "i < length (replicas (sched r))" using i by (simp add: fleet_size_def num_replicas_def)
  from c(1) i' have s': "sched r' = (rr_advance (sched r) i)\<lparr>replicas := (replicas (sched r))[i := after_request (sched r) hs i]\<rparr>"
      "inflight_gauges r' = (inflight_gauges r)[i := as_i64 (inflight (replicas (sched r) ! i))]" "counters r' = counters r"
    by (auto simp: router_complete_def complete_def inflight_of_def set_gauge_def bind_eq_Some_conv vec_get_def
        counters_def after_request_def routed_def split: if_splits)
  show thesis
    by (rule called[OF d i, of r' "inflight (replicas (sched r) ! i) + 1"])
      (use p c s' in \<open>simp_all add: attempt_def scripted_def sched_simps\<close>)
qed

text \<open>A replica out of routing, and the counters after a request was served.\<close>

definition dead_replica :: replica_state where
  "dead_replica = \<lparr>cache = prefix_cache_new, inflight = 0, healthy = False\<rparr>"

definition bump :: "u64 \<times> u64 \<times> u64 \<Rightarrow> usize \<Rightarrow> usize \<Rightarrow> u64 \<times> u64 \<times> u64" where
  "bump c m n = (fst c + 1, fst (snd c) + word_of_nat m, snd (snd c) + word_of_nat n)"

lemma counters_record_served: "counters (record_served r n d) = bump (counters r) (matched_blocks d) n"
  by (simp add: counters_def record_served_def bump_def)

lemma router_mark_unhealthy_cases:
  assumes inv: "router_inv r" and i: "i < fleet_size r"
  obtains r' where "router_mark_unhealthy r i = Some r'" "replicas (sched r') = (replicas (sched r))[i := dead_replica]"
    "policy (sched r') = policy (sched r)" "cfg (sched r') = cfg (sched r)" "counters r' = counters r"
    "inflight_gauges r' = inflight_gauges r" "router_inv r'" "fleet_size r' = fleet_size r"
proof -
  from router_mark_unhealthy_ok[OF assms] obtain r' where r': "router_mark_unhealthy r i = Some r'" "router_inv r'"
    "fleet_size r' = fleet_size r" by blast
  have "(replicas (sched r) ! i)\<lparr>healthy := False, inflight := 0, cache := prefix_cache_new\<rparr> = dead_replica"
    by (simp add: dead_replica_def)
  with r' show thesis
    by (intro that[of r'])
      (auto simp: router_mark_unhealthy_def mark_unhealthy_def bind_eq_Some_conv counters_def)
qed

lemma after_request_other:
  assumes "replicas t = (replicas s)[i := x]" and "policy t = policy s" and "cfg t = cfg s" and "j \<noteq> i"
  shows "after_request t hs j = after_request s hs j"
  using assms by (simp add: after_request_def routed_def)

text \<open>The last part of a failover: what the client gets of the second answer.\<close>

definition final_answer :: "(status_code \<Rightarrow> string) \<Rightarrow> status + model_infer_response \<Rightarrow> status + model_infer_response" where
  "final_answer code_text a =
     (case a of
        Inl st \<Rightarrow> Inl (if is_transport_failure st then all_attempts_failed code_text st else st)
      | Inr resp \<Rightarrow> Inr resp)"

definition transport_failed :: "status + model_infer_response \<Rightarrow> bool" where
  "transport_failed a = (case a of Inl st \<Rightarrow> is_transport_failure st | Inr resp \<Rightarrow> False)"

text \<open>The two early returns before the first attempt, in one function.\<close>

definition request_hashes :: "(string \<Rightarrow> string + u32 list) \<Rightarrow> model_infer_request \<Rightarrow> status + u64 list" where
  "request_hashes tok req = (case extract_text req of Inl st \<Rightarrow> Inl st | Inr t \<Rightarrow> hash_prompt tok t)"

lemma request_hashes_error: "request_hashes tok req = Inl st \<Longrightarrow> code st = InvalidArgument"
  by (auto simp: request_hashes_def extract_text_def hash_prompt_def split: option.splits sum.splits)

text \<open>The second attempt, which is the last one.\<close>

definition last_attempt ::
  "(status_code \<Rightarrow> string) \<Rightarrow> 'w upstream \<Rightarrow> model_infer_request \<Rightarrow> u64 list \<Rightarrow> router_inner \<times> 'w \<Rightarrow>
    ((router_inner \<times> 'w) \<times> (status + model_infer_response)) panics" where
  "last_attempt code_text upstream req hashes rw = do {
     ((r, w), second) \<leftarrow> attempt upstream req hashes rw;
     (case second of
        Inl st \<Rightarrow> Some ((r, w), Inl st)
      | Inr (d, Inr resp) \<Rightarrow> Some ((record_served r (length hashes) d, w), Inr resp)
      | Inr (d, Inl st) \<Rightarrow>
          if is_transport_failure st then do {
            r \<leftarrow> router_mark_unhealthy r (replica d);
            Some ((r, w), Inl (all_attempts_failed code_text st))
          } else Some ((r, w), Inl st))
   }"

lemma model_infer_attempts_hashes:
  "model_infer_attempts tok code_text upstream req rw =
     (case request_hashes tok req of
        Inl st \<Rightarrow> Some (rw, Inl st)
      | Inr hashes \<Rightarrow> do {
          ((r, w), first) \<leftarrow> attempt upstream req hashes rw;
          (case first of
             Inl st \<Rightarrow> Some ((r, w), Inl st)
           | Inr (d, Inr resp) \<Rightarrow> Some ((record_served r (length hashes) d, w), Inr resp)
           | Inr (d, Inl st) \<Rightarrow>
               if is_transport_failure st then do {
                 r \<leftarrow> router_mark_unhealthy r (replica d);
                 last_attempt code_text upstream req hashes (r, w)
               } else Some ((r, w), Inl st))
        })"
  unfolding model_infer_attempts_def request_hashes_def last_attempt_def by (cases "extract_text req") simp_all

lemma last_attempt_scripted:
  assumes inv: "router_inv r"
    and run: "last_attempt code_text (scripted answers) req hs (r, calls) = Some ((r', calls'), res)"
  obtains
    (unrouted) e where "res = Inl (pick_status e)" "calls' = calls" "sched r' = sched r"
      "inflight_gauges r' = inflight_gauges r" "counters r' = counters r"
  | (called) j k where "decides (sched r) hs j k" "calls' = calls @ [(j, req)]"
      "res = final_answer code_text (answers (length calls) j req)"
      "replicas (sched r') = (replicas (sched r))
         [j := if transport_failed (answers (length calls) j req) then dead_replica else after_request (sched r) hs j]"
      "inflight_gauges r' = (inflight_gauges r)[j := as_i64 (inflight (replicas (sched r) ! j))]"
      "counters r' = (if isl res then counters r else bump (counters r) k (length hs))"
proof (rule attempt_scripted[OF inv, of answers req hs calls])
  fix e r1
  assume "attempt (scripted answers) req hs (r, calls) = Some ((r1, calls), Inl (pick_status e))"
    "sched r1 = sched r" "inflight_gauges r1 = inflight_gauges r" "counters r1 = counters r"
  with run show thesis by (intro unrouted[of e]) (auto simp: last_attempt_def)
next
  fix j k n r1
  assume d: "decides (sched r) hs j k" and j: "j < fleet_size r"
    and a: "attempt (scripted answers) req hs (r, calls) =
      Some ((r1, calls @ [(j, req)]), Inr (\<lparr>replica = j, matched_blocks = k, inflight_after = n\<rparr>, answers (length calls) j req))"
    and r1: "replicas (sched r1) = (replicas (sched r))[j := after_request (sched r) hs j]"
    "inflight_gauges r1 = (inflight_gauges r)[j := as_i64 (inflight (replicas (sched r) ! j))]"
    "counters r1 = counters r" "router_inv r1" "fleet_size r1 = fleet_size r"
  consider (ok) resp where "answers (length calls) j req = Inr resp"
    | (app) st where "answers (length calls) j req = Inl st" "\<not> is_transport_failure st"
    | (dead) st where "answers (length calls) j req = Inl st" "is_transport_failure st"
    by (cases "answers (length calls) j req") auto
  then show thesis
  proof cases
    case ok
    from run a ok have "r' = record_served r1 (length hs) \<lparr>replica = j, matched_blocks = k, inflight_after = n\<rparr>"
      "calls' = calls @ [(j, req)]" "res = Inr resp" by (auto simp: last_attempt_def)
    with r1 ok show thesis
      by (intro called[OF d]) (simp_all add: transport_failed_def counters_record_served final_answer_def)
  next
    case app
    from run a app have "r' = r1" "calls' = calls @ [(j, req)]" "res = Inl st" by (auto simp: last_attempt_def)
    with r1 app show thesis by (intro called[OF d]) (simp_all add: transport_failed_def final_answer_def)
  next
    case dead
    from j r1(5) have j1: "j < fleet_size r1" by simp
    show thesis
    proof (rule router_mark_unhealthy_cases[OF r1(4) j1])
      fix r2
      assume mu: "router_mark_unhealthy r1 j = Some r2" "replicas (sched r2) = (replicas (sched r1))[j := dead_replica]"
        "counters r2 = counters r1" "inflight_gauges r2 = inflight_gauges r1"
      from run a dead mu have "r' = r2" "calls' = calls @ [(j, req)]" "res = Inl (all_attempts_failed code_text st)"
        by (auto simp: last_attempt_def)
      with r1 dead mu show thesis by (intro called[OF d]) (simp_all add: transport_failed_def final_answer_def)
    qed
  qed
qed

text \<open>A failover, from the state after the first attempt to the end.\<close>

lemma failover_scripted:
  assumes d1: "decides (sched r) hs i m" and inv: "router_inv r1" "i < fleet_size r1"
    and r1: "replicas (sched r1) = (replicas (sched r))[i := after_request (sched r) hs i]"
      "policy (sched r1) = policy (sched r)" "cfg (sched r1) = cfg (sched r)" "counters r1 = counters r"
      "inflight_gauges r1 = (inflight_gauges r)[i := as_i64 (inflight (replicas (sched r) ! i))]"
    and run: "(do { r \<leftarrow> router_mark_unhealthy r1 i; last_attempt code_text (scripted answers) req hs (r, [(i, req)]) }) =
      Some ((r', calls), res)"
  obtains
    (lost) e where "calls = [(i, req)]" "res = Inl (pick_status e)"
      "replicas (sched r') = (replicas (sched r))[i := dead_replica]"
      "inflight_gauges r' = (inflight_gauges r)[i := as_i64 (inflight (replicas (sched r) ! i))]" "counters r' = counters r"
  | (failover) s j k where "replicas s = (replicas (sched r))[i := dead_replica]"
      "policy s = policy (sched r)" "cfg s = cfg (sched r)" "decides s hs j k" "i \<noteq> j"
      "calls = [(i, req), (j, req)]" "res = final_answer code_text (answers 1 j req)"
      "replicas (sched r') = (replicas (sched r))[i := dead_replica,
         j := if transport_failed (answers 1 j req) then dead_replica else after_request (sched r) hs j]"
      "inflight_gauges r' = (inflight_gauges r)[i := as_i64 (inflight (replicas (sched r) ! i)),
         j := as_i64 (inflight (replicas (sched r) ! j))]"
      "counters r' = (if isl res then counters r else bump (counters r) k (length hs))"
proof (rule router_mark_unhealthy_cases[OF inv])
  fix r2
  assume mu: "router_mark_unhealthy r1 i = Some r2" and reps: "replicas (sched r2) = (replicas (sched r1))[i := dead_replica]"
    and r2: "policy (sched r2) = policy (sched r1)" "cfg (sched r2) = cfg (sched r1)" "counters r2 = counters r1"
    "inflight_gauges r2 = inflight_gauges r1" "router_inv r2"
  have reps2: "replicas (sched r2) = (replicas (sched r))[i := dead_replica]" using reps r1(1) by simp
  from run mu have run2: "last_attempt code_text (scripted answers) req hs (r2, [(i, req)]) = Some ((r', calls), res)" by simp
  show thesis
  proof (rule last_attempt_scripted[OF r2(5) run2])
    fix e assume "res = Inl (pick_status e)" "calls = [(i, req)]" "sched r' = sched r2"
      "inflight_gauges r' = inflight_gauges r2" "counters r' = counters r2"
    with r1 r2 reps2 show thesis by (intro lost[of e]) simp_all
  next
    fix j k
    assume d2: "decides (sched r2) hs j k" and calls: "calls = [(i, req)] @ [(j, req)]"
      and res: "res = final_answer code_text (answers (length [(i, req)]) j req)"
      and reps': "replicas (sched r') = (replicas (sched r2))
        [j := if transport_failed (answers (length [(i, req)]) j req) then dead_replica else after_request (sched r2) hs j]"
      and rest: "inflight_gauges r' = (inflight_gauges r2)[j := as_i64 (inflight (replicas (sched r2) ! j))]"
        "counters r' = (if isl res then counters r2 else bump (counters r2) k (length hs))"
    have "i < length (replicas (sched r))" using decides_available[OF d1] by simp
    then have neq: "i \<noteq> j"
      using decides_available[OF d2] by (auto simp: reps2 available_def dead_replica_def)
    have other: "after_request (sched r2) hs j = after_request (sched r) hs j"
      by (rule after_request_other[OF reps2]) (use r1 r2 neq in auto)
    have s2: "policy (sched r2) = policy (sched r)" "cfg (sched r2) = cfg (sched r)" using r1 r2 by simp_all
    show thesis
      by (rule failover[OF reps2 s2 d2 neq]) (use r1 r2 reps2 reps' rest calls res other neq in simp_all)
  qed
qed

lemma unary_scripted:
  assumes inv: "router_inv r"
    and run: "model_infer_attempts tok code_text (scripted answers) req (r, []) = Some ((r', calls), res)"
  obtains
    (rejected) st where "res = Inl st" "code st = InvalidArgument" "r' = r" "calls = []" "request_hashes tok req = Inl st"
  | (unrouted) hs e where "request_hashes tok req = Inr hs" "res = Inl (pick_status e)" "calls = []"
      "sched r' = sched r" "inflight_gauges r' = inflight_gauges r" "counters r' = counters r"
  | (single) hs i m where "request_hashes tok req = Inr hs" "decides (sched r) hs i m" "calls = [(i, req)]"
      "res = answers 0 i req" "\<not> transport_failed res"
      "replicas (sched r') = (replicas (sched r))[i := after_request (sched r) hs i]"
      "inflight_gauges r' = (inflight_gauges r)[i := as_i64 (inflight (replicas (sched r) ! i))]"
      "counters r' = (if isl res then counters r else bump (counters r) m (length hs))"
  | (lost) hs i m e where "request_hashes tok req = Inr hs" "decides (sched r) hs i m" "calls = [(i, req)]"
      "transport_failed (answers 0 i req)" "res = Inl (pick_status e)"
      "replicas (sched r') = (replicas (sched r))[i := dead_replica]"
      "inflight_gauges r' = (inflight_gauges r)[i := as_i64 (inflight (replicas (sched r) ! i))]"
      "counters r' = counters r"
  | (failover) hs i m s j k where "request_hashes tok req = Inr hs" "decides (sched r) hs i m"
      "transport_failed (answers 0 i req)" "replicas s = (replicas (sched r))[i := dead_replica]"
      "policy s = policy (sched r)" "cfg s = cfg (sched r)" "decides s hs j k" "i \<noteq> j"
      "calls = [(i, req), (j, req)]" "res = final_answer code_text (answers 1 j req)"
      "replicas (sched r') = (replicas (sched r))[i := dead_replica,
         j := if transport_failed (answers 1 j req) then dead_replica else after_request (sched r) hs j]"
      "inflight_gauges r' = (inflight_gauges r)[i := as_i64 (inflight (replicas (sched r) ! i)),
         j := as_i64 (inflight (replicas (sched r) ! j))]"
      "counters r' = (if isl res then counters r else bump (counters r) k (length hs))"
proof (cases "request_hashes tok req")
  case (Inl st)
  with run show thesis
    by (intro rejected[of st]) (auto simp: model_infer_attempts_hashes dest: request_hashes_error)
next
  case (Inr hs)
  note run = run[unfolded model_infer_attempts_hashes Inr sum.case]
  show thesis
  proof (rule attempt_scripted[OF inv, of answers req hs "[]"])
    fix e r1
    assume a1: "attempt (scripted answers) req hs (r, []) = Some ((r1, []), Inl (pick_status e))"
      "sched r1 = sched r" "inflight_gauges r1 = inflight_gauges r" "counters r1 = counters r"
    show thesis by (rule unrouted[OF Inr, of e]) (use run a1 in auto)
  next
    fix i m n r1
    assume d1: "decides (sched r) hs i m" and i: "i < fleet_size r"
      and a1: "attempt (scripted answers) req hs (r, []) =
        Some ((r1, [] @ [(i, req)]), Inr (\<lparr>replica = i, matched_blocks = m, inflight_after = n\<rparr>, answers (length []) i req))"
      and r1: "replicas (sched r1) = (replicas (sched r))[i := after_request (sched r) hs i]"
      "inflight_gauges r1 = (inflight_gauges r)[i := as_i64 (inflight (replicas (sched r) ! i))]"
      "counters r1 = counters r" "router_inv r1" "fleet_size r1 = fleet_size r" "cfg (sched r1) = cfg (sched r)"
      "policy (sched r1) = policy (sched r)"
    consider (ok) resp where "answers 0 i req = Inr resp"
      | (app) st where "answers 0 i req = Inl st" "\<not> is_transport_failure st"
      | (dead) st where "answers 0 i req = Inl st" "is_transport_failure st"
      by (cases "answers 0 i req") auto
    then show thesis
    proof cases
      case ok
      from run a1 ok have "r' = record_served r1 (length hs) \<lparr>replica = i, matched_blocks = m, inflight_after = n\<rparr>"
        "calls = [(i, req)]" "res = Inr resp" by auto
      with r1 ok show thesis
        by (intro single[OF Inr d1]) (simp_all add: transport_failed_def counters_record_served)
    next
      case app
      from run a1 app have "r' = r1" "calls = [(i, req)]" "res = Inl st" by auto
      with r1 app show thesis by (intro single[OF Inr d1]) (simp_all add: transport_failed_def)
    next
      case dead
      then have tf: "transport_failed (answers 0 i req)" by (simp add: transport_failed_def)
      from i r1(5) have i1: "i < fleet_size r1" by simp
      have run2: "(do { r \<leftarrow> router_mark_unhealthy r1 i; last_attempt code_text (scripted answers) req hs (r, [(i, req)]) }) =
        Some ((r', calls), res)" using run a1 dead by simp
      show thesis
        by (rule failover_scripted[OF d1 r1(4) i1 r1(1,7,6,3,2) run2])
          (rule lost[OF Inr d1 _ tf] failover[OF Inr d1 tf]; assumption)+
    qed
  qed
qed


text \<open>The first replica resets the connection, the second answers with an empty response.\<close>

definition empty_response :: model_infer_response where
  "empty_response = \<lparr>resp_model_name = ''m'', resp_model_version = ''1'', resp_id = [], parameters = [], outputs = []\<rparr>"

definition reset_then_ok :: "nat \<Rightarrow> usize \<Rightarrow> model_infer_request \<Rightarrow> status + model_infer_response" where
  "reset_then_ok k i req = (if k = 0 then Inl (status_of Cancelled ''reset'') else Inr empty_response)"

definition demo_unary where
  "demo_unary = model_infer_attempts byte_tokens (\<lambda>_. ''c'') (scripted reset_then_ok)
     (text_request ''hello'') (demo_router, [])"

lemma short_prompt_hashes: "length ts < BLOCK_SIZE \<Longrightarrow> block_hashes ts = []"
  using length_block_hashes[of ts] by simp

lemma hello_hashes: "request_hashes byte_tokens (text_request ''hello'') = Inr []"
  by (simp add: request_hashes_def text_request_def extract_text_def text_input_tensor_def first_bytes_def
      from_utf8_def utf8_lead_def in_byte_range_def hash_prompt_def byte_tokens_def short_prompt_hashes BLOCK_SIZE_def)

lemma demo_unary_runs:
  obtains r' calls where "demo_unary = Some ((r', calls), Inr empty_response)" and "map fst calls = [0, 1]"
    and "map inflight (replicas (sched r')) = [0, 0]" and "counters r' = (1, 0, 0)"
proof -
  have "map_option (\<lambda>((r', calls), res). (map fst calls, res, map inflight (replicas (sched r')), counters r')) demo_unary =
    Some ([0, 1], Inr empty_response, [0, 0], (1, 0, 0))"
    unfolding demo_unary_def model_infer_attempts_hashes hello_hashes sum.case by code_simp
  then show thesis using that by auto
qed


text \<open>The counters count requests, not attempts: a request that is answered adds one request,
  the blocks of its prompt and the matched blocks of the decision that served it, which is the
  last one; a request that fails, after one or two attempts, adds nothing.\<close>

theorem served_once:
  assumes "router_inv r"
    and "model_infer_attempts tok code_text (scripted answers) req (r, []) = Some ((r', calls), res)"
  shows "case res of
      Inl st \<Rightarrow> counters r' = counters r
    | Inr resp \<Rightarrow> (\<exists>hs s m. request_hashes tok req = Inr hs \<and> calls \<noteq> [] \<and>
        decides s hs (fst (last calls)) m \<and>
        requests_total r' = requests_total r + 1 \<and>
        matched_blocks_total r' = matched_blocks_total r + word_of_nat m \<and>
        prompt_blocks_total r' = prompt_blocks_total r + word_of_nat (length hs) \<and>
        (length calls = 1 \<longrightarrow> s = sched r))"
proof (rule unary_scripted[OF assms])
  fix hs i m
  assume "request_hashes tok req = Inr hs" "decides (sched r) hs i m" "calls = [(i, req)]"
    "counters r' = (if isl res then counters r else bump (counters r) m (length hs))"
  then show ?thesis by (cases res) (auto simp: counters_def bump_def)
next
  fix hs i m s j k
  assume "request_hashes tok req = Inr hs" "decides s hs j k" "calls = [(i, req), (j, req)]"
    "counters r' = (if isl res then counters r else bump (counters r) k (length hs))"
  then show ?thesis by (cases res) (auto simp: counters_def bump_def)
qed auto

theorem served_once_witness:
  "\<exists>r' calls. demo_unary = Some ((r', calls), Inr empty_response) \<and> requests_total r' = 1"
proof (rule demo_unary_runs)
  fix r' calls
  assume d: "demo_unary = Some ((r', calls), Inr empty_response)" and calls: "map fst calls = [0, 1]"
  have inv: "router_inv demo_router" unfolding demo_router_def by (rule router_inv_new)
  from served_once[OF inv d[unfolded demo_unary_def]] d show ?thesis
    by (auto simp: demo_router_def router_inner_new_def)
qed

text \<open>C16. Every decision is completed exactly once, on every path: when a request returns, each
  replica has the in-flight count it had before, except that a replica whose call failed in
  transport is out of routing with count zero and an empty cache. Replicas that were not
  called are untouched.\<close>

theorem request_leaves_no_inflight:
  assumes "router_inv r"
    and "model_infer_attempts tok code_text (scripted answers) req (r, []) = Some ((r', calls), res)"
    and "i < fleet_size r"
  shows "if \<exists>k<length calls. fst (calls ! k) = i \<and> transport_failed (answers k i req)
    then replicas (sched r') ! i = dead_replica
    else inflight (replicas (sched r') ! i) = inflight (replicas (sched r) ! i) \<and>
      healthy (replicas (sched r') ! i) = healthy (replicas (sched r) ! i) \<and>
      (i \<notin> fst ` set calls \<longrightarrow> replicas (sched r') ! i = replicas (sched r) ! i)"
proof -
  have i: "i < length (replicas (sched r))" using assms(3) by (simp add: fleet_size_def num_replicas_def)
  show ?thesis
  proof (rule unary_scripted[OF assms(1,2)])
    fix hs a m s j k
    assume "calls = [(a, req), (j, req)]" "a \<noteq> j" "transport_failed (answers 0 a req)"
      "replicas (sched r') = (replicas (sched r))[a := dead_replica,
         j := if transport_failed (answers 1 j req) then dead_replica else after_request (sched r) hs j]"
    then show ?thesis using i by (cases "i = a"; cases "i = j") (auto simp: Ex_less_Suc)
  next
    fix hs a m
    assume "calls = [(a, req)]" "res = answers 0 a req" "\<not> transport_failed res"
      "replicas (sched r') = (replicas (sched r))[a := after_request (sched r) hs a]"
    then show ?thesis using i by (cases "i = a") auto
  next
    fix a
    assume "calls = [(a, req)]" "transport_failed (answers 0 a req)"
      "replicas (sched r') = (replicas (sched r))[a := dead_replica]"
    then show ?thesis using i by (cases "i = a") auto
  qed auto
qed

theorem request_leaves_no_inflight_witness:
  "\<exists>r' calls res. demo_unary = Some ((r', calls), res) \<and> replicas (sched r') ! 0 = dead_replica \<and>
     inflight (replicas (sched r') ! 1) = 0"
proof (rule demo_unary_runs)
  fix r' calls
  assume d: "demo_unary = Some ((r', calls), Inr empty_response)" and calls: "map fst calls = [0, 1]"
  have inv: "router_inv demo_router" unfolding demo_router_def by (rule router_inv_new)
  have size: "0 < fleet_size demo_router" "1 < fleet_size demo_router"
    by (simp_all add: demo_router_def router_inner_new_def fleet_size_def num_replicas_def scheduler_new_def)
  have f: "transport_failed (reset_then_ok 0 j q)" "\<not> transport_failed (reset_then_ok (Suc 0) j q)" for j q
    by (simp_all add: reset_then_ok_def transport_failed_def is_transport_failure_def)
  have calls_nth: "length calls = 2" "fst (calls ! 0) = 0" "fst (calls ! 1) = 1"
    using calls by (auto simp: map_eq_Cons_conv)
  have "inflight (replicas (sched demo_router) ! 1) = 0"
    by (simp add: demo_router_def router_inner_new_def scheduler_new_def new_replica_def)
  with request_leaves_no_inflight[OF inv d[unfolded demo_unary_def] size(1)]
    request_leaves_no_inflight[OF inv d[unfolded demo_unary_def] size(2)] f calls_nth
  have "replicas (sched r') ! 0 = dead_replica \<and> inflight (replicas (sched r') ! 1) = 0"
    by (auto simp: Ex_less_Suc numeral_2_eq_2)
  with d show ?thesis by blast
qed

text \<open>C34. The in-flight gauges. If they show the scheduler's counts before a request, they show the
  same values after it. For a replica that the request marked unhealthy the count is reset
  but the gauge is not, so it keeps showing the requests that were in flight there.\<close>

theorem gauges_after_request:
  assumes "router_inv r"
    and "inflight_gauges r = map (\<lambda>x. as_i64 (inflight x)) (replicas (sched r))"
    and "model_infer_attempts tok code_text (scripted answers) req (r, []) = Some ((r', calls), res)"
  shows "inflight_gauges r' = inflight_gauges r \<and>
    (\<forall>i<fleet_size r. replicas (sched r') ! i = dead_replica \<longrightarrow>
      inflight (replicas (sched r') ! i) = 0 \<and> inflight_gauges r' ! i = as_i64 (inflight (replicas (sched r) ! i)))"
proof -
  have fresh: "(inflight_gauges r)[i := as_i64 (inflight (replicas (sched r) ! i))] = inflight_gauges r" for i
    using assms(2) by (cases "i < length (replicas (sched r))") (simp_all add: list_update_same_conv list_update_beyond)
  have "inflight_gauges r' = inflight_gauges r"
    by (rule unary_scripted[OF assms(1,3)]) (simp_all add: fresh)
  then show ?thesis using assms(2) by (simp add: fleet_size_def num_replicas_def dead_replica_def)
qed

text \<open>Another request is in flight on replica 0 when a connection to it is reset.\<close>

definition busy_router :: router_inner where
  "busy_router = demo_router\<lparr>
     sched := (sched demo_router)\<lparr>replicas := [new_replica\<lparr>inflight := 1\<rparr>]\<rparr>, inflight_gauges := [1]\<rparr>"

theorem gauges_after_request_witness:
  "\<exists>r' calls res. model_infer_attempts byte_tokens (\<lambda>_. ''c'') (scripted reset_then_ok) (text_request ''hello'') (busy_router, []) =
     Some ((r', calls), res) \<and> inflight (replicas (sched r') ! 0) = 0 \<and> inflight_gauges r' = [1]"
proof -
  have inv: "router_inv busy_router"
    by (simp add: router_inv_def busy_router_def demo_router_def router_inner_new_def sched_inv_def scheduler_new_def
        num_replicas_def replica_inv_def new_replica_def pc.inv_new pc.blocks_new demo_config_def)
  have gauges: "inflight_gauges busy_router = map (\<lambda>x. as_i64 (inflight x)) (replicas (sched busy_router))"
    by (simp add: busy_router_def as_i64_small)
  have "map_option (\<lambda>((r', calls), res). healthy (replicas (sched r') ! 0))
      (model_infer_attempts byte_tokens (\<lambda>_. ''c'') (scripted reset_then_ok) (text_request ''hello'') (busy_router, [])) = Some False"
    unfolding model_infer_attempts_hashes hello_hashes sum.case by code_simp
  then obtain r' calls res where run: "model_infer_attempts byte_tokens (\<lambda>_. ''c'') (scripted reset_then_ok) (text_request ''hello'') (busy_router, []) = Some ((r', calls), res)"
    and h: "\<not> healthy (replicas (sched r') ! 0)" by auto
  have size: "fleet_size busy_router = 1" by (simp add: busy_router_def fleet_size_def num_replicas_def)
  have old: "healthy (replicas (sched busy_router) ! 0)" "inflight_gauges busy_router = [1]"
    by (simp_all add: busy_router_def new_replica_def)
  have "replicas (sched r') ! 0 = dead_replica"
  proof (rule unary_scripted[OF inv run])
    fix hs i m assume "replicas (sched r') = (replicas (sched busy_router))[i := after_request (sched busy_router) hs i]"
    with h old size show ?thesis by (cases "i = 0") (auto simp: fleet_size_def num_replicas_def)
  next
    fix i assume "replicas (sched r') = (replicas (sched busy_router))[i := dead_replica]"
    with h old size show ?thesis by (cases "i = 0") (auto simp: fleet_size_def num_replicas_def)
  next
    fix hs i m s j k
    assume "decides s hs j k" "replicas s = (replicas (sched busy_router))[i := dead_replica]" "decides (sched busy_router) hs i m" "i \<noteq> j"
    then show ?thesis using size decides_available[of s hs j k] decides_available[of "sched busy_router" hs i m]
      by (simp add: fleet_size_def num_replicas_def)
  qed (use h old in auto)
  with gauges_after_request[OF inv gauges run] run size old(2) show ?thesis by auto
qed

subsection \<open>Streams\<close>

text \<open>What an upstream stream turns into.\<close>

definition stream_reply ::
  "(status_code \<Rightarrow> string) \<Rightarrow> status + model_stream_infer_response list \<times> status option \<Rightarrow>
    (status + model_stream_infer_response) list" where
  "stream_reply code_text a =
     (case a of
        Inl st \<Rightarrow> [Inr (stream_error (''upstream connect: '' @ fmt_status code_text st))]
      | Inr (chunks, None) \<Rightarrow> map Inr chunks
      | Inr (chunks, Some st) \<Rightarrow> map Inr chunks @ [Inr (stream_error (''upstream: '' @ fmt_status code_text st))])"

lemma forward_chunks_sends:
  "sends tx (stream_reply code_text (Inr (chunks, fin))) (fst (forward_chunks code_text chunks fin tx)) \<and>
   (snd (forward_chunks code_text chunks fin tx) \<longrightarrow> gone_after tx \<noteq> None)"
proof (induction code_text chunks fin tx rule: forward_chunks.induct)
  case (1 code_text tx)
  then show ?case by (simp add: stream_reply_def)
next
  case (2 code_text st tx)
  then show ?case by (simp add: stream_reply_def tx_send_sends)
next
  case (3 code_text c cs fin tx)
  have reply: "stream_reply code_text (Inr (c # cs, fin)) = [Inr c] @ stream_reply code_text (Inr (cs, fin))"
    by (simp add: stream_reply_def split: option.splits)
  show ?case
  proof (cases "tx_open tx")
    case True
    define tx1 where "tx1 = tx\<lparr>sent := sent tx @ [Inr c]\<rparr>"
    from True have s: "tx_send (Inr c) tx = (tx1, True)" by (simp add: tx_send_def tx1_def)
    from 3[of "(tx1, True)" tx1 True] s
    have IH: "sends tx1 (stream_reply code_text (Inr (cs, fin))) (fst (forward_chunks code_text cs fin tx1))"
      "snd (forward_chunks code_text cs fin tx1) \<longrightarrow> gone_after tx1 \<noteq> None" by simp_all
    have "sends tx [Inr c] tx1" using tx_send_sends[of tx "Inr c"] s by simp
    from sends_append[OF this IH(1)] IH(2) show ?thesis by (simp add: s reply tx1_def)
  next
    case False
    then have "tx_send (Inr c) tx = (tx, False)" by (simp add: tx_send_def)
    with sends_blocked[OF False] False show ?thesis by (simp add: tx_open_def split: option.splits)
  qed
qed

text \<open>An upstream whose answer to a request is given and that leaves the router alone.\<close>

definition scripted_stream ::
  "(usize \<Rightarrow> model_infer_request \<Rightarrow> status + model_stream_infer_response list \<times> status option) \<Rightarrow> unit stream_upstream" where
  "scripted_stream answers i req = (\<lambda>rw. (rw, answers i req))"

definition open_failed :: "status + 'a \<Rightarrow> bool" where
  "open_failed a = (case a of Inl st \<Rightarrow> is_transport_failure st | Inr x \<Rightarrow> False)"

text \<open>No replica keeps a request of the stream: it has the count and the health it had, or it is
  out of routing because a stream to it could not be opened.\<close>

definition settled :: "(usize \<Rightarrow> model_infer_request \<Rightarrow> status + 'a) \<Rightarrow> router_inner \<Rightarrow> router_inner \<Rightarrow> bool" where
  "settled answers r r' =
     (fleet_size r' = fleet_size r \<and>
      (\<forall>i<fleet_size r.
         inflight (replicas (sched r') ! i) = inflight (replicas (sched r) ! i) \<and>
         healthy (replicas (sched r') ! i) = healthy (replicas (sched r) ! i) \<or>
         inflight (replicas (sched r') ! i) = 0 \<and> \<not> healthy (replicas (sched r') ! i) \<and>
         (\<exists>req. open_failed (answers i req))))"

lemma settled_refl: "sched r' = sched r \<Longrightarrow> settled answers r r'"
  by (simp add: settled_def fleet_size_def)

lemma settled_nth:
  "settled answers r r' \<Longrightarrow> i < fleet_size r \<Longrightarrow>
    inflight (replicas (sched r') ! i) = inflight (replicas (sched r) ! i) \<and>
    healthy (replicas (sched r') ! i) = healthy (replicas (sched r) ! i) \<or>
    inflight (replicas (sched r') ! i) = 0 \<and> \<not> healthy (replicas (sched r') ! i) \<and>
    (\<exists>req. open_failed (answers i req))"
  by (simp add: settled_def)

lemma settled_trans:
  assumes "settled answers r s" and "settled answers s t"
  shows "settled answers r t"
proof -
  have size: "fleet_size s = fleet_size r" "fleet_size t = fleet_size r" using assms by (simp_all add: settled_def)
  show ?thesis
    unfolding settled_def
  proof (intro conjI allI impI)
    fix i assume "i < fleet_size r"
    then show "inflight (replicas (sched t) ! i) = inflight (replicas (sched r) ! i) \<and>
        healthy (replicas (sched t) ! i) = healthy (replicas (sched r) ! i) \<or>
        inflight (replicas (sched t) ! i) = 0 \<and> \<not> healthy (replicas (sched t) ! i) \<and> (\<exists>req. open_failed (answers i req))"
      using settled_nth[OF assms(1), of i] settled_nth[OF assms(2), of i] size by auto
  qed (rule size)
qed

text \<open>The replies the code allows for a message of the client.\<close>

definition reply_of ::
  "(string \<Rightarrow> string + u32 list) \<Rightarrow> (status_code \<Rightarrow> string) \<Rightarrow>
    (usize \<Rightarrow> model_infer_request \<Rightarrow> status + model_stream_infer_response list \<times> status option) \<Rightarrow>
    model_infer_request \<Rightarrow> (status + model_stream_infer_response) list \<Rightarrow> bool" where
  "reply_of tok code_text answers req out =
     (case request_hashes tok req of
        Inl st \<Rightarrow> out = [Inr (stream_error (fmt_status code_text st))]
      | Inr hs \<Rightarrow> (\<exists>e. out = [Inr (stream_error (fmt_status code_text (pick_status e)))]) \<or>
          (\<exists>i. out = stream_reply code_text (answers i req)))"

lemma stream_request_hashes:
  "stream_request tok code_text upstream req rw tx =
     (case request_hashes tok req of
        Inl st \<Rightarrow> Some (rw, fst (tx_send (Inr (stream_error (fmt_status code_text st))) tx), False)
      | Inr hashes \<Rightarrow> do {
          (r, picked) \<leftarrow> pick_replica (fst rw) hashes;
          (case picked of
             Inl st \<Rightarrow>
               Some ((r, snd rw), fst (tx_send (Inr (stream_error (fmt_status code_text st))) tx), False)
           | Inr d \<Rightarrow> do {
               let r = record_served r (length hashes) d;
               let ((r, w), opened) = upstream (replica d) req (r, snd rw);
               (case opened of
                  Inr (chunks, fin) \<Rightarrow> do {
                    let (tx, gone) = forward_chunks code_text chunks fin tx;
                    r \<leftarrow> router_complete r (replica d);
                    Some ((r, w), tx, gone)
                  }
                | Inl st \<Rightarrow> do {
                    r \<leftarrow> (if is_transport_failure st then router_mark_unhealthy r (replica d) else Some r);
                    let tx = fst (tx_send (Inr (stream_error (''upstream connect: '' @ fmt_status code_text st))) tx);
                    r \<leftarrow> router_complete r (replica d);
                    Some ((r, w), tx, False)
                  })
             })
        })"
  unfolding stream_request_def request_hashes_def by (cases "extract_text req") simp_all

text \<open>Completion of a request, on the fields it changes.\<close>

lemma router_complete_eq:
  assumes inv: "router_inv r" and i: "i < fleet_size r"
  obtains r' where "router_complete r i = Some r'" "router_inv r'" "fleet_size r' = fleet_size r"
    "replicas (sched r') = (replicas (sched r))[i := (replicas (sched r) ! i)\<lparr>inflight := inflight (replicas (sched r) ! i) - 1\<rparr>]"
    "counters r' = counters r"
proof -
  from router_complete_ok[OF assms] obtain r' where r': "router_complete r i = Some r'" "router_inv r'"
    "fleet_size r' = fleet_size r" by blast
  have "i < length (replicas (sched r))" using i by (simp add: fleet_size_def num_replicas_def)
  with r' show thesis
    by (intro that[of r'])
      (auto simp: router_complete_def complete_def inflight_of_def set_gauge_def bind_eq_Some_conv vec_get_def
        counters_def split: if_splits)
qed

lemma stream_served:
  assumes inv: "router_inv r1" and i: "i < fleet_size r1" and size: "fleet_size r1 = fleet_size r"
    and reps: "replicas (sched r1) = (replicas (sched r))[i := routed (sched r) hs (replicas (sched r) ! i)]"
    and fin: "opened = Inr (chunks, fin)"
  shows "\<exists>r' tx' stop.
    (do { let (tx, gone) = forward_chunks code_text chunks fin tx; r \<leftarrow> router_complete r1 i; Some ((r, ()), tx, gone) }) =
      Some ((r', ()), tx', stop) \<and> router_inv r' \<and> settled answers r r' \<and> counters r' = counters r1 \<and>
    sends tx (stream_reply code_text opened) tx' \<and> (stop \<longrightarrow> gone_after tx \<noteq> None)"
proof -
  obtain tx' gone where fwd: "forward_chunks code_text chunks fin tx = (tx', gone)" by (cases "forward_chunks code_text chunks fin tx")
  from forward_chunks_sends[of tx code_text chunks fin] fwd fin
  have tx': "sends tx (stream_reply code_text opened) tx'" "gone \<longrightarrow> gone_after tx \<noteq> None" by simp_all
  have i': "i < length (replicas (sched r))" using i size by (simp add: fleet_size_def num_replicas_def)
  show ?thesis
  proof (rule router_complete_eq[OF inv i])
    fix r' assume r': "router_complete r1 i = Some r'" "router_inv r'" "fleet_size r' = fleet_size r1" "counters r' = counters r1"
      "replicas (sched r') = (replicas (sched r1))[i := (replicas (sched r1) ! i)\<lparr>inflight := inflight (replicas (sched r1) ! i) - 1\<rparr>]"
    have "settled answers r r'"
      using r'(3,5) reps size i' by (auto simp: settled_def nth_list_update routed_def)
    with r' fwd tx' show ?thesis by simp
  qed
qed

lemma stream_unopened:
  assumes inv: "router_inv r1" and i: "i < fleet_size r1" and size: "fleet_size r1 = fleet_size r"
    and reps: "replicas (sched r1) = (replicas (sched r))[i := routed (sched r) hs (replicas (sched r) ! i)]"
    and ans: "answers i req = Inl st"
  shows "\<exists>r'.
    (do { r \<leftarrow> (if is_transport_failure st then router_mark_unhealthy r1 i else Some r1);
          r \<leftarrow> router_complete r i; Some r }) = Some r' \<and>
    router_inv r' \<and> settled answers r r' \<and> counters r' = counters r1"
proof -
  have i': "i < length (replicas (sched r))" using i size by (simp add: fleet_size_def num_replicas_def)
  show ?thesis
  proof (cases "is_transport_failure st")
    case False
    show ?thesis
    proof (rule router_complete_eq[OF inv i])
      fix r' assume r': "router_complete r1 i = Some r'" "router_inv r'" "fleet_size r' = fleet_size r1" "counters r' = counters r1"
        "replicas (sched r') = (replicas (sched r1))[i := (replicas (sched r1) ! i)\<lparr>inflight := inflight (replicas (sched r1) ! i) - 1\<rparr>]"
      have "settled answers r r'"
        using r'(3,5) reps size i' by (auto simp: settled_def nth_list_update routed_def)
      with r' False show ?thesis by simp
    qed
  next
    case True
    then have dead: "open_failed (answers i req)" using ans by (simp add: open_failed_def)
    show ?thesis
    proof (rule router_mark_unhealthy_cases[OF inv i])
      fix r2 assume r2: "router_mark_unhealthy r1 i = Some r2" "replicas (sched r2) = (replicas (sched r1))[i := dead_replica]"
        "counters r2 = counters r1" "router_inv r2" "fleet_size r2 = fleet_size r1"
      from i r2(5) have i2: "i < fleet_size r2" by simp
      show ?thesis
      proof (rule router_complete_eq[OF r2(4) i2])
        fix r' assume r': "router_complete r2 i = Some r'" "router_inv r'" "fleet_size r' = fleet_size r2" "counters r' = counters r2"
          "replicas (sched r') = (replicas (sched r2))[i := (replicas (sched r2) ! i)\<lparr>inflight := inflight (replicas (sched r2) ! i) - 1\<rparr>]"
        have "settled answers r r'"
          using r'(3,5) r2(2,5) reps size i' dead by (auto simp: settled_def nth_list_update dead_replica_def)
        with r' r2 True show ?thesis by simp
      qed
    qed
  qed
qed

lemma stream_request_picked:
  assumes inv: "router_inv r" and hs: "request_hashes tok req = Inr hs" and i: "i < fleet_size r"
    and p: "pick_replica r hs = Some (after_pick r hs i, Inr (picked_decision r i m))"
  shows "\<exists>r' tx' stop out.
    stream_request tok code_text (scripted_stream answers) req (r, ()) tx = Some ((r', ()), tx', stop) \<and>
    router_inv r' \<and> settled answers r r' \<and> sends tx out tx' \<and> reply_of tok code_text answers req out \<and>
    (stop \<longrightarrow> gone_after tx \<noteq> None)"
proof -
  let ?r2 = "record_served (after_pick r hs i) (length hs) (picked_decision r i m)"
  from pick_replica_ok[OF inv, of hs] p have "router_inv (after_pick r hs i)" "fleet_size (after_pick r hs i) = fleet_size r"
    by simp_all
  then have r2: "router_inv ?r2" "i < fleet_size ?r2" "fleet_size ?r2 = fleet_size r" using i by simp_all
  have reps: "replicas (sched ?r2) = (replicas (sched r))[i := routed (sched r) hs (replicas (sched r) ! i)]" by simp
  show ?thesis
  proof (cases "answers i req")
    case opened: (Inr x)
    obtain chunks fin where x: "answers i req = Inr (chunks, fin)" using opened by (cases x) simp
    from stream_served[OF r2 reps x, of code_text tx answers] obtain r' tx' stop where
      r': "(do { let (tx, gone) = forward_chunks code_text chunks fin tx; r \<leftarrow> router_complete ?r2 i; Some ((r, ()), tx, gone) }) =
        Some ((r', ()), tx', stop)" "router_inv r'" "settled answers r r'"
      "sends tx (stream_reply code_text (answers i req)) tx'" "stop \<longrightarrow> gone_after tx \<noteq> None" by blast
    have "stream_request tok code_text (scripted_stream answers) req (r, ()) tx = Some ((r', ()), tx', stop)"
      using p hs x r'(1) by (simp add: stream_request_hashes scripted_stream_def)
    moreover have "reply_of tok code_text answers req (stream_reply code_text (answers i req))"
      using hs by (auto simp: reply_of_def)
    ultimately show ?thesis using r'(2-5) by blast
  next
    case st: (Inl st)
    from stream_unopened[where answers = answers, OF r2 reps st] obtain r' where
      r': "(do { r \<leftarrow> (if is_transport_failure st then router_mark_unhealthy ?r2 i else Some ?r2);
        r \<leftarrow> router_complete r i; Some r }) = Some r'" "router_inv r'" "settled answers r r'" by blast
    have "stream_request tok code_text (scripted_stream answers) req (r, ()) tx =
      Some ((r', ()), fst (tx_send (Inr (stream_error (''upstream connect: '' @ fmt_status code_text st))) tx), False)"
      using p hs st r'(1) by (auto simp: stream_request_hashes scripted_stream_def bind_eq_Some_conv split: if_splits)
    moreover have "reply_of tok code_text answers req [Inr (stream_error (''upstream connect: '' @ fmt_status code_text st))]"
      using hs st by (auto simp: reply_of_def stream_reply_def intro!: exI[of _ i])
    ultimately show ?thesis using r'(2,3) tx_send_sends by blast
  qed
qed

lemma stream_request_ok:
  assumes inv: "router_inv r"
  shows "\<exists>r' tx' stop out.
    stream_request tok code_text (scripted_stream answers) req (r, ()) tx = Some ((r', ()), tx', stop) \<and>
    router_inv r' \<and> settled answers r r' \<and> sends tx out tx' \<and> reply_of tok code_text answers req out \<and>
    (stop \<longrightarrow> gone_after tx \<noteq> None)"
proof (cases "request_hashes tok req")
  case (Inl st)
  with inv tx_send_sends settled_refl[OF refl] show ?thesis
    by (fastforce simp: stream_request_hashes reply_of_def)
next
  case (Inr hs)
  show ?thesis
  proof (rule pick_replica_cases[OF inv, of hs])
    fix e
    let ?r1 = "r\<lparr>routing_observations := routing_observations r + 1\<rparr>"
    assume p: "pick_replica r hs = Some (?r1, Inl (pick_status e))"
    have "router_inv ?r1" "settled answers r ?r1" using inv by (simp_all add: router_inv_def settled_refl)
    with p Inr tx_send_sends show ?thesis by (fastforce simp: stream_request_hashes reply_of_def)
  qed (rule stream_request_picked[OF inv Inr])
qed

definition message_reply ::
  "(string \<Rightarrow> string + u32 list) \<Rightarrow> (status_code \<Rightarrow> string) \<Rightarrow>
    (usize \<Rightarrow> model_infer_request \<Rightarrow> status + model_stream_infer_response list \<times> status option) \<Rightarrow>
    status + model_infer_request \<Rightarrow> (status + model_stream_infer_response) list \<Rightarrow> bool" where
  "message_reply tok code_text answers m out =
     (case m of Inl e \<Rightarrow> out = [Inl e] | Inr req \<Rightarrow> reply_of tok code_text answers req out)"

lemma message_reply_simps [simp]:
  "message_reply tok code_text answers (Inl e) out \<longleftrightarrow> out = [Inl e]"
  "message_reply tok code_text answers (Inr req) out \<longleftrightarrow> reply_of tok code_text answers req out"
  by (simp_all add: message_reply_def)

lemma stream_ok:
  assumes "router_inv r"
  shows "\<exists>r' tx' outs.
    model_stream_infer tok code_text (scripted_stream answers) msgs (r, ()) tx = Some ((r', ()), tx') \<and>
    router_inv r' \<and> settled answers r r' \<and> sends tx (concat outs) tx' \<and> length outs \<le> length msgs \<and>
    list_all2 (message_reply tok code_text answers) (take (length outs) msgs) outs \<and>
    (gone_after tx = None \<longrightarrow> (\<forall>m\<in>set msgs. \<not> isl m) \<longrightarrow> length outs = length msgs)"
  using assms
proof (induction msgs arbitrary: r tx)
  case Nil
  have "settled answers r r" by (rule settled_refl) simp
  with Nil show ?case by (intro exI[of _ r] exI[of _ tx] exI[of _ "[]"]) simp
next
  case (Cons m msgs)
  show ?case
  proof (cases m)
    case (Inl e)
    have "settled answers r r" by (rule settled_refl) simp
    with Cons.prems Inl tx_send_sends[of tx "Inl e"] show ?thesis
      by (intro exI[of _ r] exI[of _ "fst (tx_send (Inl e) tx)"] exI[of _ "[[Inl e]]"]) simp
  next
    case (Inr req)
    from stream_request_ok[OF Cons.prems, of tok code_text answers req tx] obtain r1 tx1 stop out where
      s1: "stream_request tok code_text (scripted_stream answers) req (r, ()) tx = Some ((r1, ()), tx1, stop)"
      "router_inv r1" "settled answers r r1" "sends tx out tx1" "reply_of tok code_text answers req out"
      "stop \<longrightarrow> gone_after tx \<noteq> None" by blast
    show ?thesis
    proof (cases stop)
      case True
      with s1 Inr show ?thesis
        by (intro exI[of _ r1] exI[of _ tx1] exI[of _ "[out]"]) auto
    next
      case False
      from Cons.IH[OF s1(2), of tx1] obtain r' tx' outs where
        s2: "model_stream_infer tok code_text (scripted_stream answers) msgs (r1, ()) tx1 = Some ((r', ()), tx')"
        "router_inv r'" "settled answers r1 r'" "sends tx1 (concat outs) tx'" "length outs \<le> length msgs"
        "list_all2 (message_reply tok code_text answers) (take (length outs) msgs) outs"
        "gone_after tx1 = None \<longrightarrow> (\<forall>m\<in>set msgs. \<not> isl m) \<longrightarrow> length outs = length msgs"
        by (elim exE conjE) (rule that; assumption)
      have "gone_after tx1 = gone_after tx" using s1(4) by (simp add: sends_def)
      with s1 s2 False Inr settled_trans[OF s1(3) s2(3)] sends_append[OF s1(4) s2(4)] show ?thesis
        by (intro exI[of _ r'] exI[of _ tx'] exI[of _ "out # outs"]) simp
    qed
  qed
qed

text \<open>A client stream never panics, and when its task ends, the client gone or not, every
  decision it made was completed: no replica has a request of the stream left in its count,
  and only replicas to which a stream could not be opened left the routing. A failure in the
  middle of a stream marks nothing unhealthy.\<close>

theorem stream_leaves_no_inflight:
  assumes "router_inv r"
  shows "\<exists>r' tx'. model_stream_infer tok code_text (scripted_stream answers) msgs (r, ()) tx = Some ((r', ()), tx') \<and>
    router_inv r' \<and> fleet_size r' = fleet_size r \<and>
    (\<forall>i<fleet_size r.
      inflight (replicas (sched r') ! i) = inflight (replicas (sched r) ! i) \<and>
      healthy (replicas (sched r') ! i) = healthy (replicas (sched r) ! i) \<or>
      inflight (replicas (sched r') ! i) = 0 \<and> \<not> healthy (replicas (sched r') ! i) \<and>
      (\<exists>req. open_failed (answers i req)))"
  using stream_ok[OF assms] unfolding settled_def by blast

definition two_chunks_then_error :: "usize \<Rightarrow> model_infer_request \<Rightarrow> status + model_stream_infer_response list \<times> status option" where
  "two_chunks_then_error i req =
     Inr ([stream_chunk empty_response, stream_chunk empty_response], Some (status_of Unavailable ''gone''))"

theorem stream_leaves_no_inflight_witness:
  "\<exists>r' tx'. model_stream_infer byte_tokens (\<lambda>_. ''c'') (scripted_stream two_chunks_then_error)
      [Inr (text_request ''hello'')] (demo_router, ()) \<lparr>sent = [], gone_after = Some 1\<rparr> = Some ((r', ()), tx') \<and>
    inflight (replicas (sched r') ! 0) = 0 \<and> healthy (replicas (sched r') ! 0)"
proof -
  have inv: "router_inv demo_router" unfolding demo_router_def by (rule router_inv_new)
  have new: "0 < fleet_size demo_router" "inflight (replicas (sched demo_router) ! 0) = 0" "healthy (replicas (sched demo_router) ! 0)"
    by (simp_all add: demo_router_def router_inner_new_def fleet_size_def num_replicas_def scheduler_new_def new_replica_def)
  have "\<not> open_failed (two_chunks_then_error i req)" for i req
    by (simp add: open_failed_def two_chunks_then_error_def)
  with stream_leaves_no_inflight[OF inv, of byte_tokens "\<lambda>_. ''c''" two_chunks_then_error
      "[Inr (text_request ''hello'')]" "\<lparr>sent = [], gone_after = Some 1\<rparr>"] new
  show ?thesis by metis
qed



subsection \<open>The health prober\<close>

definition probed :: "(usize \<times> bool) list \<Rightarrow> usize \<Rightarrow> replica_state \<Rightarrow> replica_state" where
  "probed results i r =
     (case map_of results i of
        None \<Rightarrow> r
      | Some alive \<Rightarrow> if alive then r\<lparr>healthy := True\<rparr> else if healthy r then dead_replica else r)"

lemma apply_probes_eq:
  assumes "distinct (map fst results)" and "\<forall>i\<in>fst ` set results. i < length (replicas s)"
  shows "\<exists>s'. apply_probes results s n = Some (s', n + int (length (filter snd results))) \<and>
    length (replicas s') = length (replicas s) \<and> policy s' = policy s \<and> cfg s' = cfg s \<and> rr_next s' = rr_next s \<and>
    (\<forall>i<length (replicas s). replicas s' ! i = probed results i (replicas s ! i))"
  using assms
proof (induction results arbitrary: s n)
  case Nil
  then show ?case by (simp add: probed_def)
next
  case (Cons p results)
  obtain i alive where p: "p = (i, alive)" by (cases p)
  from Cons.prems p have i: "i < length (replicas s)" and notin: "i \<notin> fst ` set results"
    and rest: "distinct (map fst results)" "\<forall>j\<in>fst ` set results. j < length (replicas s)" by auto
  have none: "map_of results i = None" using notin by (simp add: map_of_eq_None_iff)
  define s1 where "s1 = s\<lparr>replicas := (replicas s)[i := probed [p] i (replicas s ! i)]\<rparr>"
  have dead: "(replicas s ! i)\<lparr>healthy := False, inflight := 0, cache := prefix_cache_new\<rparr> = dead_replica"
    by (simp add: dead_replica_def)
  have step: "apply_probes (p # results) s n = apply_probes results s1 (n + (if alive then 1 else 0))"
    using i by (simp add: p s1_def probed_def is_healthy_def mark_healthy_def mark_unhealthy_def vec_get_def
        dead list_update_id)
  have len: "length (replicas s1) = length (replicas s)" by (simp add: s1_def)
  from Cons.IH[OF rest(1), of s1 "n + (if alive then 1 else 0)"] rest(2) len obtain s' where
    s': "apply_probes results s1 (n + (if alive then 1 else 0)) =
        Some (s', n + (if alive then 1 else 0) + int (length (filter snd results)))"
      "length (replicas s') = length (replicas s)" "policy s' = policy s1" "cfg s' = cfg s1" "rr_next s' = rr_next s1"
      "\<forall>j<length (replicas s). replicas s' ! j = probed results j (replicas s1 ! j)" by auto
  have "replicas s' ! j = probed (p # results) j (replicas s ! j)" if "j < length (replicas s)" for j
  proof (cases "j = i")
    case True
    with s'(6) i none show ?thesis by (simp add: s1_def p probed_def)
  next
    case False
    then have "replicas s1 ! j = replicas s ! j" by (simp add: s1_def)
    with s'(6) that have "replicas s' ! j = probed results j (replicas s ! j)" by simp
    moreover have "probed (p # results) j (replicas s ! j) = probed results j (replicas s ! j)"
      using False by (simp add: p probed_def)
    ultimately show ?thesis by simp
  qed
  with s' step show ?case by (simp add: s1_def p)
qed

text \<open>A pass of the prober: if each replica is probed at most once, every live replica is in
  routing with its cache and count as they were, a dead one that was in routing loses both, a
  replica without a result is left alone, and the gauge is the number of live probes. The
  order in which the results arrive does not matter.\<close>

theorem probe_pass_effect:
  assumes "distinct (map fst results)" and "\<forall>i\<in>fst ` set results. i < fleet_size r"
  shows "\<exists>r'. probe_pass results r = Some r' \<and>
    healthy_replicas r' = int (card {i. (i, True) \<in> set results}) \<and> fleet_size r' = fleet_size r \<and>
    (\<forall>i<fleet_size r. replicas (sched r') ! i =
      (if (i, True) \<in> set results then (replicas (sched r) ! i)\<lparr>healthy := True\<rparr>
       else if (i, False) \<in> set results \<and> healthy (replicas (sched r) ! i)
         then \<lparr>cache = prefix_cache_new, inflight = 0, healthy = False\<rparr>
       else replicas (sched r) ! i))"
proof -
  have range: "\<forall>i\<in>fst ` set results. i < length (replicas (sched r))"
    using assms(2) by (simp add: fleet_size_def num_replicas_def)
  from apply_probes_eq[OF assms(1) range, of 0] obtain s' where s': "apply_probes results (sched r) 0 = Some (s', int (length (filter snd results)))"
    "length (replicas s') = length (replicas (sched r))"
    "\<forall>i<length (replicas (sched r)). replicas s' ! i = probed results i (replicas (sched r) ! i)" by auto
  have dist: "distinct results" using assms(1) by (simp add: distinct_map)
  have "{i. (i, True) \<in> set results} = fst ` set (filter snd results)" by force
  moreover have "card (fst ` set (filter snd results)) = length (filter snd results)"
  proof -
    have "inj_on fst (set (filter snd results))" using assms(1) by (auto simp: distinct_map inj_on_def)
    then have "card (fst ` set (filter snd results)) = card (set (filter snd results))" by (rule card_image)
    also have "\<dots> = length (filter snd results)" using dist by (intro distinct_card) simp
    finally show ?thesis .
  qed
  ultimately have "card {i. (i, True) \<in> set results} = length (filter snd results)" by simp
  moreover have "probed results i x =
      (if (i, True) \<in> set results then x\<lparr>healthy := True\<rparr>
       else if (i, False) \<in> set results \<and> healthy x then dead_replica else x)" for i x
    unfolding map_of_eq_Some_iff[OF assms(1), symmetric] probed_def by (auto split: option.splits)
  ultimately show ?thesis using s' by (simp add: probe_pass_def fleet_size_def num_replicas_def dead_replica_def)
qed

theorem probe_pass_effect_witness:
  "\<exists>r'. probe_pass [(1, True), (0, False)] demo_router = Some r' \<and> \<not> healthy (replicas (sched r') ! 0) \<and>
     healthy (replicas (sched r') ! 1)"
proof -
  have size: "fleet_size demo_router = 2"
    by (simp add: demo_router_def router_inner_new_def fleet_size_def num_replicas_def scheduler_new_def)
  have new: "healthy (replicas (sched demo_router) ! 0)"
    by (simp add: demo_router_def router_inner_new_def scheduler_new_def new_replica_def)
  from probe_pass_effect[of "[(1, True), (0, False)]" demo_router] size new show ?thesis by auto
qed

subsection \<open>Readiness and metadata\<close>

lemma find_upt_first: "find P [0..<n] = Some i \<longleftrightarrow> i < n \<and> P i \<and> (\<forall>j<i. \<not> P j)"
  by (auto simp: find_Some_iff)

text \<open>The router is ready exactly if some replica is in routing. Metadata requests go to the first
  replica in routing, saturated or not, and are answered by it; they fail with \<open>Unavailable\<close>
  exactly when the router is not ready, and change nothing.\<close>

theorem ready_and_metadata:
  assumes "router_inv r"
  shows "(is_ready (server_ready r) \<longleftrightarrow> (\<exists>i<fleet_size r. healthy (replicas (sched r) ! i))) \<and>
    (if is_ready (server_ready r)
     then \<exists>i<fleet_size r. healthy (replicas (sched r) ! i) \<and> (\<forall>j<i. \<not> healthy (replicas (sched r) ! j)) \<and>
       model_metadata upstream req r = Some (upstream i req)
     else model_metadata upstream req r = Some (Inl (status_of Unavailable ''no healthy replicas'')))"
proof -
  let ?n = "num_replicas (sched r)" and ?h = "\<lambda>i. is_healthy (sched r) i = Some True"
  have h: "?h i \<longleftrightarrow> healthy (replicas (sched r) ! i)" if "i < ?n" for i
    using that by (simp add: is_healthy_def vec_get_def num_replicas_def)
  have ready: "is_ready (server_ready r) \<longleftrightarrow> (\<exists>i<?n. ?h i)" by (auto simp: server_ready_def list_ex_iff)
  show ?thesis
  proof (cases "find ?h [0..<?n]")
    case None
    then have "\<not> is_ready (server_ready r)" unfolding ready by (auto simp: find_None_iff)
    with None ready h show ?thesis by (auto simp: model_metadata_def fleet_size_def)
  next
    case (Some i)
    then have "i < ?n \<and> ?h i \<and> (\<forall>j<i. \<not> ?h j)" by (rule find_upt_first[THEN iffD1])
    then have i: "i < ?n" "?h i" "\<forall>j<i. \<not> ?h j" by blast+
    then have "i < length (inflight_gauges r)" using assms by (simp add: router_inv_def)
    with Some have "model_metadata upstream req r = Some (upstream i req)" by (simp add: model_metadata_def)
    moreover have "\<forall>j<i. \<not> healthy (replicas (sched r) ! j)" using i h by auto
    moreover have "is_ready (server_ready r)" using i unfolding ready by blast
    ultimately show ?thesis using i ready h unfolding fleet_size_def by auto
  qed
qed

theorem ready_and_metadata_witness:
  "is_ready (server_ready demo_router) \<and> \<not> is_ready (server_ready (demo_router\<lparr>sched := (sched demo_router)\<lparr>replicas := []\<rparr>, inflight_gauges := []\<rparr>))"
proof -
  have size: "fleet_size demo_router = 2" "healthy (replicas (sched demo_router) ! 0)"
    by (simp_all add: demo_router_def router_inner_new_def fleet_size_def num_replicas_def scheduler_new_def new_replica_def)
  have inv: "router_inv demo_router" unfolding demo_router_def by (rule router_inv_new)
  have inv2: "router_inv (demo_router\<lparr>sched := (sched demo_router)\<lparr>replicas := []\<rparr>, inflight_gauges := []\<rparr>)"
    by (simp add: router_inv_def sched_inv_def num_replicas_def)
  show ?thesis
    using ready_and_metadata[OF inv, of "\<lambda>i req. Inl (status_of Internal [])" "\<lparr>asked_name = [], asked_version = []\<rparr>"] ready_and_metadata[OF inv2, of "\<lambda>i req. Inl (status_of Internal [])" "\<lparr>asked_name = [], asked_version = []\<rparr>"] size
    by (auto simp: fleet_size_def num_replicas_def split: if_splits)
qed

end
