(* ===== verification/Router_Main.thy ===== *)
theory Router_Main
  imports Router_Props
begin

text \<open>
  \<open>crates/router/src/main.rs\<close>: from the command line to the router. Building a client from a URL and
  loading the tokenizer are parameters: \<open>bad_url\<close> says which URLs the endpoint type refuses and
  \<open>tokenizer_error\<close> why the tokenizers crate refuses a file. Ports, logging and serving are left out.
\<close>

record router_args =
  arg_port :: "16 word"
  arg_metrics_port :: "16 word"
  arg_replicas :: "string list"
  arg_policy :: string
  arg_tokenizer_path :: string
  arg_alpha :: f64
  arg_beta :: f64
  arg_block_budget :: usize
  arg_max_inflight :: usize
  arg_upstream_timeout_s :: u64

definition default_args :: "string list \<Rightarrow> router_args" where
  "default_args urls =
     \<lparr>arg_port = 8000, arg_metrics_port = 9100, arg_replicas = urls, arg_policy = ''cache-aware'', arg_tokenizer_path = ''data/tokenizer.json'',
      arg_alpha = F64 1 0, arg_beta = F64 2 0, arg_block_budget = 65536, arg_max_inflight = 512,
      arg_upstream_timeout_s = 30\<rparr>"

definition parse_policy :: "string \<Rightarrow> string + policy" where
  "parse_policy p =
     (if p = ''cache-aware'' then Inr CacheAware
      else if p = ''round-robin'' then Inr RoundRobin
      else Inl (''unknown policy: '' @ p))"

definition args_config :: "router_args \<Rightarrow> scheduler_config" where
  "args_config args =
     default_config\<lparr>alpha := arg_alpha args, beta := arg_beta args,
       block_budget := arg_block_budget args, max_inflight := arg_max_inflight args\<rparr>"

text \<open>\<open>PromptTokenizer::from_file\<close>: the error of the crate with the path and a hint.\<close>

definition from_file :: "(string \<Rightarrow> string option) \<Rightarrow> string \<Rightarrow> string + unit" where
  "from_file tokenizer_error path =
     (case tokenizer_error path of
        Some e \<Rightarrow> Inl (''load tokenizer from '' @ path @ '': '' @ e @ [CHR 0x0A] @
                       ''hint: fetch it with `./scripts/fetch_tokenizer.sh data`'')
      | None \<Rightarrow> Inr ())"

definition router_main ::
  "(string \<Rightarrow> bool) \<Rightarrow> (string \<Rightarrow> string option) \<Rightarrow> router_args \<Rightarrow> string + router_inner" where
  "router_main bad_url tokenizer_error args =
     (if arg_replicas args = [] then Inl ''need at least one replica URL''
      else case parse_policy (arg_policy args) of
        Inl e \<Rightarrow> Inl e
      | Inr pol \<Rightarrow>
          (case find bad_url (arg_replicas args) of
             Some u \<Rightarrow> Inl (''bad replica url: '' @ u)
           | None \<Rightarrow>
               (case from_file tokenizer_error (arg_tokenizer_path args) of
                  Inl e \<Rightarrow> Inl e
                | Inr _ \<Rightarrow>
                    Inr (router_inner_new (scheduler_new (length (arg_replicas args)) pol (args_config args))
                          (length (arg_replicas args))))))"

lemma new_router:
  fixes pol c
  assumes "0 < n"
  defines "r \<equiv> router_inner_new (scheduler_new n pol c) n"
  shows "router_inv r" and "fleet_size r = n" and "is_ready (server_ready r)" and "sched r = scheduler_new n pol c"
proof -
  show "router_inv r" unfolding r_def by (rule router_inv_new)
  show s: "sched r = scheduler_new n pol c" by (simp add: r_def router_inner_new_def)
  show size: "fleet_size r = n" by (simp add: fleet_size_def s num_replicas_def scheduler_new_def)
  have "is_healthy (sched r) 0 = Some True"
    using assms(1) by (simp add: s is_healthy_def vec_get_def scheduler_new_def new_replica_def)
  with assms(1) size show "is_ready (server_ready r)"
    by (auto simp: server_ready_def list_ex_iff fleet_size_def intro!: bexI[of _ 0])
qed

lemma router_main_Inr:
  assumes "router_main bad_url tokenizer_error args = Inr r"
  obtains pol where "arg_replicas args \<noteq> []" "parse_policy (arg_policy args) = Inr pol"
    "r = router_inner_new (scheduler_new (length (arg_replicas args)) pol (args_config args)) (length (arg_replicas args))"
  using assms by (auto simp: router_main_def split: if_splits sum.splits option.splits)

text \<open>What \<open>main\<close> asks of the command line and of the two libraries.\<close>

definition args_valid :: "(string \<Rightarrow> bool) \<Rightarrow> (string \<Rightarrow> string option) \<Rightarrow> router_args \<Rightarrow> bool" where
  "args_valid bad_url tokenizer_error args =
     (arg_replicas args \<noteq> [] \<and> arg_policy args \<in> {''cache-aware'', ''round-robin''} \<and>
      list_all (\<lambda>u. \<not> bad_url u) (arg_replicas args) \<and> tokenizer_error (arg_tokenizer_path args) = None)"

lemma router_main_error:
  "router_main bad_url tokenizer_error args = Inl e \<Longrightarrow> \<not> args_valid bad_url tokenizer_error args"
  by (auto simp: router_main_def parse_policy_def from_file_def args_valid_def list_all_iff find_Some_iff
      split: if_splits option.splits)

lemma router_main_valid:
  "router_main bad_url tokenizer_error args = Inr r \<Longrightarrow> args_valid bad_url tokenizer_error args"
  by (auto simp: router_main_def parse_policy_def from_file_def args_valid_def list_all_iff find_None_iff
      split: if_splits option.splits)

text \<open>The router starts exactly when it is given at least one replica, a known policy, URLs that
  are all good and a tokenizer that loads. Whatever the command line, a router that starts has one
  client and gauge per replica, all replicas in routing, and satisfies the invariant that the
  request handlers rely on. Started with the defaults, it routes by the default weights.\<close>

theorem router_starts_ready:
  "(case router_main bad_url tokenizer_error args of
      Inl e \<Rightarrow> \<not> args_valid bad_url tokenizer_error args
    | Inr r \<Rightarrow> args_valid bad_url tokenizer_error args \<and>
        router_inv r \<and> fleet_size r = length (arg_replicas args) \<and> 0 < fleet_size r \<and> is_ready (server_ready r) \<and>
        min_match_blocks (cfg (sched r)) = min_match_blocks default_config) \<and>
   (case router_main bad_url tokenizer_error (default_args urls) of
      Inl e \<Rightarrow> True
    | Inr r \<Rightarrow> default_weights (sched r) \<and> cfg (sched r) = default_config)"
proof (intro conjI)
  show "case router_main bad_url tokenizer_error args of
      Inl e \<Rightarrow> \<not> args_valid bad_url tokenizer_error args
    | Inr r \<Rightarrow> args_valid bad_url tokenizer_error args \<and>
        router_inv r \<and> fleet_size r = length (arg_replicas args) \<and> 0 < fleet_size r \<and> is_ready (server_ready r) \<and>
        min_match_blocks (cfg (sched r)) = min_match_blocks default_config"
  proof (cases "router_main bad_url tokenizer_error args")
    case (Inr r)
    from router_main_Inr[OF Inr] obtain pol where ne: "arg_replicas args \<noteq> []"
      and r: "r = router_inner_new (scheduler_new (length (arg_replicas args)) pol (args_config args)) (length (arg_replicas args))" .
    from new_router[of "length (arg_replicas args)" pol "args_config args"] ne show ?thesis
      by (simp add: Inr r router_main_valid[OF Inr] scheduler_new_def args_config_def)
  qed (simp add: router_main_error)
  show "case router_main bad_url tokenizer_error (default_args urls) of
      Inl e \<Rightarrow> True
    | Inr r \<Rightarrow> default_weights (sched r) \<and> cfg (sched r) = default_config"
    by (simp add: router_main_def parse_policy_def args_config_def default_args_def router_inner_new_def scheduler_new_def
        default_weights_def default_config_def split: option.splits sum.splits)
qed

end
