(* ===== verification/Kv_Cache_Sim.thy ===== *)
theory Kv_Cache_Sim
  imports Prefix_Cache
begin

text \<open>
  \<open>crates/mock-triton/src/cache.rs\<close>: the block cache of a mock replica, the ground truth the
  router's \<open>PrefixCache\<close> approximates. The struct has the four fields of \<open>lru\<close> and a fixed
  capacity, so it extends that record; its methods are translated from their own code.
  The theory shows that one call refines \<open>lru_admit\<close>, and that the router's picture of a
  replica is exact as long as both see the same chains in the same order.
\<close>

record kv_cache_sim = lru +
  capacity :: usize

definition kv_new :: "usize \<Rightarrow> kv_cache_sim" where
  "kv_new cap = \<lparr>bmap = [], heap = [], clock = 0, seq = 0, capacity = cap\<rparr>"

definition kv_len :: "kv_cache_sim \<Rightarrow> usize" where
  "kv_len c = hm_len (bmap c)"

definition kv_is_empty :: "kv_cache_sim \<Rightarrow> bool" where
  "kv_is_empty c = (hm_len (bmap c) = 0)"

definition kv_compact_if_bloated :: "kv_cache_sim \<Rightarrow> kv_cache_sim" where
  "kv_compact_if_bloated c =
     (let threshold = 2 * max (hm_len (bmap c)) COMPACT_FLOOR
      in if bh_len (heap c) > threshold then rebuild_heap c else c)"

definition evict_over_capacity :: "kv_cache_sim \<Rightarrow> kv_cache_sim" where
  "evict_over_capacity c =
     (let (m, h) = evict_loop (capacity c) (bmap c) (heap c) in c\<lparr>bmap := m, heap := h\<rparr>)"

text \<open>The counting pass runs before the blocks are touched; the second loop touches them all.\<close>

fun kv_touch_loop :: "u64 \<Rightarrow> u64 list \<Rightarrow> kv_cache_sim \<Rightarrow> kv_cache_sim" where
  "kv_touch_loop access [] c = c"
| "kv_touch_loop access (h # hs) c = kv_touch_loop access hs (touch_block access h c)"

definition lookup_insert :: "kv_cache_sim \<Rightarrow> u64 list \<Rightarrow> kv_cache_sim \<times> usize" where
  "lookup_insert c hashes =
     (let c = c\<lparr>clock := clock c + 1\<rparr>;
          cached = length (takeWhile (hm_contains_key (bmap c)) hashes);
          c = kv_touch_loop (clock c) hashes c;
          c = kv_compact_if_bloated c;
          c = evict_over_capacity c
      in (c, cached))"

subsection \<open>Reduction to the operations of the router's cache\<close>

lemma kv_touch_loop_fold: "kv_touch_loop a hs c = fold (touch_block a) hs c"
  by (induction hs arbitrary: c) simp_all

lemma kv_compact_eq: "kv_compact_if_bloated c = compact_if_bloated c"
  by (simp add: kv_compact_if_bloated_def compact_if_bloated_def)

lemma evict_over_capacity_eq: "evict_over_capacity c = evict_to c (capacity c)"
  by (simp add: evict_over_capacity_def evict_to_def)

lemma more_touch_block [simp]: "capacity (touch_block a h c) = capacity c"
  by (simp add: touch_block_def Let_def)

lemma capacity_fold [simp]: "capacity (fold (touch_block a) hs c) = capacity c"
  by (induction hs arbitrary: c) simp_all

lemma capacity_insert_chain [simp]: "capacity (insert_chain c hs) = capacity c"
  by (simp add: insert_chain_def touch_eq compact_if_bloated_def rebuild_heap_def Let_def)

lemma capacity_evict_to [simp]: "capacity (evict_to c b) = capacity c"
  by (simp add: evict_to_def split: prod.splits)

lemma lookup_insert_eq:
  "lookup_insert c hs = (evict_to (insert_chain c hs) (capacity c), lookup c hs)"
proof -
  have "insert_chain c hs =
      compact_if_bloated (fold (touch_block (clock c + 1)) hs (c\<lparr>clock := clock c + 1\<rparr>))"
    by (simp add: insert_chain_def touch_eq touched_part_def)
  moreover from this have "capacity (compact_if_bloated
      (fold (touch_block (clock c + 1)) hs (c\<lparr>clock := clock c + 1\<rparr>))) = capacity c"
    by (metis capacity_insert_chain)
  ultimately show ?thesis
    by (simp add: lookup_insert_def Let_def kv_touch_loop_fold kv_compact_eq evict_over_capacity_eq
        lookup_def)
qed

lemma capacity_lookup_insert [simp]: "capacity (fst (lookup_insert c hs)) = capacity c"
  by (simp add: lookup_insert_eq)

lemma kv_new_fields [simp]:
  "lru_wf (kv_new cap)" "lru_ordered (kv_new cap)" "recency (kv_new cap) = []" "capacity (kv_new cap) = cap"
  "clock (kv_new cap) = 0" "seq (kv_new cap) = 0"
  by (simp_all add: kv_new_def lru_wf_def lru_ordered_def recency_def live_def hm_wf_def)

subsection \<open>Admission\<close>

text \<open>
  What serving a prompt does to a block cache, on either side: count the leading hits, then
  take the chain in and evict down to the capacity.
\<close>

fun serve_all :: "('c \<Rightarrow> u64 list \<Rightarrow> 'c \<times> usize) \<Rightarrow> u64 list list \<Rightarrow> 'c \<Rightarrow> 'c \<times> usize list" where
  "serve_all admit [] c = (c, [])"
| "serve_all admit (hs # hss) c =
     (let (c1, n) = admit c hs; (c2, ns) = serve_all admit hss c1 in (c2, n # ns))"

locale block_admission =
  fixes admit :: "'c \<Rightarrow> u64 list \<Rightarrow> 'c \<times> usize"
    and cap :: "'c \<Rightarrow> usize"
    and order :: "'c \<Rightarrow> u64 list"
    and inv :: "'c \<Rightarrow> bool"
    and below :: "nat \<Rightarrow> 'c \<Rightarrow> bool"
  assumes admit_hits: "inv c \<Longrightarrow> snd (admit c hs) = lru_hits hs (order c)"
    and admit_cap: "inv c \<Longrightarrow> cap (fst (admit c hs)) = cap c"
    and admit_order: "inv c \<Longrightarrow> below (Suc (length hs) + n) c \<Longrightarrow>
      order (fst (admit c hs)) = lru_admit (cap c) hs (order c)"
    and admit_inv: "inv c \<Longrightarrow> below (Suc (length hs) + n) c \<Longrightarrow> inv (fst (admit c hs))"
    and admit_below: "inv c \<Longrightarrow> below (Suc (length hs) + n) c \<Longrightarrow> below n (fst (admit c hs))"
begin

lemma serve_refines:
  "inv c \<Longrightarrow> below (sum_list (map (\<lambda>hs. Suc (length hs)) hss)) c \<Longrightarrow>
    lru_serve (cap c) hss (order c) = (order (fst (serve_all admit hss c)), snd (serve_all admit hss c))"
proof (induction hss arbitrary: c)
  case Nil
  then show ?case by simp
next
  case (Cons hs hss)
  let ?n = "sum_list (map (\<lambda>hs. Suc (length hs)) hss)"
  from Cons.prems have b: "below (Suc (length hs) + ?n) c" by simp
  note step = admit_inv[OF Cons.prems(1) b] admit_below[OF Cons.prems(1) b]
  from Cons.IH[OF step] show ?case
    using admit_hits[OF Cons.prems(1)] admit_cap[OF Cons.prems(1)] admit_order[OF Cons.prems(1) b]
    by (simp add: case_prod_beta)
qed

end

lemma kv_below_step:
  assumes "lru_wf c" "lru_ordered c" "counters_below (Suc (length hs) + n) c"
  shows "recency (evict_to (insert_chain c hs) b) = lru_admit b hs (recency c)"
    and "lru_wf (evict_to (insert_chain c hs) b)" and "lru_ordered (evict_to (insert_chain c hs) b)"
    and "counters_below n (evict_to (insert_chain c hs) b)"
  using insert_chain_refines[OF assms(1,2) counters_headroom[OF assms(3)]]
    evict_to_correct[OF lru_wf_insert_chain[OF assms(1)]] counters_insert_chain[of c hs] assms
  by (auto simp: lru_admit_def lru_simps counters_below_def intro: lru_ordered_evict)

text \<open>The replica's cache is one instance; its capacity is a field.\<close>

interpretation kv: block_admission lookup_insert capacity recency
    "\<lambda>c. lru_wf c \<and> lru_ordered c" counters_below
  by unfold_locales (auto simp: lookup_insert_eq lookup_recency kv_below_step)

text \<open>
  The router's side of the same request, as \<open>Scheduler::pick\<close> does it for the replica it
  chooses: the read-only lookup, the insertion, the eviction down to the block budget.
\<close>

definition router_admit :: "usize \<Rightarrow> prefix_cache \<Rightarrow> u64 list \<Rightarrow> prefix_cache \<times> usize" where
  "router_admit budget c hashes = (evict_to (insert_chain c hashes) budget, lookup c hashes)"

interpretation router_side: block_admission "router_admit b" "\<lambda>_. b" recency
    "\<lambda>c. lru_wf c \<and> lru_ordered c" counters_below for b
  by unfold_locales (auto simp: router_admit_def lookup_recency kv_below_step)

subsection \<open>Two caches in the same state\<close>

definition same_view :: "'a lru_scheme \<Rightarrow> 'b lru_scheme \<Rightarrow> bool" where
  "same_view c d = (bmap c = bmap d \<and> heap c = heap d \<and> clock c = clock d \<and> seq c = seq d)"

lemma same_view_touch_block: "same_view c d \<Longrightarrow> same_view (touch_block a h c) (touch_block a h d)"
  by (simp add: same_view_def lru_simps)

lemma same_view_fold: "same_view c d \<Longrightarrow> same_view (fold (touch_block a) hs c) (fold (touch_block a) hs d)"
  by (induction hs arbitrary: c d) (simp_all add: same_view_touch_block)

lemma same_view_compact: "same_view c d \<Longrightarrow> same_view (compact_if_bloated c) (compact_if_bloated d)"
  by (simp add: same_view_def compact_if_bloated_def Let_def lru_simps live_def)

lemma same_view_insert_chain: "same_view c d \<Longrightarrow> same_view (insert_chain c hs) (insert_chain d hs)"
  unfolding insert_chain_def touch_eq touched_part_def fst_conv if_False
  by (intro same_view_compact, rule subst[of "clock c" "clock d"])
    (auto simp: same_view_def intro!: same_view_fold[unfolded same_view_def])

lemma same_view_evict_to: "same_view c d \<Longrightarrow> same_view (evict_to c b) (evict_to d b)"
  by (simp add: same_view_def evict_to_def split: prod.splits)

lemma same_view_lookup: "same_view c d \<Longrightarrow> lookup c hs = lookup d hs"
  by (simp add: same_view_def lookup_def)

lemma same_view_new: "same_view prefix_cache_new (kv_new cap)"
  by (simp add: same_view_def prefix_cache_new_def kv_new_def)

lemma same_view_serve:
  "same_view c k \<Longrightarrow> capacity k = b \<Longrightarrow>
    snd (serve_all (router_admit b) hss c) = snd (serve_all lookup_insert hss k) \<and>
    same_view (fst (serve_all (router_admit b) hss c)) (fst (serve_all lookup_insert hss k))"
proof (induction hss arbitrary: c k)
  case Nil
  then show ?case by simp
next
  case (Cons hs hss)
  have "same_view (fst (router_admit b c hs)) (fst (lookup_insert k hs))"
    using Cons.prems by (simp add: router_admit_def lookup_insert_eq same_view_evict_to same_view_insert_chain)
  moreover have "snd (router_admit b c hs) = snd (lookup_insert k hs)"
    using same_view_lookup[OF Cons.prems(1)] by (simp add: router_admit_def lookup_insert_eq)
  ultimately show ?case
    using Cons.IH[of "fst (router_admit b c hs)" "fst (lookup_insert k hs)"] Cons.prems
    by (simp add: case_prod_beta)
qed

subsection \<open>Properties\<close>

lemma kv_serve_wf:
  "lru_wf c \<Longrightarrow> lru_wf (fst (serve_all lookup_insert hss c)) \<and>
    capacity (fst (serve_all lookup_insert hss c)) = capacity c"
proof (induction hss arbitrary: c)
  case Nil
  then show ?case by simp
next
  case (Cons hs hss)
  have "lru_wf (fst (lookup_insert c hs))"
    using Cons.prems by (simp add: lookup_insert_eq evict_to_correct)
  from Cons.IH[OF this] show ?case by (simp add: case_prod_beta)
qed

text \<open>C27. The mock replica's cache is an LRU cache of its capacity: from a new cache, the hits it
  reports for a sequence of prompts and the blocks it holds afterwards are those of the
  specification, if fewer than 2^64 touches and ticks happen.\<close>

theorem kv_cache_refines_lru:
  assumes "sum_list (map (\<lambda>hs. Suc (length hs)) hss) < 2 ^ 64"
  shows "lru_serve cap hss [] =
    (recency (fst (serve_all lookup_insert hss (kv_new cap))), snd (serve_all lookup_insert hss (kv_new cap)))"
proof -
  have "counters_below (sum_list (map (\<lambda>hs. Suc (length hs)) hss)) (kv_new cap)"
    using assms by (simp add: counters_below_def)
  from kv.serve_refines[OF _ this] show ?thesis by simp
qed

theorem kv_cache_refines_lru_witness:
  "snd (serve_all lookup_insert [[1, 2], [3, 4], [1, 2], [5, 6], [1, 2], [5, 6]] (kv_new 4)) = [0, 0, 2, 0, 2, 2]"
proof -
  have "lru_serve 4 [[1, 2], [3, 4], [1, 2], [5, 6], [1, 2], [5, 6 :: u64]] [] = ([5, 6, 1, 2], [0, 0, 2, 0, 2, 2])"
    by code_simp
  with kv_cache_refines_lru[of "[[1, 2], [3, 4], [1, 2], [5, 6], [1, 2], [5, 6]]" 4] show ?thesis by simp
qed

text \<open>The replica's cache never holds more blocks than its capacity, and the count it reports
  never exceeds the number of blocks of the prompt, in every reachable state and whatever the
  counters do.\<close>

theorem kv_cache_within_capacity:
  "kv_len (fst (lookup_insert (fst (serve_all lookup_insert hss (kv_new cap))) hs)) \<le> cap \<and>
   snd (lookup_insert (fst (serve_all lookup_insert hss (kv_new cap))) hs) \<le> length hs"
proof -
  let ?c = "fst (serve_all lookup_insert hss (kv_new cap))"
  have "lru_wf ?c" "capacity ?c = cap" using kv_serve_wf[of "kv_new cap" hss] by simp_all
  then show ?thesis
    using num_blocks_evict_to[OF lru_wf_insert_chain, of ?c hs cap] lookup_le[of ?c hs]
    by (simp add: lookup_insert_eq kv_len_def num_blocks_def)
qed

text \<open>The router's picture is exact while it sees what the replica sees: a router cache with
  block budget \<open>b\<close> and a replica of capacity \<open>b\<close> that are given the same prompts in the same order
  predict and report the same hits, and end with the same map, heap and counters.\<close>

theorem router_cache_mirrors_replica:
  "snd (serve_all (router_admit b) hss prefix_cache_new) = snd (serve_all lookup_insert hss (kv_new b)) \<and>
   same_view (fst (serve_all (router_admit b) hss prefix_cache_new)) (fst (serve_all lookup_insert hss (kv_new b)))"
  by (rule same_view_serve[OF same_view_new]) simp

end
