(* ===== verification/Mock_Service.thy ===== *)
theory Mock_Service
  imports Channel Kv_Cache_Sim
begin

text \<open>
  \<open>crates/mock-triton/src/service.rs\<close>: the mock replica. Its state is the cache simulation behind
  its mutex, the two counters, and the time it has slept, in microseconds of prefill and
  milliseconds of decoding. The tokenizer's \<open>encode\<close> and the printed form \<open>status_text\<close> of a
  gRPC status are parameters.
\<close>

record mock_config =
  cache_blocks :: usize
  prefill_us_per_token :: u64
  decode_chunks :: usize
  decode_interval_ms :: u64
  mock_tokenizer_path :: string

definition mock_config_default :: mock_config where
  "mock_config_default =
     \<lparr>cache_blocks = 4096, prefill_us_per_token = 200, decode_chunks = 4, decode_interval_ms = 5,
      mock_tokenizer_path = ''data/tokenizer.json''\<rparr>"

record mock_service =
  mcfg :: mock_config
  kv_cache :: kv_cache_sim
  cached_blocks_total :: u64
  total_blocks_total :: u64
  prefill_slept_us :: nat
  decode_slept_ms :: nat

definition mock_service_new :: "mock_config \<Rightarrow> mock_service" where
  "mock_service_new c =
     \<lparr>mcfg = c, kv_cache = kv_new (cache_blocks c), cached_blocks_total = 0, total_blocks_total = 0,
      prefill_slept_us = 0, decode_slept_ms = 0\<rparr>"

text \<open>The replica reads the first tensor, whatever its name.\<close>

definition mock_extract_text :: "model_infer_request \<Rightarrow> status + string" where
  "mock_extract_text req =
     (case do {
        i \<leftarrow> (case inputs req of [] \<Rightarrow> None | i # _ \<Rightarrow> Some i);
        c \<leftarrow> in_contents i;
        (case bytes_contents c of [] \<Rightarrow> None | b # _ \<Rightarrow> Some b)
      } of
        None \<Rightarrow> Inl (status_of InvalidArgument ''missing text_input bytes tensor'')
      | Some bytes \<Rightarrow>
          (case from_utf8 bytes of
             None \<Rightarrow> Inl (status_of InvalidArgument ''text_input not utf8'')
           | Some txt \<Rightarrow> Inr txt))"

definition uncached_tokens :: "u32 list \<Rightarrow> usize \<Rightarrow> usize" where
  "uncached_tokens ids cached = length ids - cached * BLOCK_SIZE"

text \<open>The product of the delay is one of 64-bit words.\<close>

definition prefill_delay :: "mock_config \<Rightarrow> u32 list \<Rightarrow> usize \<Rightarrow> u64" where
  "prefill_delay c ids cached = word_of_nat (uncached_tokens ids cached) * prefill_us_per_token c"

definition simulate_prefill ::
  "(string \<Rightarrow> string + u32 list) \<Rightarrow> string \<Rightarrow> mock_service \<Rightarrow> mock_service \<times> (status + usize \<times> usize)" where
  "simulate_prefill encode txt m =
     (case encode txt of
        Inl e \<Rightarrow> (m, Inl (status_of InvalidArgument (''tokenize: '' @ e)))
      | Inr ids \<Rightarrow>
          let hashes = block_hashes ids;
              total_blocks = length hashes;
              (kv, cached) = lookup_insert (kv_cache m) hashes
          in (m\<lparr>kv_cache := kv,
                cached_blocks_total := cached_blocks_total m + word_of_nat cached,
                total_blocks_total := total_blocks_total m + word_of_nat total_blocks,
                prefill_slept_us := prefill_slept_us m + unat (prefill_delay (mcfg m) ids cached)\<rparr>,
              Inr (cached, total_blocks)))"

definition make_response :: "model_infer_request \<Rightarrow> usize \<Rightarrow> usize \<Rightarrow> string \<Rightarrow> model_infer_response" where
  "make_response req cached total_blocks txt =
     \<lparr>resp_model_name = req_model_name req, resp_model_version = ''1'', resp_id = req_id req,
      parameters =
        hm_insert ''total_blocks'' (Some (Int64Param (as_i64 total_blocks)))
          (hm_insert ''cached_blocks'' (Some (Int64Param (as_i64 cached))) []),
      outputs = [\<lparr>out_name = ''text_output'', out_datatype = ''BYTES'', out_shape = [1], out_parameters = [],
                  out_contents = Some (tensor_contents_default\<lparr>bytes_contents := [txt]\<rparr>)\<rparr>]\<rparr>"

definition mock_server_live :: server_live_response where
  "mock_server_live = \<lparr>is_live = True\<rparr>"

definition mock_server_ready :: server_ready_response where
  "mock_server_ready = \<lparr>is_ready = True\<rparr>"

definition mock_model_metadata :: "model_metadata_request \<Rightarrow> model_metadata_response" where
  "mock_model_metadata req = \<lparr>meta_name = asked_name req, versions = [''1''], platform = ''mock''\<rparr>"

definition mock_model_infer ::
  "(string \<Rightarrow> string + u32 list) \<Rightarrow> model_infer_request \<Rightarrow> mock_service \<Rightarrow> mock_service \<times> (status + model_infer_response)" where
  "mock_model_infer encode req m =
     (case mock_extract_text req of
        Inl st \<Rightarrow> (m, Inl st)
      | Inr txt \<Rightarrow>
          (case simulate_prefill encode txt m of
             (m, Inl st) \<Rightarrow> (m, Inl st)
           | (m, Inr (cached, total_blocks)) \<Rightarrow> (m, Inr (make_response req cached total_blocks ''mock-completion''))))"

subsection \<open>Streaming\<close>

definition decode_chunk :: "mock_config \<Rightarrow> model_infer_request \<Rightarrow> usize \<Rightarrow> usize \<Rightarrow> usize \<Rightarrow> model_stream_infer_response" where
  "decode_chunk c req cached total_blocks chunk =
     (let last = (chunk = decode_chunks c - 1);
          resp = (if last then make_response req cached total_blocks ''mock-final'' else make_response req 0 0 ''mock-chunk'')
      in stream_chunk resp)"

text \<open>The decode loop: every chunk sleeps first, then sends. The flag says that the client is gone.\<close>

fun decode_loop ::
  "model_infer_request \<Rightarrow> usize \<Rightarrow> usize \<Rightarrow> usize list \<Rightarrow> mock_service \<Rightarrow> client_tx \<Rightarrow> mock_service \<times> client_tx \<times> bool" where
  "decode_loop req cached total_blocks [] m tx = (m, tx, False)"
| "decode_loop req cached total_blocks (chunk # chunks) m tx =
     (let m = m\<lparr>decode_slept_ms := decode_slept_ms m + unat (decode_interval_ms (mcfg m))\<rparr>;
          (tx, delivered) = tx_send (Inr (decode_chunk (mcfg m) req cached total_blocks chunk)) tx
      in if delivered then decode_loop req cached total_blocks chunks m tx else (m, tx, True))"

fun mock_model_stream_infer ::
  "(string \<Rightarrow> string + u32 list) \<Rightarrow> (status \<Rightarrow> string) \<Rightarrow> (status + model_infer_request) list \<Rightarrow>
    mock_service \<Rightarrow> client_tx \<Rightarrow> mock_service \<times> client_tx" where
  "mock_model_stream_infer encode status_text [] m tx = (m, tx)"
| "mock_model_stream_infer encode status_text (Inl e # msgs) m tx =
     (m, fst (tx_send (Inr (stream_error (''stream recv: '' @ status_text e))) tx))"
| "mock_model_stream_infer encode status_text (Inr req # msgs) m tx =
     (case mock_extract_text req of
        Inl e \<Rightarrow> mock_model_stream_infer encode status_text msgs m (fst (tx_send (Inr (stream_error (status_text e))) tx))
      | Inr txt \<Rightarrow>
          (case simulate_prefill encode txt m of
             (m, Inl e) \<Rightarrow> mock_model_stream_infer encode status_text msgs m (fst (tx_send (Inr (stream_error (status_text e))) tx))
           | (m, Inr (cached, total_blocks)) \<Rightarrow>
               (case decode_loop req cached total_blocks [0..<decode_chunks (mcfg m)] m tx of
                  (m, tx, gone) \<Rightarrow> if gone then (m, tx) else mock_model_stream_infer encode status_text msgs m tx)))"

subsection \<open>Prefill\<close>

lemma simulate_prefill_tokens:
  "encode txt = Inr ids \<Longrightarrow>
    simulate_prefill encode txt m =
      (m\<lparr>kv_cache := fst (lookup_insert (kv_cache m) (block_hashes ids)),
         cached_blocks_total := cached_blocks_total m + word_of_nat (lookup (kv_cache m) (block_hashes ids)),
         total_blocks_total := total_blocks_total m + word_of_nat (length ids div BLOCK_SIZE),
         prefill_slept_us := prefill_slept_us m + unat (prefill_delay (mcfg m) ids (lookup (kv_cache m) (block_hashes ids)))\<rparr>,
       Inr (lookup (kv_cache m) (block_hashes ids), length ids div BLOCK_SIZE))"
  by (simp add: simulate_prefill_def length_block_hashes Let_def lookup_insert_eq)

lemma prefill_delay_small:
  assumes "length ids * unat (prefill_us_per_token c) < 2 ^ 64"
  shows "unat (prefill_delay c ids cached) = uncached_tokens ids cached * unat (prefill_us_per_token c)"
proof -
  have "uncached_tokens ids cached * unat (prefill_us_per_token c) \<le> length ids * unat (prefill_us_per_token c)"
    by (intro mult_le_mono1) (simp add: uncached_tokens_def)
  with assms have lt: "uncached_tokens ids cached * unat (prefill_us_per_token c) < 2 ^ 64" by linarith
  have "prefill_delay c ids cached = word_of_nat (uncached_tokens ids cached * unat (prefill_us_per_token c))"
    by (simp add: prefill_delay_def)
  then have "unat (prefill_delay c ids cached) = take_bit 64 (uncached_tokens ids cached * unat (prefill_us_per_token c))"
    by (simp only: unsigned_of_nat) simp
  with lt show ?thesis by (simp add: take_bit_nat_eq_self)
qed

text \<open>The cached blocks are part of the prompt, so the subtraction does not saturate.\<close>

lemma cached_tokens_le: "lookup c (block_hashes ids) * BLOCK_SIZE \<le> length ids"
proof -
  have "lookup c (block_hashes ids) * BLOCK_SIZE \<le> length ids div BLOCK_SIZE * BLOCK_SIZE"
    using lookup_le[of c "block_hashes ids"] by (intro mult_le_mono1) (simp add: length_block_hashes)
  also have "\<dots> \<le> length ids" by simp
  finally show ?thesis .
qed

lemma uncached_ge_remainder: "length ids mod BLOCK_SIZE \<le> uncached_tokens ids (lookup c (block_hashes ids))"
proof -
  have "lookup c (block_hashes ids) * BLOCK_SIZE \<le> length ids div BLOCK_SIZE * BLOCK_SIZE"
    using lookup_le[of c "block_hashes ids"] by (intro mult_le_mono1) (simp add: length_block_hashes)
  moreover have "length ids = length ids div BLOCK_SIZE * BLOCK_SIZE + length ids mod BLOCK_SIZE" by simp
  ultimately show ?thesis unfolding uncached_tokens_def by linarith
qed

text \<open>C36. The cost of a prefill. The blocks reported are the full blocks of the prompt and the leading
  ones that were cached; the time slept is the price of the tokens that are not in cached
  blocks, so never less than that of the last partial block; and repeating the prompt at once
  costs only that, if its blocks fit the cache.\<close>

theorem prefill_pays_for_uncached:
  assumes enc: "encode txt = Inr ids" and price: "length ids * unat (prefill_us_per_token (mcfg m)) < 2 ^ 64"
    and wf: "lru_wf (kv_cache m)" "lru_ordered (kv_cache m)" "headroom (length (block_hashes ids)) (kv_cache m)"
    and fits: "length ids div BLOCK_SIZE \<le> capacity (kv_cache m)"
    and first: "simulate_prefill encode txt m = (m1, r1)" and second: "simulate_prefill encode txt m1 = (m2, r2)"
  shows "\<exists>cached. r1 = Inr (cached, length ids div BLOCK_SIZE) \<and> cached \<le> length ids div BLOCK_SIZE \<and>
    prefill_slept_us m1 = prefill_slept_us m + (length ids - cached * BLOCK_SIZE) * unat (prefill_us_per_token (mcfg m)) \<and>
    length ids mod BLOCK_SIZE \<le> length ids - cached * BLOCK_SIZE \<and>
    r2 = Inr (length ids div BLOCK_SIZE, length ids div BLOCK_SIZE) \<and>
    prefill_slept_us m2 = prefill_slept_us m1 + (length ids mod BLOCK_SIZE) * unat (prefill_us_per_token (mcfg m))"
proof -
  let ?hs = "block_hashes ids" and ?k = "lookup (kv_cache m) (block_hashes ids)"
  note prefill = simulate_prefill_tokens[of encode "txt" ids, OF enc]
  have m1: "mcfg m1 = mcfg m" "kv_cache m1 = fst (lookup_insert (kv_cache m) ?hs)" "r1 = Inr (?k, length ids div BLOCK_SIZE)"
    "prefill_slept_us m1 = prefill_slept_us m + uncached_tokens ids ?k * unat (prefill_us_per_token (mcfg m))"
    using first prefill_delay_small[OF price] by (auto simp: prefill)
  have "recency (kv_cache m1) = lru_admit (capacity (kv_cache m)) ?hs (recency (kv_cache m))"
    unfolding m1(2) lookup_insert_eq fst_conv lru_admit_def
    using insert_chain_refines(1)[OF wf] evict_to_correct(2)[OF lru_wf_insert_chain[OF wf(1)], of ?hs "capacity (kv_cache m)"]
    by simp
  moreover have "length (remdups ?hs) \<le> capacity (kv_cache m)"
    using length_remdups_leq[of ?hs] fits by (simp add: length_block_hashes)
  ultimately have "set ?hs \<subseteq> set (recency (kv_cache m1))" by (metis lru_admit_keeps_chain)
  then have "lookup (kv_cache m1) ?hs = length ?hs" by (simp add: lookup_recency lru_hits_full)
  then have hit: "lookup (kv_cache m1) ?hs = length ids div BLOCK_SIZE" by (simp add: length_block_hashes)
  have "uncached_tokens ids (length ids div BLOCK_SIZE) = length ids mod BLOCK_SIZE"
    by (simp add: uncached_tokens_def minus_div_mult_eq_mod)
  then have m2: "r2 = Inr (length ids div BLOCK_SIZE, length ids div BLOCK_SIZE)"
    "prefill_slept_us m2 = prefill_slept_us m1 + (length ids mod BLOCK_SIZE) * unat (prefill_us_per_token (mcfg m))"
    using second price prefill_delay_small[of ids "mcfg m1" "length ids div BLOCK_SIZE"] m1(1) by (auto simp: prefill hit)
  have "?k \<le> length ids div BLOCK_SIZE" using lookup_le[of "kv_cache m" ?hs] by (simp add: length_block_hashes)
  with m1 m2 uncached_ge_remainder[of ids "kv_cache m"] show ?thesis by (auto simp: uncached_tokens_def)
qed

definition zero_tokens :: "string \<Rightarrow> string + u32 list" where
  "zero_tokens txt = Inr (replicate (length txt) 0)"

theorem prefill_pays_for_uncached_witness:
  "\<exists>m1 m2 cached r2. simulate_prefill zero_tokens (replicate 20 CHR ''a'') (mock_service_new mock_config_default) = (m1, Inr (cached, 1)) \<and>
     simulate_prefill zero_tokens (replicate 20 CHR ''a'') m1 = (m2, r2) \<and> r2 = Inr (1, 1) \<and>
     prefill_slept_us m2 = prefill_slept_us m1 + 800"
proof -
  let ?m = "mock_service_new mock_config_default" and ?t = "replicate 20 CHR ''a''"
  have enc: "zero_tokens ?t = Inr (replicate 20 0)" by (simp add: zero_tokens_def)
  obtain m1 r1 where r1: "simulate_prefill zero_tokens ?t ?m = (m1, r1)" by (cases "simulate_prefill zero_tokens ?t ?m")
  obtain m2 r2 where r2: "simulate_prefill zero_tokens ?t m1 = (m2, r2)" by (cases "simulate_prefill zero_tokens ?t m1")
  have fields: "kv_cache ?m = kv_new 4096" "prefill_us_per_token (mcfg ?m) = 200"
    by (simp_all add: mock_service_new_def mock_config_default_def)
  have room: "headroom (length (block_hashes (replicate 20 0))) (kv_cache ?m)"
    by (simp add: fields headroom_def length_block_hashes BLOCK_SIZE_def)
  show ?thesis
    using prefill_pays_for_uncached[OF enc _ _ _ room _ r1 r2] r1 r2
    by (auto simp: fields BLOCK_SIZE_def)
qed

subsection \<open>Decoding\<close>

lemma decode_loop_sends:
  "sends tx (map (\<lambda>k. Inr (decode_chunk (mcfg m) req cached total_blocks k)) ks)
     (fst (snd (decode_loop req cached total_blocks ks m tx))) \<and>
   (gone_after tx = None \<longrightarrow> \<not> snd (snd (decode_loop req cached total_blocks ks m tx)) \<and>
     fst (decode_loop req cached total_blocks ks m tx) =
       m\<lparr>decode_slept_ms := decode_slept_ms m + length ks * unat (decode_interval_ms (mcfg m))\<rparr>)"
proof (induction ks arbitrary: m tx)
  case Nil
  then show ?case by simp
next
  case (Cons k ks)
  let ?m = "m\<lparr>decode_slept_ms := decode_slept_ms m + unat (decode_interval_ms (mcfg m))\<rparr>"
  let ?c = "Inr (decode_chunk (mcfg m) req cached total_blocks k)"
  show ?case
  proof (cases "tx_open tx")
    case True
    define tx1 where "tx1 = tx\<lparr>sent := sent tx @ [?c]\<rparr>"
    have s: "tx_send ?c tx = (tx1, True)" using True by (simp add: tx_send_def tx1_def)
    have "sends tx [?c] tx1" using tx_send_sends[of tx ?c] s by simp
    from sends_append[OF this Cons.IH[of tx1 ?m, THEN conjunct1]] Cons.IH[of tx1 ?m] s show ?thesis
      by (auto simp: Let_def tx1_def add.commute add.left_commute)
  next
    case False
    then have "tx_send ?c tx = (tx, False)" by (simp add: tx_send_def)
    with sends_blocked[OF False] False show ?thesis by (simp add: Let_def tx_open_def split: option.splits)
  qed
qed

lemma decode_chunks_reply:
  assumes "0 < decode_chunks c"
  shows "map (decode_chunk c req cached total_blocks) [0..<decode_chunks c] =
    replicate (decode_chunks c - 1) (stream_chunk (make_response req 0 0 ''mock-chunk'')) @
    [stream_chunk (make_response req cached total_blocks ''mock-final'')]"
proof -
  from assms obtain n where n: "decode_chunks c = Suc n" by (cases "decode_chunks c") auto
  have "map (decode_chunk c req cached total_blocks) [0..<n] = map (\<lambda>_. stream_chunk (make_response req 0 0 ''mock-chunk'')) [0..<n]"
    by (rule map_cong) (simp_all add: decode_chunk_def n Let_def)
  then show ?thesis by (simp add: n decode_chunk_def Let_def map_replicate_const)
qed

lemma stream_one_request:
  assumes "mock_extract_text req = Inr prompt" and "encode prompt = Inr ids" and "gone_after tx = None"
  obtains m' tx' where "mock_model_stream_infer encode status_text [Inr req] m tx = (m', tx')"
    "sent tx' = sent tx @
      map Inr (map (decode_chunk (mcfg m) req (lookup (kv_cache m) (block_hashes ids)) (length ids div BLOCK_SIZE)) [0..<decode_chunks (mcfg m)])"
    "gone_after tx' = gone_after tx"
    "decode_slept_ms m' = decode_slept_ms m + decode_chunks (mcfg m) * unat (decode_interval_ms (mcfg m))"
    "total_blocks_total m' = total_blocks_total m + word_of_nat (length ids div BLOCK_SIZE)"
proof -
  let ?cached = "lookup (kv_cache m) (block_hashes ids)" and ?total = "length ids div BLOCK_SIZE"
  obtain m1 where m1: "simulate_prefill encode prompt m = (m1, Inr (?cached, ?total))" "mcfg m1 = mcfg m"
    "decode_slept_ms m1 = decode_slept_ms m" "total_blocks_total m1 = total_blocks_total m + word_of_nat ?total"
    by (simp add: simulate_prefill_tokens[of encode prompt ids, OF assms(2)])
  let ?loop = "decode_loop req ?cached ?total [0..<decode_chunks (mcfg m1)] m1 tx"
  from decode_loop_sends[of tx m1 req ?cached ?total "[0..<decode_chunks (mcfg m1)]"] assms(3)
  have loop: "sends tx (map (\<lambda>k. Inr (decode_chunk (mcfg m1) req ?cached ?total k)) [0..<decode_chunks (mcfg m1)]) (fst (snd ?loop))"
    "\<not> snd (snd ?loop)" "fst ?loop = m1\<lparr>decode_slept_ms := decode_slept_ms m1 + decode_chunks (mcfg m) * unat (decode_interval_ms (mcfg m))\<rparr>"
    using m1(2) by simp_all
  have "mock_model_stream_infer encode status_text [Inr req] m tx = (fst ?loop, fst (snd ?loop))"
    using assms(1) m1(1) loop(2) by (auto split: prod.splits)
  moreover from loop(1) m1(2) assms(3)
  have "sent (fst (snd ?loop)) = sent tx @ map Inr (map (decode_chunk (mcfg m) req ?cached ?total) [0..<decode_chunks (mcfg m)])"
    by (simp add: sends_def delivered_def comp_def)
  moreover from loop(1) have "gone_after (fst (snd ?loop)) = gone_after tx" by (simp add: sends_def)
  ultimately show thesis using that loop(3) m1 by simp
qed

text \<open>C37. Decoding. A request whose text can be read and tokenized is answered, if the client stays,
  with exactly the configured number of chunks, each after one interval; only the last one
  carries the block counts. With zero chunks configured it gets no reply at all, although its
  blocks are cached and counted.\<close>

theorem stream_chunks_exact:
  assumes "mock_extract_text req = Inr txt" and "encode txt = Inr ids" and "gone_after tx = None"
    and "mock_model_stream_infer encode status_text [Inr req] m tx = (m', tx')"
  shows "sent tx' = sent tx @ map Inr
      (if decode_chunks (mcfg m) = 0 then []
       else replicate (decode_chunks (mcfg m) - 1) (stream_chunk (make_response req 0 0 ''mock-chunk'')) @
         [stream_chunk (make_response req (lookup (kv_cache m) (block_hashes ids)) (length ids div BLOCK_SIZE) ''mock-final'')]) \<and>
    decode_slept_ms m' = decode_slept_ms m + decode_chunks (mcfg m) * unat (decode_interval_ms (mcfg m)) \<and>
    total_blocks_total m' = total_blocks_total m + word_of_nat (length ids div BLOCK_SIZE)"
proof (rule stream_one_request[where encode = encode and prompt = "txt" and status_text = status_text and m = m, OF assms(1-3)])
  fix n ty assume run: "mock_model_stream_infer encode status_text [Inr req] m tx = (n, ty)"
    and sent: "sent ty = sent tx @ map Inr (map (decode_chunk (mcfg m) req (lookup (kv_cache m) (block_hashes ids)) (length ids div BLOCK_SIZE)) [0..<decode_chunks (mcfg m)])"
    and "gone_after ty = gone_after tx" and rest: "decode_slept_ms n = decode_slept_ms m + decode_chunks (mcfg m) * unat (decode_interval_ms (mcfg m))"
      "total_blocks_total n = total_blocks_total m + word_of_nat (length ids div BLOCK_SIZE)"
  have "n = m'" "ty = tx'" using run assms(4) by simp_all
  with sent rest show ?thesis
    using decode_chunks_reply[of "mcfg m" req "lookup (kv_cache m) (block_hashes ids)" "length ids div BLOCK_SIZE"]
    by (cases "decode_chunks (mcfg m) = 0") (simp_all del: map_map)
qed

theorem stream_chunks_exact_witness:
  "\<exists>m' tx'. mock_model_stream_infer zero_tokens message [Inr (text_request [])]
      (mock_service_new mock_config_default) \<lparr>sent = [], gone_after = None\<rparr> = (m', tx') \<and>
    length (sent tx') = 4 \<and> decode_slept_ms m' = 20"
proof -
  have text_ok: "mock_extract_text (text_request []) = Inr []" "zero_tokens [] = Inr []"
    by (simp_all add: mock_extract_text_def text_request_def from_utf8_def zero_tokens_def)
  obtain m' tx' where run: "mock_model_stream_infer zero_tokens message [Inr (text_request [])]
      (mock_service_new mock_config_default) \<lparr>sent = [], gone_after = None\<rparr> = (m', tx')" by fastforce
  have cfg: "decode_chunks (mcfg (mock_service_new mock_config_default)) = 4"
    "decode_interval_ms (mcfg (mock_service_new mock_config_default)) = 5"
    "decode_slept_ms (mock_service_new mock_config_default) = 0"
    by (simp_all add: mock_service_new_def mock_config_default_def)
  from stream_chunks_exact[OF text_ok _ run] run show ?thesis by (auto simp: cfg)
qed

end
