(* ===== verification/Loadgen.thy ===== *)
theory Loadgen
  imports Proto F64
begin

text \<open>
  \<open>crates/loadgen\<close>: the conversations of a ShareGPT trace as requests with growing prompts, and the
  replay of one conversation. The parsed JSON is the input; the conversations side by side are in
  \<open>Load_Run\<close>, the printed report in \<open>Load_Report\<close>.
\<close>

subsection \<open>trace.rs\<close>

record raw_turn =
  raw_from :: string
  raw_value :: string

record raw_conversation =
  raw_id :: string
  raw_conversations :: "raw_turn list"

record conversation =
  conv_id :: string
  turns :: "string list"

definition newline :: string where
  "newline = [CHR 0x0A]"

text \<open>The loop over the turns: the history grows, and every human turn is a request.\<close>

fun build_turns :: "raw_turn list \<Rightarrow> string \<Rightarrow> string list" where
  "build_turns [] history = []"
| "build_turns (t # ts) history =
     (if raw_from t = ''human''
      then let history = history @ ''USER: '' @ raw_value t @ newline in history # build_turns ts history
      else let history = history @ ''ASSISTANT: '' @ raw_value t @ newline in build_turns ts history)"

fun load_conversations :: "usize \<Rightarrow> raw_conversation list \<Rightarrow> conversation list \<Rightarrow> conversation list" where
  "load_conversations max_conversations [] out = out"
| "load_conversations max_conversations (rc # rcs) out =
     (let ts = build_turns (raw_conversations rc) [];
          out = (if ts \<noteq> [] then out @ [\<lparr>conv_id = raw_id rc, turns = ts\<rparr>] else out)
      in if max_conversations \<le> length out then out else load_conversations max_conversations rcs out)"

definition load_sharegpt :: "raw_conversation list \<Rightarrow> usize \<Rightarrow> conversation list" where
  "load_sharegpt raw max_conversations = load_conversations max_conversations raw []"

subsection \<open>main.rs\<close>

record request_result =
  latency_ms :: f64
  cached_blocks :: int
  total_blocks :: int

record conv_outcome =
  results :: "request_result list"
  failed :: bool

definition infer_request :: "string \<Rightarrow> model_infer_request" where
  "infer_request txt =
     infer_request_default\<lparr>req_model_name := ''mock'',
       inputs := [input_tensor_default\<lparr>in_name := ''text_input'', in_datatype := ''BYTES'', in_shape := [1],
         in_contents := Some (tensor_contents_default\<lparr>bytes_contents := [txt]\<rparr>)\<rparr>]\<rparr>"

definition param_i64 :: "model_infer_response \<Rightarrow> string \<Rightarrow> int" where
  "param_i64 resp key =
     (case hm_get (parameters resp) key of Some (Some (Int64Param v)) \<Rightarrow> v | _ \<Rightarrow> 0)"

text \<open>
  The task of one conversation; \<open>infer\<close> is the awaited call to the router, and \<open>elapsed\<close> the seconds
  between two states of the world, which \<open>Instant\<close> measures.
\<close>

definition result_of :: "f64 \<Rightarrow> model_infer_response \<Rightarrow> request_result" where
  "result_of secs resp =
     \<lparr>latency_ms = f64_mul secs (F64 1000 0), cached_blocks = param_i64 resp ''cached_blocks'',
      total_blocks = param_i64 resp ''total_blocks''\<rparr>"

fun replay ::
  "('w \<Rightarrow> 'w \<Rightarrow> f64) \<Rightarrow> (model_infer_request \<Rightarrow> 'w \<Rightarrow> 'w \<times> (status + model_infer_response)) \<Rightarrow>
    string list \<Rightarrow> request_result list \<Rightarrow> 'w \<Rightarrow> 'w \<times> conv_outcome" where
  "replay elapsed infer [] acc w = (w, \<lparr>results = acc, failed = False\<rparr>)"
| "replay elapsed infer (turn # rest) acc w =
     (case infer (infer_request turn) w of
        (w', Inr resp) \<Rightarrow> replay elapsed infer rest (acc @ [result_of (elapsed w w') resp]) w'
      | (w', Inl st) \<Rightarrow> (w', \<lparr>results = acc, failed = True\<rparr>))"

text \<open>The summary over all conversations: results, failed requests, abandoned conversations.\<close>

fun collect_outcomes :: "conv_outcome list \<Rightarrow> request_result list \<Rightarrow> nat \<Rightarrow> nat \<Rightarrow> request_result list \<times> nat \<times> nat" where
  "collect_outcomes [] all failed_requests abandoned = (all, failed_requests, abandoned)"
| "collect_outcomes (o1 # os) all failed_requests abandoned =
     (if failed o1 then collect_outcomes os (all @ results o1) (failed_requests + 1) (abandoned + 1)
      else collect_outcomes os (all @ results o1) failed_requests abandoned)"

subsection \<open>Properties\<close>

lemma build_turns_longer: "t \<in> set (build_turns ts h) \<Longrightarrow> strict_prefix h t"
proof (induction ts arbitrary: h)
  case (Cons u ts)
  let ?user = "h @ ''USER: '' @ raw_value u @ newline" and ?assistant = "h @ ''ASSISTANT: '' @ raw_value u @ newline"
  have "strict_prefix h ?user" "strict_prefix h ?assistant" by (simp_all add: strict_prefix_def)
  moreover have "t = ?user \<or> t \<in> set (build_turns ts ?user) \<or> t \<in> set (build_turns ts ?assistant)"
    using Cons.prems by (auto simp: Let_def split: if_splits)
  ultimately show ?case using Cons.IH prefix_order.less_trans by blast
qed simp

lemma build_turns_growing: "sorted_wrt strict_prefix (build_turns ts h)"
  by (induction ts arbitrary: h) (auto simp: Let_def dest: build_turns_longer)

lemma length_build_turns: "length (build_turns ts h) = length (filter (\<lambda>t. raw_from t = ''human'') ts)"
  by (induction ts arbitrary: h) (simp_all add: Let_def)

lemma load_conversations_eq:
  assumes "length out < n"
  shows "load_conversations n rcs out = take n
    (out @ map (\<lambda>rc. \<lparr>conv_id = raw_id rc, turns = build_turns (raw_conversations rc) []\<rparr>)
      (filter (\<lambda>rc. build_turns (raw_conversations rc) [] \<noteq> []) rcs))"
  using assms
proof (induction rcs arbitrary: out)
  case Nil
  then show ?case by simp
next
  case (Cons rc rcs)
  let ?ts = "build_turns (raw_conversations rc) []"
  let ?out = "if ?ts \<noteq> [] then out @ [\<lparr>conv_id = raw_id rc, turns = ?ts\<rparr>] else out"
  show ?case
  proof (cases "n \<le> length ?out")
    case True
    with Cons.prems have "?ts \<noteq> []" "n = Suc (length out)" by (auto split: if_splits)
    then show ?thesis by (simp add: Let_def)
  next
    case False
    then have "length ?out < n" by simp
    from Cons.IH[OF this] False show ?thesis by (cases "?ts = []") (simp_all add: Let_def take_Cons')
  qed
qed

text \<open>C38. The trace as requests: the loader returns, in order and up to the cap, the conversations
  that have a human turn, one prompt per human turn, each prompt a proper extension of the one
  before. With a cap of zero it still returns the first conversation if that has a human turn.\<close>

theorem load_sharegpt_growing_prompts:
  "map turns (load_sharegpt raw n) =
     (if n = 0 then filter (\<lambda>ts. ts \<noteq> []) (map (\<lambda>rc. build_turns (raw_conversations rc) []) (take 1 raw))
      else take n (filter (\<lambda>ts. ts \<noteq> []) (map (\<lambda>rc. build_turns (raw_conversations rc) []) raw))) \<and>
   length (build_turns ts h) = length (filter (\<lambda>t. raw_from t = ''human'') ts) \<and>
   sorted_wrt strict_prefix (build_turns ts h)"
proof (intro conjI)
  show "map turns (load_sharegpt raw n) =
     (if n = 0 then filter (\<lambda>ts. ts \<noteq> []) (map (\<lambda>rc. build_turns (raw_conversations rc) []) (take 1 raw))
      else take n (filter (\<lambda>ts. ts \<noteq> []) (map (\<lambda>rc. build_turns (raw_conversations rc) []) raw)))"
  proof (cases "n = 0")
    case True
    then show ?thesis by (cases raw) (simp_all add: load_sharegpt_def Let_def)
  next
    case False
    then show ?thesis
      unfolding load_sharegpt_def by (subst load_conversations_eq) (simp_all add: take_map filter_map comp_def)
  qed
qed (simp_all add: length_build_turns build_turns_growing)

lemma replay_counts:
  "replay elapsed infer ts acc w = (w', o1) \<Longrightarrow>
    length acc \<le> length (results o1) \<and> length (results o1) \<le> length acc + length ts \<and>
    (failed o1 \<longleftrightarrow> length (results o1) < length acc + length ts)"
  by (induction elapsed infer ts acc w arbitrary: w' o1 rule: replay.induct) (fastforce split: prod.splits sum.splits)+

lemma collect_outcomes_eq:
  "collect_outcomes os all f a =
    (all @ concat (map results os), f + length (filter failed os), a + length (filter failed os))"
  by (induction os arbitrary: all f a) simp_all

text \<open>The summary is honest: the replay of a conversation stops at its first error and has one
  result per answered turn, it counts as failed exactly if some turn has no result, and the
  summary has the results of all conversations and as many failed requests as abandoned
  conversations, namely the number of those that failed.\<close>

theorem summary_counts:
  "(replay elapsed infer ts [] w = (w', o1) \<longrightarrow>
     length (results o1) \<le> length ts \<and> (failed o1 \<longleftrightarrow> length (results o1) < length ts)) \<and>
   collect_outcomes os [] 0 0 =
     (concat (map results os), length (filter failed os), length (filter failed os))"
  using replay_counts[of elapsed infer ts "[]" w w' o1] by (simp add: collect_outcomes_eq)

theorem summary_counts_witness:
  "failed (snd (replay (\<lambda>_ _. f64_zero) (\<lambda>req n. (n + 1, if n = 0 then Inr \<lparr>resp_model_name = [], resp_model_version = [], resp_id = [], parameters = [], outputs = []\<rparr>
        else Inl (status_of Unavailable []))) [''a'', ''b''] [] (0 :: nat)))"
proof -
  let ?infer = "\<lambda>req n. (n + 1, if n = 0 then Inr \<lparr>resp_model_name = [], resp_model_version = [], resp_id = [], parameters = [], outputs = []\<rparr>
        else Inl (status_of Unavailable []))"
  obtain w' o1 where run: "replay (\<lambda>_ _. f64_zero) ?infer [''a'', ''b''] [] (0 :: nat) = (w', o1)" by fastforce
  then have "length (results o1) = 1" by auto
  with summary_counts[of "\<lambda>_ _. f64_zero" ?infer "[''a'', ''b'']" "0 :: nat" w' o1 "[]"] run show ?thesis by simp
qed

end
