(* ===== verification/Wire.thy ===== *)
theory Wire
  imports Router_Server Mock_Service Loadgen
begin

text \<open>
  What travels: a prompt from the load generator to the two services, and the block counts and the
  text of a response back. The writers and readers are \<open>infer_request\<close> and \<open>param_i64\<close> of
  \<open>loadgen/src/main.rs\<close>, \<open>extract_text\<close> of \<open>router/src/server.rs\<close> and of
  \<open>mock-triton/src/service.rs\<close>, and \<open>make_response\<close> of the latter.
\<close>

subsection \<open>Prompts are UTF-8\<close>

text \<open>The strings of a parsed JSON file are valid.\<close>

definition valid_trace :: "raw_conversation list \<Rightarrow> bool" where
  "valid_trace raw = list_all (\<lambda>rc. list_all (\<lambda>t. utf8_valid (raw_value t)) (raw_conversations rc)) raw"

lemma speaker_valid: "utf8_valid (''USER: '' @ s)" "utf8_valid (''ASSISTANT: '' @ s)" "utf8_valid newline"
  if "utf8_valid s"
  using that by (simp_all add: newline_def utf8_lead_def in_byte_range_def)

lemma build_turns_valid:
  "utf8_valid h \<Longrightarrow> list_all (\<lambda>t. utf8_valid (raw_value t)) ts \<Longrightarrow> list_all utf8_valid (build_turns ts h)"
proof (induction ts arbitrary: h)
  case (Cons t ts)
  then have "utf8_valid (''USER: '' @ raw_value t)" "utf8_valid (''ASSISTANT: '' @ raw_value t)" "utf8_valid newline"
    using speaker_valid by simp_all
  with Cons.prems(1) have "utf8_valid (h @ (''USER: '' @ raw_value t) @ newline)"
    and "utf8_valid (h @ (''ASSISTANT: '' @ raw_value t) @ newline)"
    by (metis utf8_valid_append)+
  with Cons show ?case by (simp add: Let_def)
qed simp

lemma load_conversations_valid:
  "valid_trace raw \<Longrightarrow> list_all (\<lambda>c. list_all utf8_valid (turns c)) out \<Longrightarrow>
    list_all (\<lambda>c. list_all utf8_valid (turns c)) (load_conversations n raw out)"
proof (induction raw arbitrary: out)
  case (Cons rc raw)
  then have "list_all utf8_valid (build_turns (raw_conversations rc) [])"
    by (intro build_turns_valid) (simp_all add: valid_trace_def)
  with Cons show ?case by (simp add: Let_def valid_trace_def)
qed simp

subsection \<open>Requests\<close>

lemma extract_infer_request:
  "extract_text (infer_request s) = (case from_utf8 s of None \<Rightarrow> Inl (status_of InvalidArgument ''text_input not utf8'') | Some txt \<Rightarrow> Inr txt)"
  "mock_extract_text (infer_request s) = (case from_utf8 s of None \<Rightarrow> Inl (status_of InvalidArgument ''text_input not utf8'') | Some txt \<Rightarrow> Inr txt)"
  by (simp_all add: extract_text_def mock_extract_text_def text_input_tensor_def first_bytes_def infer_request_def)

lemma extract_text_valid: "extract_text req = Inr s \<Longrightarrow> utf8_valid s"
  "mock_extract_text req = Inr s \<Longrightarrow> utf8_valid s"
  by (auto simp: extract_text_def mock_extract_text_def from_utf8_def split: option.splits if_splits)

subsection \<open>Responses\<close>

lemma param_make_response:
  "param_i64 (make_response req m k s) ''cached_blocks'' = as_i64 m"
  "param_i64 (make_response req m k s) ''total_blocks'' = as_i64 k"
  by (simp_all add: param_i64_def make_response_def hm.get_after_insert hm_wf_def hm_get_def hm_insert_def)

text \<open>C24. Round trips. Every prompt that the loader makes from a trace comes out of the request built for
  it unchanged, at the router and at the replica; and the two block counts that the replica puts
  into a response are the ones the load generator reads from it, for every count below 2^63, under
  the model name and id of the request.\<close>

theorem prompts_and_counts_roundtrip:
  assumes "valid_trace raw" and "conv \<in> set (load_sharegpt raw n)" and "prompt \<in> set (turns conv)"
    and "m < 2 ^ 63" and "k < 2 ^ 63"
  shows "extract_text (infer_request prompt) = Inr prompt \<and> mock_extract_text (infer_request prompt) = Inr prompt \<and>
    param_i64 (make_response (infer_request prompt) m k s) ''cached_blocks'' = int m \<and>
    param_i64 (make_response (infer_request prompt) m k s) ''total_blocks'' = int k \<and>
    resp_model_name (make_response (infer_request prompt) m k s) = req_model_name (infer_request prompt)"
proof -
  have "list_all (\<lambda>c. list_all utf8_valid (turns c)) (load_sharegpt raw n)"
    unfolding load_sharegpt_def by (rule load_conversations_valid[OF assms(1)]) simp
  with assms(2,3) have "utf8_valid prompt" by (auto simp: list_all_iff)
  then have "from_utf8 prompt = Some prompt" by (simp add: from_utf8_def)
  with assms(4,5) show ?thesis
    by (simp add: extract_infer_request param_make_response as_i64_small) (simp add: make_response_def)
qed

theorem prompts_and_counts_roundtrip_witness:
  "extract_text (infer_request (''USER: '' @ ''hi'' @ newline)) = Inr (''USER: '' @ ''hi'' @ newline)"
proof -
  let ?raw = "[\<lparr>raw_id = [], raw_conversations = [\<lparr>raw_from = ''human'', raw_value = ''hi''\<rparr>]\<rparr>]"
  let ?conv = "\<lparr>conv_id = [], turns = [''USER: '' @ ''hi'' @ newline]\<rparr>"
  have "valid_trace ?raw" by (simp add: valid_trace_def utf8_lead_def in_byte_range_def)
  moreover have "?conv \<in> set (load_sharegpt ?raw 1)" by (simp add: load_sharegpt_def Let_def)
  ultimately show ?thesis
    using prompts_and_counts_roundtrip[of ?raw ?conv 1 "''USER: '' @ ''hi'' @ newline" 3 4 "[]"] by simp
qed

subsection \<open>Well-typed messages\<close>

text \<open>
  What Rust's types promise of a message: a \<open>String\<close> is UTF-8, an \<open>i32\<close> and an \<open>i64\<close> are in range.
  Bytes can be anything.
\<close>

definition wt_i64 :: "int \<Rightarrow> bool" where
  "wt_i64 v = (- (2 ^ 63) \<le> v \<and> v < 2 ^ 63)"

definition wt_i32 :: "int \<Rightarrow> bool" where
  "wt_i32 v = (- (2 ^ 31) \<le> v \<and> v < 2 ^ 31)"

fun wt_parameter :: "infer_parameter \<Rightarrow> bool" where
  "wt_parameter (Some (Int64Param v)) = wt_i64 v"
| "wt_parameter (Some (StringParam s)) = utf8_valid s"
| "wt_parameter p = True"

definition wt_parameters :: "parameter_map \<Rightarrow> bool" where
  "wt_parameters ps = list_all (\<lambda>(k, v). utf8_valid k \<and> wt_parameter v) ps"

definition wt_contents :: "infer_tensor_contents \<Rightarrow> bool" where
  "wt_contents c = (list_all wt_i32 (int_contents c) \<and> list_all wt_i64 (int64_contents c))"

definition wt_input :: "infer_input_tensor \<Rightarrow> bool" where
  "wt_input t =
     (utf8_valid (in_name t) \<and> utf8_valid (in_datatype t) \<and> list_all wt_i64 (in_shape t) \<and>
      wt_parameters (in_parameters t) \<and> pred_option wt_contents (in_contents t))"

definition wt_output :: "infer_output_tensor \<Rightarrow> bool" where
  "wt_output t =
     (utf8_valid (out_name t) \<and> utf8_valid (out_datatype t) \<and> list_all wt_i64 (out_shape t) \<and>
      wt_parameters (out_parameters t) \<and> pred_option wt_contents (out_contents t))"

definition wt_status :: "status \<Rightarrow> bool" where
  "wt_status st = utf8_valid (message st)"

definition wt_request :: "model_infer_request \<Rightarrow> bool" where
  "wt_request req =
     (utf8_valid (req_model_name req) \<and> utf8_valid (req_model_version req) \<and> utf8_valid (req_id req) \<and>
      wt_parameters (req_parameters req) \<and> list_all wt_input (inputs req) \<and>
      list_all (\<lambda>t. utf8_valid (requested_name t) \<and> wt_parameters (requested_parameters t)) (requested_outputs req))"

definition wt_response :: "model_infer_response \<Rightarrow> bool" where
  "wt_response resp =
     (utf8_valid (resp_model_name resp) \<and> utf8_valid (resp_model_version resp) \<and> utf8_valid (resp_id resp) \<and>
      wt_parameters (parameters resp) \<and> list_all wt_output (outputs resp))"

fun wt_result :: "status + model_infer_response \<Rightarrow> bool" where
  "wt_result (Inl st) = wt_status st"
| "wt_result (Inr resp) = wt_response resp"

lemma wt_one [simp]: "wt_i64 1"
  by (simp add: wt_i64_def)

lemma wt_infer_request: "wt_request (infer_request s)"
  by (simp add: wt_request_def infer_request_def infer_request_default_def wt_parameters_def wt_input_def input_tensor_default_def
      wt_contents_def tensor_contents_default_def utf8_lead_def in_byte_range_def)

lemma wt_as_i64: "wt_i64 (as_i64 n)"
  using sint_range_size[of "word_of_nat n :: 64 word"] by (simp add: wt_i64_def as_i64_def word_size)

lemma ascii_literals [simp]:
  "utf8_valid ''missing text_input bytes tensor''" "utf8_valid ''text_input not utf8''"
  "utf8_valid ''no healthy replicas''" "utf8_valid ''all replicas saturated''"
  "utf8_valid ''text_output''" "utf8_valid ''BYTES''" "utf8_valid ''cached_blocks''" "utf8_valid ''total_blocks''"
  "utf8_valid ''1''" "utf8_valid ''tokenize: ''" "utf8_valid ''all attempts failed: ''" "utf8_valid '': ''"
  by (rule utf8_valid_ascii; simp)+

lemma wt_make_response: "wt_request req \<Longrightarrow> wt_response (make_response req m k s)"
  unfolding wt_response_def make_response_def wt_request_def hm_insert_def wt_parameters_def wt_output_def wt_contents_def
  by (simp add: wt_as_i64 tensor_contents_default_def del: utf8_valid_simps)

text \<open>The parameters of the model return valid strings too.\<close>

definition wt_encode :: "(string \<Rightarrow> string + u32 list) \<Rightarrow> bool" where
  "wt_encode encode = (\<forall>s e. encode s = Inl e \<longrightarrow> utf8_valid e)"

definition wt_code_text :: "(status_code \<Rightarrow> string) \<Rightarrow> bool" where
  "wt_code_text code_text = (\<forall>c. utf8_valid (code_text c))"

definition wt_upstream :: "'w upstream \<Rightarrow> bool" where
  "wt_upstream upstream = (\<forall>i req w. wt_request req \<longrightarrow> wt_result (snd (upstream i req w)))"

lemma wt_status_of [simp]: "wt_status (status_of c msg) = utf8_valid msg"
  by (simp add: wt_status_def)

lemma wt_extract_text:
  "extract_text req = Inl st \<Longrightarrow> wt_status st" "mock_extract_text req = Inl st \<Longrightarrow> wt_status st"
  by (auto simp: extract_text_def mock_extract_text_def simp del: utf8_valid_simps split: option.splits)

lemma wt_hash_prompt: "wt_encode encode \<Longrightarrow> hash_prompt (tokenize encode) s = Inl st \<Longrightarrow> wt_status st"
  by (auto simp: hash_prompt_def tokenize_def wt_encode_def utf8_lead_def in_byte_range_def split: sum.splits)

lemma wt_pick_status: "wt_status (pick_status e)"
  by (cases e) (simp_all del: utf8_valid_simps)

lemma wt_pick_replica:
  assumes "pick_replica r hs = Some (r', Inl st)"
  shows "wt_status st"
proof -
  from assms obtain s p where "pick (sched r) hs = Some (s, p)"
    by (auto simp: pick_replica_def bind_eq_Some_conv)
  with assms wt_pick_status show ?thesis
    by (cases p) (auto simp: pick_replica_def bind_eq_Some_conv Let_def)
qed

lemma wt_attempt:
  assumes "wt_upstream upstream" and "wt_request req" and "attempt upstream req hs rw = Some (rw', res)"
  shows "case res of Inl st \<Rightarrow> wt_status st | Inr (d, r) \<Rightarrow> wt_result r"
proof -
  from assms(1,2) have "wt_result (snd (upstream i req w))" for i w unfolding wt_upstream_def by blast
  moreover from assms(3) obtain r picked where p: "pick_replica (fst rw) hs = Some (r, picked)"
    by (auto simp: attempt_def bind_eq_Some_conv)
  ultimately show ?thesis
    using assms(3) wt_pick_replica[of "fst rw" hs r]
    by (cases picked) (auto simp: attempt_def bind_eq_Some_conv Let_def split: prod.split_asm, metis snd_conv)
qed

lemma wt_all_failed: "wt_code_text code_text \<Longrightarrow> wt_status st \<Longrightarrow> wt_status (all_attempts_failed code_text st)"
  by (auto simp: all_attempts_failed_def wt_status_def wt_code_text_def utf8_lead_def in_byte_range_def
      intro!: utf8_valid_append)

lemma wt_model_infer_attempts:
  assumes env: "wt_encode encode" "wt_code_text code_text" "wt_upstream upstream" and req: "wt_request req"
    and run: "model_infer_attempts (tokenize encode) code_text upstream req rw = Some (rw', res)"
  shows "wt_result res"
proof -
  note typed = wt_attempt[OF env(3) req]
  show ?thesis
  proof (cases "extract_text req")
    case (Inl st)
    with run wt_extract_text(1)[OF Inl] show ?thesis by (auto simp: model_infer_attempts_def)
  next
    case (Inr s)
    show ?thesis
    proof (cases "hash_prompt (tokenize encode) s")
      case (Inl st)
      with run Inr wt_hash_prompt[OF env(1) Inl] show ?thesis by (auto simp: model_infer_attempts_def)
    next
      case hs: (Inr hs)
      with run Inr obtain r w first where a1: "attempt upstream req hs rw = Some ((r, w), first)"
        by (auto simp: model_infer_attempts_def bind_eq_Some_conv)
      note run1 = run[unfolded model_infer_attempts_def Inr hs sum.case a1]
      show ?thesis
      proof (cases "\<exists>d st. first = Inr (d, Inl st) \<and> is_transport_failure st")
        case True
        then obtain d st where first: "first = Inr (d, Inl st)" "is_transport_failure st" by blast
        from run1 first obtain r1 r2 w2 second where a2: "attempt upstream req hs (r1, w) = Some ((r2, w2), second)"
          and run2: "(case second of
                         Inl st \<Rightarrow> Some ((r2, w2), Inl st)
                       | Inr (d, Inr resp) \<Rightarrow> Some ((record_served r2 (length hs) d, w2), Inr resp)
                       | Inr (d, Inl st) \<Rightarrow>
                           if is_transport_failure st then do {
                             r \<leftarrow> router_mark_unhealthy r2 (replica d);
                             Some ((r, w2), Inl (all_attempts_failed code_text st))
                           } else Some ((r2, w2), Inl st)) = Some (rw', res)"
          by (auto simp: bind_eq_Some_conv)
        then show ?thesis
          using typed[OF a2] wt_all_failed[OF env(2)]
          by (cases second)
            (auto simp: bind_eq_Some_conv split: sum.split_asm prod.split_asm if_split_asm)
      next
        case False
        with run1 typed[OF a1] show ?thesis by (auto split: sum.split_asm prod.split_asm)
      qed
    qed
  qed
qed

lemma wt_mock_infer:
  assumes "wt_encode encode" and "wt_request req"
  shows "wt_result (snd (mock_model_infer encode req m))"
proof (cases "mock_extract_text req")
  case (Inl st)
  then show ?thesis using wt_extract_text(2) by (simp add: mock_model_infer_def)
next
  case (Inr s)
  show ?thesis
  proof (cases "encode s")
    case (Inl e)
    with assms(1) have "utf8_valid e" by (simp add: wt_encode_def)
    with Inl Inr show ?thesis
      by (simp add: mock_model_infer_def simulate_prefill_def wt_status_def utf8_lead_def in_byte_range_def)
  next
    case ids: (Inr ids)
    with Inr wt_make_response[OF assms(2)] show ?thesis
      by (simp add: mock_model_infer_def simulate_prefill_def Let_def split: prod.split)
  qed
qed

end
