(* ===== verification/Fleet.thy ===== *)
theory Fleet
  imports Scheduler_Props Kv_Cache_Sim
begin

text \<open>
  The scheduler together with the caches it predicts. The first part shows that a prompt goes
  back to the replica that served it, the second that the match count of a decision is the hit
  count the replica then reports.
\<close>

subsection \<open>Runs short enough for the counters\<close>

fun sched_cost :: "sched_op \<Rightarrow> nat" where
  "sched_cost (Pick hs) = Suc (length hs)"
| "sched_cost _ = 0"

definition sched_run_cost :: "sched_op list \<Rightarrow> nat" where
  "sched_run_cost ps = sum_list (map sched_cost ps)"

text \<open>Every replica's cache is in order and has \<open>n\<close> touches to go before a counter wraps.\<close>

definition sched_room :: "nat \<Rightarrow> scheduler \<Rightarrow> bool" where
  "sched_room n s =
     (\<forall>r\<in>set (replicas s). lru_wf (cache r) \<and> lru_ordered (cache r) \<and> counters_below n (cache r))"

lemma counters_below_mono: "counters_below n c \<Longrightarrow> m \<le> n \<Longrightarrow> counters_below m c"
  by (simp add: counters_below_def)

lemma sched_room_mono: "sched_room n s \<Longrightarrow> m \<le> n \<Longrightarrow> sched_room m s"
  using counters_below_mono by (auto simp: sched_room_def)

lemma sched_room_nth:
  "sched_room n s \<Longrightarrow> i < length (replicas s) \<Longrightarrow>
    lru_wf (cache (replicas s ! i)) \<and> lru_ordered (cache (replicas s ! i)) \<and> counters_below n (cache (replicas s ! i))"
  by (simp add: sched_room_def)

lemma sched_room_update:
  assumes "sched_room n s" and "lru_wf (cache r)" "lru_ordered (cache r)" "counters_below n (cache r)"
  shows "sched_room n (s\<lparr>replicas := (replicas s)[i := r]\<rparr>)"
  using assms set_update_subset_insert[of "replicas s" i r] by (auto simp: sched_room_def)

lemma sched_room_new: "n < 2 ^ 64 \<Longrightarrow> sched_room n (scheduler_new k pol c)"
  by (auto simp: sched_room_def scheduler_new_def new_replica_def counters_below_def pc.inv_new pc.ordered_new lru_simps)

lemma routed_room:
  assumes "lru_wf (cache r)" "lru_ordered (cache r)" "counters_below (Suc (length hs) + n) (cache r)"
  shows "lru_wf (cache (routed s hs r)) \<and> lru_ordered (cache (routed s hs r)) \<and> counters_below n (cache (routed s hs r))"
  using assms kv_below_step[OF assms] counters_below_mono[OF assms(3), of n] by (auto simp: routed_def)

lemma sched_step_room:
  assumes "sched_room (sched_cost p + n) s" and "sched_step p s = Some s'"
  shows "sched_room n s'"
proof (cases p)
  case (Pick hs)
  with assms(1) have room: "sched_room (Suc (length hs) + n) s" by simp
  then have below: "sched_room n s" by (rule sched_room_mono) simp
  from Pick assms(2) obtain res where p: "pick s hs = Some (s', res)" by auto
  show ?thesis
  proof (rule pick_cases[of s hs])
    fix e assume "pick s hs = Some (s, Inl e)"
    with p below show ?thesis by simp
  next
    fix i m
    assume d: "decides s hs i m"
      and eq: "pick s hs = Some ((rr_advance s i)\<lparr>replicas := (replicas s)[i := routed s hs (replicas s ! i)]\<rparr>,
        Inr \<lparr>replica = i, matched_blocks = m, inflight_after = inflight (replicas s ! i) + 1\<rparr>)"
    from decides_available[OF d] sched_room_nth[OF room]
    have "lru_wf (cache (routed s hs (replicas s ! i))) \<and> lru_ordered (cache (routed s hs (replicas s ! i))) \<and>
        counters_below n (cache (routed s hs (replicas s ! i)))"
      by (intro routed_room) auto
    moreover have "sched_room n (rr_advance s i)" using below by (simp add: sched_room_def sched_simps)
    ultimately show ?thesis
      using p eq sched_room_update[of n "rr_advance s i" "routed s hs (replicas s ! i)" i] by (simp add: sched_simps)
  qed
next
  case (Complete i)
  with assms show ?thesis
    using sched_room_nth[of n s i]
    by (auto simp: complete_def bind_eq_Some_conv vec_get_def intro!: sched_room_update split: if_splits)
next
  case (MarkUnhealthy i)
  with assms have "n < 2 ^ 64" using sched_room_nth[of n s i]
    by (auto simp: mark_unhealthy_def bind_eq_Some_conv vec_get_def counters_below_def split: if_splits)
  with MarkUnhealthy assms show ?thesis
    by (auto simp: mark_unhealthy_def bind_eq_Some_conv counters_below_def pc.inv_new pc.ordered_new lru_simps
        intro!: sched_room_update)
next
  case (MarkHealthy i)
  with assms show ?thesis
    using sched_room_nth[of n s i]
    by (auto simp: mark_healthy_def bind_eq_Some_conv vec_get_def intro!: sched_room_update split: if_splits)
qed

lemma sched_run_room:
  "sched_room (sched_run_cost ps + n) s \<Longrightarrow> sched_run ps s = Some s' \<Longrightarrow> sched_room n s'"
proof (induction ps arbitrary: s)
  case Nil
  then show ?case by (simp add: sched_run_cost_def)
next
  case (Cons p ps)
  from Cons.prems(2) obtain s1 where s1: "sched_step p s = Some s1" "sched_run ps s1 = Some s'"
    by (auto simp: bind_eq_Some_conv)
  have "sched_room (sched_run_cost ps + n) s1"
    by (rule sched_step_room[OF _ s1(1)]) (use Cons.prems(1) in \<open>simp add: sched_run_cost_def add.assoc\<close>)
  with Cons.IH s1(2) show ?case by blast
qed

subsection \<open>A prompt goes back to its replica\<close>

lemma first_best_unique:
  assumes "first_best s hs i" "i < length (replicas s)" "available (cfg s) (replicas s ! i)"
    and "first_best s hs j" "j < length (replicas s)" "available (cfg s) (replicas s ! j)"
  shows "i = j"
  using assms unfolding first_best_def by (metis linorder_neqE_nat order.strict_iff_not)

text \<open>The chosen replica, once it holds the whole chain and its request is over, is the first best.\<close>

lemma served_is_first_best:
  assumes w: "default_weights s" "length hs < 2 ^ 51" and p: "pick s hs = Some (s1, Inr d)"
    and min: "min_match_blocks (cfg s) \<le> length hs"
    and s2: "length (replicas s2) = length (replicas s)" "cfg s2 = cfg s"
      "\<forall>j<length (replicas s). j \<noteq> replica d \<longrightarrow> replicas s2 ! j = replicas s ! j"
      "inflight (replicas s2 ! replica d) = inflight (replicas s ! replica d)"
      "lookup (cache (replicas s2 ! replica d)) hs = length hs"
  shows "first_best s2 hs (replica d)"
proof -
  let ?i = "replica d"
  have new: "net_matches s2 hs ?i = int (length hs) - 2 * int (inflight (replicas s ! ?i))"
    using s2 by (simp add: net_matches_def)
  have old: "net_matches s2 hs j = net_matches s hs j" "available (cfg s2) (replicas s2 ! j) = available (cfg s) (replicas s ! j)"
    if "j < length (replicas s)" "j \<noteq> ?i" for j
    using that s2 by (simp_all add: net_matches_def)
  from default_choice[OF w p] obtain b where b: "first_best s hs b" "b < length (replicas s)"
    "available (cfg s) (replicas s ! b)"
    "if min_match_blocks (cfg s) \<le> lookup (cache (replicas s ! b)) hs then ?i = b
     else least_loaded s ?i" by (auto split: if_splits)
  have "net_matches s hs ?i \<le> net_matches s2 hs ?i"
    using lookup_le[of "cache (replicas s ! ?i)" hs] unfolding new by (simp add: net_matches_def)
  moreover have "net_matches s hs b < net_matches s2 hs ?i" if "lookup (cache (replicas s ! b)) hs < min_match_blocks (cfg s)"
  proof -
    from that b(2-4) have "inflight (replicas s ! ?i) \<le> inflight (replicas s ! b)"
      by (simp add: least_loaded_def)
    with that min show ?thesis unfolding new by (simp add: net_matches_def)
  qed
  ultimately have key: "net_matches s hs j \<le> net_matches s2 hs ?i \<and> (j < ?i \<longrightarrow> net_matches s hs j < net_matches s2 hs ?i)"
    if "j < length (replicas s)" "available (cfg s) (replicas s ! j)" for j
    using that b(1,4) unfolding first_best_def by (cases "min_match_blocks (cfg s) \<le> lookup (cache (replicas s ! b)) hs") force+
  show ?thesis
    unfolding first_best_def s2(1)
  proof (intro allI impI)
    fix j assume j: "j < length (replicas s)" "available (cfg s2) (replicas s2 ! j)"
    show "net_matches s2 hs j \<le> net_matches s2 hs ?i \<and> (j < ?i \<longrightarrow> net_matches s2 hs j < net_matches s2 hs ?i)"
    proof (cases "j = ?i")
      case False
      with j old[of j] key[of j] show ?thesis by simp
    qed simp
  qed
qed

text \<open>What a request leaves behind once it is over.\<close>

lemma pick_then_complete:
  assumes p: "pick s hs = Some (s1, Inr d)" and c: "complete s1 (replica d) = Some s2"
  shows "length (replicas s2) = length (replicas s)" and "cfg s2 = cfg s" and "policy s2 = policy s"
    and "j \<noteq> replica d \<Longrightarrow> replicas s2 ! j = replicas s ! j"
    and "replica d < length (replicas s)"
    and "replicas s2 ! replica d = (routed s hs (replicas s ! replica d))\<lparr>inflight := inflight (replicas s ! replica d)\<rparr>"
proof -
  note d = pick_decision[OF p]
  from decides_available[OF d(1)] have i: "replica d < length (replicas s)" by simp
  from c d(2) i have s2: "s2 = s1\<lparr>replicas := (replicas s1)[replica d := (replicas s1 ! replica d)\<lparr>inflight := inflight (replicas s1 ! replica d) - 1\<rparr>]\<rparr>"
    by (auto simp: complete_def bind_eq_Some_conv vec_get_def split: if_splits)
  show "length (replicas s2) = length (replicas s)" "cfg s2 = cfg s" "policy s2 = policy s"
    using s2 d(2) by (simp_all add: sched_simps)
  show "j \<noteq> replica d \<Longrightarrow> replicas s2 ! j = replicas s ! j"
    using s2 d(2) by simp
  show "replica d < length (replicas s)" by (rule i)
  show "replicas s2 ! replica d = (routed s hs (replicas s ! replica d))\<lparr>inflight := inflight (replicas s ! replica d)\<rparr>"
    using s2 d(2) i by (simp add: routed_def)
qed

text \<open>C6. Affinity. Under the default weights, after any run of calls short enough for the 64-bit
  counters, a prompt of at least the threshold and at most the budget goes back to the
  replica that served it, with all its blocks matched, when it is repeated after its first
  request is over, whatever the other replicas hold.\<close>

theorem prompt_returns_to_its_replica:
  assumes run: "sched_run ps (scheduler_new n CacheAware c) = Some s"
    and short: "sched_run_cost ps + Suc (length hs) < 2 ^ 64"
    and weights: "default_weights (scheduler_new n CacheAware c)"
    and size: "min_match_blocks c \<le> length hs" "length hs \<le> block_budget c" "length hs < 2 ^ 51"
    and p: "pick s hs = Some (s1, Inr d)" and fin: "complete s1 (replica d) = Some s2"
  shows "\<exists>s3 d'. pick s2 hs = Some (s3, Inr d') \<and> replica d' = replica d \<and> matched_blocks d' = length hs"
proof -
  let ?i = "replica d"
  have new: "cfg (scheduler_new n CacheAware c) = c" "policy (scheduler_new n CacheAware c) = CacheAware"
    by (simp_all add: scheduler_new_def)
  note frame = sched_run_frame(2,3)[OF run, unfolded new]
  note after = pick_then_complete[OF p fin]
  have w: "default_weights s" using weights frame new by (simp add: default_weights_def)
  then have w2: "default_weights s2" using after(2,3) by (simp add: default_weights_def)
  have room: "sched_room (Suc (length hs)) s"
    by (rule sched_run_room[OF sched_room_new run]) (use short in simp)
  note cache = sched_room_nth[OF room after(5)]
  have hd: "headroom (length hs) (cache (replicas s ! ?i))"
    using counters_headroom[of hs 0 "cache (replicas s ! replica d)"] cache by simp
  have hit: "lookup (cache (replicas s2 ! ?i)) hs = length hs"
    using pc.admit_then_hit[of "cache (replicas s ! ?i)" hs "block_budget c"] cache hd size(2) frame after(6)
    by (simp add: routed_def)
  have load: "inflight (replicas s2 ! ?i) = inflight (replicas s ! ?i)" by (simp add: after(6))
  have fb: "first_best s2 hs ?i"
    by (rule served_is_first_best[OF w size(3) p _ after(1,2) _ load hit]) (use size(1) frame after(4) in auto)
  have "available (cfg s) (replicas s ! ?i)" using decides_available[OF pick_decision(1)[OF p]] by simp
  then have av: "available (cfg s2) (replicas s2 ! ?i)" using after(2,6) by (simp add: available_def routed_def)
  have mem: "replicas s2 ! ?i \<in> set (replicas s2)" using after(1,5) by simp
  obtain i m where "decides s2 hs i m" using decides_exists[OF mem av] by blast
  from pick_decides[OF this] obtain s3 d' where p2: "pick s2 hs = Some (s3, Inr d')" by blast
  from default_choice[OF w2 size(3) p2] obtain b where b: "first_best s2 hs b" "b < length (replicas s2)"
    "available (cfg s2) (replicas s2 ! b)"
    "if min_match_blocks (cfg s2) \<le> lookup (cache (replicas s2 ! b)) hs
     then replica d' = b \<and> matched_blocks d' = lookup (cache (replicas s2 ! b)) hs
     else least_loaded s2 (replica d') \<and> matched_blocks d' = lookup (cache (replicas s2 ! replica d')) hs" by blast
  have "b = ?i" using first_best_unique[OF b(1-3) fb _ av] after(1,5) by simp
  with b(4) hit size(1) frame after(2) p2 show ?thesis by auto
qed

theorem prompt_returns_to_its_replica_witness:
  "\<exists>s s1 d s2 s3 d'. sched_run demo_sched_ops (scheduler_new 2 CacheAware demo_config) = Some s \<and>
     pick s [5, 6, 7] = Some (s1, Inr d) \<and> complete s1 (replica d) = Some s2 \<and>
     pick s2 [5, 6, 7] = Some (s3, Inr d') \<and> replica d' = replica d \<and> matched_blocks d' = 3"
proof -
  have "map_option (\<lambda>s. picked s [5, 6, 7]) (sched_run demo_sched_ops (scheduler_new 2 CacheAware demo_config)) = Some (Some (0, 0))"
    by code_simp
  then obtain s s1 d where run: "sched_run demo_sched_ops (scheduler_new 2 CacheAware demo_config) = Some s"
    and p: "pick s [5, 6, 7] = Some (s1, Inr d)" using picked_Some by blast
  obtain s2 where fin: "complete s1 (replica d) = Some s2"
    using pick_decision[OF p] decides_available[OF pick_decision(1)[OF p]] by (auto simp: complete_def vec_get_def)
  have w: "default_weights (scheduler_new 2 CacheAware demo_config)"
    by (simp add: default_weights_def scheduler_new_def demo_config_def)
  have "sched_run_cost demo_sched_ops + Suc (length [5, 6, 7 :: u64]) < 2 ^ 64"
    by (simp add: sched_run_cost_def demo_sched_ops_def)
  from prompt_returns_to_its_replica[OF run this w _ _ _ p fin] run p fin show ?thesis
    by (auto simp: demo_config_def)
qed

subsection \<open>The fleet\<close>

text \<open>
  The router's scheduler and the caches of the replicas it routes to, one request at a time: the
  router picks, the replica serves the prompt, the router completes. A replica that fails is
  marked unhealthy and restarts with an empty cache.
\<close>

record fleet =
  router :: scheduler
  replica_caches :: "kv_cache_sim list"

datatype fleet_op = Serve "u64 list" | Restart usize | Readmit usize

definition fleet_new :: "usize \<Rightarrow> scheduler_config \<Rightarrow> fleet" where
  "fleet_new n c = \<lparr>router = scheduler_new n CacheAware c, replica_caches = replicate n (kv_new (block_budget c))\<rparr>"

text \<open>A step also returns, for a request that was served, what the router predicted and what the
  replica reported.\<close>

fun fleet_step :: "fleet_op \<Rightarrow> fleet \<Rightarrow> (fleet \<times> (usize \<times> usize) option) panics" where
  "fleet_step (Serve hs) f = do {
     (s1, res) \<leftarrow> pick (router f) hs;
     (case res of
        Inl e \<Rightarrow> Some (f\<lparr>router := s1\<rparr>, None)
      | Inr d \<Rightarrow> do {
          k \<leftarrow> vec_get (replica_caches f) (replica d);
          let (k1, cache_hits) = lookup_insert k hs;
          s2 \<leftarrow> complete s1 (replica d);
          Some (f\<lparr>router := s2, replica_caches := (replica_caches f)[replica d := k1]\<rparr>,
                Some (matched_blocks d, cache_hits))
        })
   }"
| "fleet_step (Restart i) f = do {
     s1 \<leftarrow> mark_unhealthy (router f) i;
     k \<leftarrow> vec_get (replica_caches f) i;
     Some (f\<lparr>router := s1, replica_caches := (replica_caches f)[i := kv_new (capacity k)]\<rparr>, None)
   }"
| "fleet_step (Readmit i) f = do {
     s1 \<leftarrow> mark_healthy (router f) i;
     Some (f\<lparr>router := s1\<rparr>, None)
   }"

fun fleet_run :: "fleet_op list \<Rightarrow> fleet \<Rightarrow> (fleet \<times> (usize \<times> usize) option list) panics" where
  "fleet_run [] f = Some (f, [])"
| "fleet_run (p # ps) f = do {
     (f1, x) \<leftarrow> fleet_step p f;
     (f2, xs) \<leftarrow> fleet_run ps f1;
     Some (f2, x # xs)
   }"

definition mirrored :: "fleet \<Rightarrow> bool" where
  "mirrored f =
     (length (replica_caches f) = length (replicas (router f)) \<and>
      policy (router f) = CacheAware \<and> 0 < min_match_blocks (cfg (router f)) \<and>
      (\<forall>i<length (replicas (router f)).
         same_view (cache (replicas (router f) ! i)) (replica_caches f ! i) \<and>
         capacity (replica_caches f ! i) = block_budget (cfg (router f))))"

lemma mirrored_nth:
  "mirrored f \<Longrightarrow> i < length (replicas (router f)) \<Longrightarrow>
    same_view (cache (replicas (router f) ! i)) (replica_caches f ! i) \<and>
    capacity (replica_caches f ! i) = block_budget (cfg (router f))"
  by (simp add: mirrored_def)

lemma mirrored_update:
  assumes "mirrored f" and "i < length (replicas (router f))" and "same_view (cache r) k"
    and "capacity k = block_budget (cfg (router f))"
    and "replicas s = (replicas (router f))[i := r]" "cfg s = cfg (router f)" "policy s = policy (router f)"
  shows "mirrored (f\<lparr>router := s, replica_caches := (replica_caches f)[i := k]\<rparr>)"
  using assms by (auto simp: mirrored_def nth_list_update)

text \<open>The match count reported is what the chosen cache holds.\<close>

lemma cache_aware_matched:
  assumes "policy s = CacheAware" "0 < min_match_blocks (cfg s)" and "decides s hs i m"
  shows "m = lookup (cache (replicas s ! i)) hs"
  using assms(1,3)
proof (cases rule: cache_aware_choice)
  case warm
  with best_loop_top[OF warm(2)] assms(2) show ?thesis by auto
qed simp

lemma mirrored_new: "0 < min_match_blocks c \<Longrightarrow> mirrored (fleet_new n c)"
  by (simp add: mirrored_def fleet_new_def scheduler_new_def new_replica_def same_view_new)

lemma mirrored_serve:
  assumes f: "mirrored f" and step: "fleet_step (Serve hs) f = Some (g, x)"
  shows "mirrored g \<and> (\<forall>predicted reported. x = Some (predicted, reported) \<longrightarrow> predicted = reported)"
proof (rule pick_cases[of "router f" hs])
  fix e assume "pick (router f) hs = Some (router f, Inl e)"
  with f step show ?thesis by (auto simp: mirrored_def)
next
  fix i m
  let ?s1 = "(rr_advance (router f) i)\<lparr>replicas := (replicas (router f))[i := routed (router f) hs (replicas (router f) ! i)]\<rparr>"
  let ?d = "\<lparr>replica = i, matched_blocks = m, inflight_after = inflight (replicas (router f) ! i) + 1\<rparr>"
  let ?k = "replica_caches f ! i"
  assume d: "decides (router f) hs i m" and p: "pick (router f) hs = Some (?s1, Inr ?d)"
  from decides_available[OF d] have i: "i < length (replicas (router f))" by simp
  then obtain s2 where s2: "complete ?s1 (replica ?d) = Some s2" by (auto simp: complete_def vec_get_def)
  note after = pick_then_complete[OF p s2]
  note view = mirrored_nth[OF f i]
  have pol: "policy (router f) = CacheAware" "0 < min_match_blocks (cfg (router f))"
    using f by (simp_all add: mirrored_def)
  have "m = snd (lookup_insert ?k hs)"
    using cache_aware_matched[OF pol d] view by (simp add: lookup_insert_eq same_view_lookup)
  moreover have "g = f\<lparr>router := s2, replica_caches := (replica_caches f)[i := fst (lookup_insert ?k hs)]\<rparr>"
      "x = Some (m, snd (lookup_insert ?k hs))"
    using step p s2 i f by (auto simp: vec_get_def mirrored_def split: prod.splits)
  moreover have "mirrored (f\<lparr>router := s2, replica_caches := (replica_caches f)[i := fst (lookup_insert ?k hs)]\<rparr>)"
  proof (rule mirrored_update[OF f i])
    show "same_view (cache (replicas s2 ! i)) (fst (lookup_insert ?k hs))"
      using view pol(1) after(6)
      by (simp add: routed_def lookup_insert_eq same_view_evict_to same_view_insert_chain)
    show "capacity (fst (lookup_insert ?k hs)) = block_budget (cfg (router f))" using view by simp
    show "replicas s2 = (replicas (router f))[i := replicas s2 ! i]"
      using after(1,4) i by (intro nth_equalityI) (auto simp: nth_list_update)
    show "cfg s2 = cfg (router f)" "policy s2 = policy (router f)" using after(2,3) by simp_all
  qed
  ultimately show ?thesis by simp
qed

lemma mirrored_step:
  assumes f: "mirrored f" and step: "fleet_step p f = Some (g, x)"
  shows "mirrored g \<and> (\<forall>predicted reported. x = Some (predicted, reported) \<longrightarrow> predicted = reported)"
proof (cases p)
  case (Serve hs)
  with mirrored_serve f step show ?thesis by blast
next
  case (Restart i)
  with step obtain s1 k where s1: "mark_unhealthy (router f) i = Some s1" and k: "vec_get (replica_caches f) i = Some k"
    and g: "g = f\<lparr>router := s1, replica_caches := (replica_caches f)[i := kv_new (capacity k)]\<rparr>" and x: "x = None"
    by (auto simp: bind_eq_Some_conv)
  from s1 have i: "i < length (replicas (router f))"
    by (auto simp: mark_unhealthy_def bind_eq_Some_conv vec_get_def split: if_splits)
  with k f have cap: "capacity k = block_budget (cfg (router f))"
    by (auto simp: vec_get_def mirrored_def split: if_splits)
  have "mirrored g" unfolding g
    by (rule mirrored_update[OF f i, where r = "(replicas (router f) ! i)\<lparr>healthy := False, inflight := 0, cache := prefix_cache_new\<rparr>"])
      (use s1 i cap in \<open>auto simp: mark_unhealthy_def bind_eq_Some_conv vec_get_def same_view_new split: if_splits\<close>)
  with x show ?thesis by simp
next
  case (Readmit i)
  with step obtain s1 where s1: "mark_healthy (router f) i = Some s1" and g: "g = f\<lparr>router := s1\<rparr>" and x: "x = None"
    by (auto simp: bind_eq_Some_conv)
  from s1 have i: "i < length (replicas (router f))"
    by (auto simp: mark_healthy_def bind_eq_Some_conv vec_get_def split: if_splits)
  have "mirrored (f\<lparr>router := s1, replica_caches := (replica_caches f)[i := replica_caches f ! i]\<rparr>)"
    by (rule mirrored_update[OF f i, where r = "(replicas (router f) ! i)\<lparr>healthy := True\<rparr>"])
      (use s1 i mirrored_nth[OF f i] in \<open>auto simp: mark_healthy_def bind_eq_Some_conv vec_get_def split: if_splits\<close>)
  with g x show ?thesis by simp
qed

lemma mirrored_run:
  "mirrored f \<Longrightarrow> fleet_run ps f = Some (g, xs) \<Longrightarrow>
    mirrored g \<and> (\<forall>predicted reported. Some (predicted, reported) \<in> set xs \<longrightarrow> predicted = reported)"
proof (induction ps arbitrary: f xs)
  case Nil
  then show ?case by simp
next
  case (Cons p ps)
  from Cons.prems(2) obtain f1 x ys where f1: "fleet_step p f = Some (f1, x)" "fleet_run ps f1 = Some (g, ys)"
    and xs: "xs = x # ys" by (auto simp: bind_eq_Some_conv)
  from mirrored_step[OF Cons.prems(1) f1(1)] Cons.IH[OF _ f1(2)] xs show ?case by auto
qed


definition demo_fleet_ops :: "fleet_op list" where
  "demo_fleet_ops = [Serve [1, 2, 3], Serve [4, 5], Serve [1, 2, 9], Restart 0, Serve [1, 2, 3], Readmit 0, Serve [1, 2, 3]]"


end
