(* ===== verification/Deployment.thy ===== *)
theory Deployment
  imports Router_Main Wire Fleet
begin

text \<open>
  The parts together: the router's unary handler with the mock replicas as its upstream and the
  load generator as its client, one request at a time. The theory compares the three places
  where cached blocks are counted.
\<close>

text \<open>The replicas as the upstream of the router. Both sides tokenize with the same \<open>encode\<close>.\<close>

definition mock_upstream :: "(string \<Rightarrow> string + u32 list) \<Rightarrow> mock_service list upstream" where
  "mock_upstream encode i req = (\<lambda>(r, ms).
     if i < length ms
     then (let (m, res) = mock_model_infer encode req (ms ! i) in ((r, ms[i := m]), res))
     else ((r, ms), Inl (status_of Unavailable [])))"

fun system_run ::
  "(string \<Rightarrow> string + u32 list) \<Rightarrow> (status_code \<Rightarrow> string) \<Rightarrow> model_infer_request list \<Rightarrow>
    router_inner \<times> mock_service list \<Rightarrow> ((router_inner \<times> mock_service list) \<times> (status + model_infer_response) list) panics" where
  "system_run encode code_text [] x = Some (x, [])"
| "system_run encode code_text (req # reqs) x = do {
     (x, res) \<leftarrow> model_infer_attempts (tokenize encode) code_text (mock_upstream encode) req x;
     (x, rs) \<leftarrow> system_run encode code_text reqs x;
     Some (x, res # rs)
   }"

definition system_new :: "usize \<Rightarrow> scheduler_config \<Rightarrow> mock_config \<Rightarrow> router_inner \<times> mock_service list" where
  "system_new n c mc =
     (router_inner_new (scheduler_new n CacheAware c) n, replicate n (mock_service_new mc))"

subsection \<open>Which text a request carries\<close>

text \<open>The router prefers the tensor named \<open>text_input\<close>, the replica reads the first one.\<close>

definition first_is_text :: "model_infer_request \<Rightarrow> bool" where
  "first_is_text req = (text_input_tensor req = first_of (inputs req))"

lemma mock_extract_text_first:
  "first_is_text req \<Longrightarrow> mock_extract_text req = extract_text req"
  by (simp add: first_is_text_def mock_extract_text_def extract_text_def first_bytes_def first_of_def)

lemma first_is_text_infer_request: "first_is_text (infer_request s)"
  by (simp add: first_is_text_def text_input_tensor_def infer_request_def first_of_def)

lemma request_hashes_Inr:
  assumes "request_hashes (tokenize encode) req = Inr hs"
  obtains s ids where "extract_text req = Inr s" "encode s = Inr ids" "hs = block_hashes ids"
  using assms by (auto simp: request_hashes_def hash_prompt_def tokenize_def split: sum.splits)

subsection \<open>One request\<close>

definition system_fleet :: "router_inner \<Rightarrow> mock_service list \<Rightarrow> fleet" where
  "system_fleet r ms = \<lparr>router = sched r, replica_caches = map kv_cache ms\<rparr>"

text \<open>The sums of the replicas' counters.\<close>

definition replica_books :: "mock_service list \<Rightarrow> u64 \<times> u64" where
  "replica_books ms = (sum_list (map cached_blocks_total ms), sum_list (map total_blocks_total ms))"

definition system_inv :: "router_inner \<Rightarrow> mock_service list \<Rightarrow> bool" where
  "system_inv r ms =
     (router_inv r \<and> mirrored (system_fleet r ms) \<and>
      matched_blocks_total r = fst (replica_books ms) \<and> prompt_blocks_total r = snd (replica_books ms))"

lemma mock_infer_tokens:
  assumes "mock_extract_text req = Inr s" and "encode s = Inr ids"
  shows "\<exists>m'. mock_model_infer encode req m =
      (m', Inr (make_response req (lookup (kv_cache m) (block_hashes ids)) (length (block_hashes ids)) ''mock-completion'')) \<and>
    kv_cache m' = fst (lookup_insert (kv_cache m) (block_hashes ids)) \<and>
    cached_blocks_total m' = cached_blocks_total m + word_of_nat (lookup (kv_cache m) (block_hashes ids)) \<and>
    total_blocks_total m' = total_blocks_total m + word_of_nat (length (block_hashes ids))"
  using assms by (simp add: mock_model_infer_def simulate_prefill_tokens[of encode s ids] length_block_hashes)

text \<open>A request whose replica is picked is answered by that replica.\<close>

lemma picked_request:
  assumes ri: "router_inv r" and same: "first_is_text req" and s: "extract_text req = Inr s" "encode s = Inr ids"
    and ims: "i < length ms" and i: "i < fleet_size r"
    and hs_def: "hs = block_hashes ids"
    and p: "pick_replica r hs = Some (after_pick r hs i, Inr (picked_decision r i m))"
  obtains r2 m' where
    "model_infer_attempts (tokenize encode) code_text (mock_upstream encode) req (r, ms) =
      Some ((record_served r2 (length hs) (picked_decision r i m), ms[i := m']),
        Inr (make_response req (lookup (kv_cache (ms ! i)) hs) (length hs) ''mock-completion''))"
    "router_complete (after_pick r hs i) i = Some r2" "complete (sched (after_pick r hs i)) i = Some (sched r2)" "router_inv r2"
    "counters r2 = counters (after_pick r hs i)"
    "kv_cache m' = fst (lookup_insert (kv_cache (ms ! i)) hs)"
    "cached_blocks_total m' = cached_blocks_total (ms ! i) + word_of_nat (lookup (kv_cache (ms ! i)) hs)"
    "total_blocks_total m' = total_blocks_total (ms ! i) + word_of_nat (length hs)"
proof -
  let ?r1 = "after_pick r hs i" and ?resp = "make_response req (lookup (kv_cache (ms ! i)) hs) (length hs) ''mock-completion''"
  from mock_infer_tokens[of req s encode ids "ms ! i"] s mock_extract_text_first[OF same] obtain m' where
    m': "mock_model_infer encode req (ms ! i) = (m', Inr ?resp)" "kv_cache m' = fst (lookup_insert (kv_cache (ms ! i)) hs)"
    "cached_blocks_total m' = cached_blocks_total (ms ! i) + word_of_nat (lookup (kv_cache (ms ! i)) hs)"
    "total_blocks_total m' = total_blocks_total (ms ! i) + word_of_nat (length hs)" by (auto simp: hs_def)
  have up: "mock_upstream encode i req (?r1, ms) = ((?r1, ms[i := m']), Inr ?resp)"
    using ims m'(1) by (simp add: mock_upstream_def)
  have hs: "request_hashes (tokenize encode) req = Inr hs"
    using s by (simp add: request_hashes_def hash_prompt_def tokenize_def hs_def)
  from pick_replica_ok[OF ri, of hs] p i have r1: "router_inv ?r1" "i < fleet_size ?r1" by simp_all
  show thesis
  proof (rule router_complete_eq[OF r1])
    fix r2 assume r2: "router_complete ?r1 i = Some r2" "router_inv r2" "counters r2 = counters ?r1"
    then obtain s2 where "complete (sched ?r1) i = Some s2" "sched r2 = s2"
      by (auto simp: router_complete_def set_gauge_def bind_eq_Some_conv split: if_splits)
    moreover have "model_infer_attempts (tokenize encode) code_text (mock_upstream encode) req (r, ms) =
        Some ((record_served r2 (length hs) (picked_decision r i m), ms[i := m']), Inr ?resp)"
      using p up r2(1) hs by (simp add: attempt_def model_infer_attempts_hashes)
    ultimately show thesis using that r2 m'(2-4) by simp
  qed
qed

lemma system_picked:
  assumes inv: "system_inv r ms" and same: "first_is_text req" and hs: "request_hashes (tokenize encode) req = Inr hs"
    and d: "decides (sched r) hs i m" and i: "i < fleet_size r"
    and p: "pick_replica r hs = Some (after_pick r hs i, Inr (picked_decision r i m))"
  shows "\<exists>r' ms' s1. model_infer_attempts (tokenize encode) code_text (mock_upstream encode) req (r, ms) =
      Some ((r', ms'), Inr (make_response req m (length hs) ''mock-completion'')) \<and>
    system_inv r' ms' \<and> counters r' = bump (counters r) m (length hs) \<and>
    pick (sched r) hs = Some (s1, Inr (picked_decision r i m)) \<and> complete s1 i = Some (sched r')"
proof -
  let ?d = "picked_decision r i m" and ?k = "lookup (kv_cache (ms ! i)) hs"
  from request_hashes_Inr[OF hs] obtain s ids where s: "extract_text req = Inr s" "encode s = Inr ids" "hs = block_hashes ids" .
  from inv have ri: "router_inv r" and mir: "mirrored (system_fleet r ms)"
    and books: "matched_blocks_total r = fst (replica_books ms)" "prompt_blocks_total r = snd (replica_books ms)"
    by (simp_all add: system_inv_def)
  have ims: "i < length ms" using i mir by (simp add: fleet_size_def num_replicas_def mirrored_def system_fleet_def)
  show ?thesis
  proof (rule picked_request[where encode = encode and s = s and code_text = code_text,
        OF ri same s(1,2) ims i s(3) p])
    fix r2 m'
    let ?r' = "record_served r2 (length hs) ?d"
    assume run: "model_infer_attempts (tokenize encode) code_text (mock_upstream encode) req (r, ms) =
        Some ((?r', ms[i := m']), Inr (make_response req ?k (length hs) ''mock-completion''))"
      and s2: "complete (sched (after_pick r hs i)) i = Some (sched r2)"
      and r2: "router_inv r2" "counters r2 = counters (after_pick r hs i)"
      and m': "kv_cache m' = fst (lookup_insert (kv_cache (ms ! i)) hs)"
        "cached_blocks_total m' = cached_blocks_total (ms ! i) + word_of_nat ?k"
        "total_blocks_total m' = total_blocks_total (ms ! i) + word_of_nat (length hs)"
    have "fleet_step (Serve hs) (system_fleet r ms) = Some (system_fleet r2 (ms[i := m']), Some (m, ?k))"
      using pick_decides[OF d] s2 ims m'(1)
      by (simp add: system_fleet_def vec_get_def lookup_insert_eq map_update)
    from mirrored_step[OF mir this] have mk: "m = ?k" and mir2: "mirrored (system_fleet r2 (ms[i := m']))" by simp_all
    have c: "counters ?r' = bump (counters r) ?k (length hs)"
      using r2(2) by (simp add: counters_record_served mk) (simp add: counters_def)
    have "system_inv ?r' (ms[i := m'])"
      using r2(1) mir2 c books sum_list_update_word[OF ims, of cached_blocks_total m', OF m'(2)]
        sum_list_update_word[OF ims, of total_blocks_total m', OF m'(3)]
      by (simp add: system_inv_def system_fleet_def replica_books_def counters_def bump_def)
    with run c pick_decides[OF d] s2 show ?thesis by (auto simp: mk counters_record_served)
  qed
qed

lemma system_request:
  assumes inv: "system_inv r ms" and same: "first_is_text req"
  shows "\<exists>r' ms' res. model_infer_attempts (tokenize encode) code_text (mock_upstream encode) req (r, ms) = Some ((r', ms'), res) \<and>
    system_inv r' ms' \<and>
    (case res of
       Inl st \<Rightarrow> counters r' = counters r
     | Inr resp \<Rightarrow> (\<exists>m k. resp = make_response req m k ''mock-completion'' \<and> counters r' = bump (counters r) m k))"
proof (cases "request_hashes (tokenize encode) req")
  case (Inl st)
  with inv show ?thesis by (simp add: model_infer_attempts_hashes)
next
  case (Inr hs)
  from inv have ri: "router_inv r" by (simp add: system_inv_def)
  show ?thesis
  proof (rule pick_replica_cases[OF ri, of hs])
    fix e
    let ?r1 = "r\<lparr>routing_observations := routing_observations r + 1\<rparr>"
    assume p: "pick_replica r hs = Some (?r1, Inl (pick_status e))"
    have "system_inv ?r1 ms" using inv by (simp add: system_inv_def router_inv_def system_fleet_def)
    with p Inr show ?thesis by (simp add: model_infer_attempts_hashes attempt_def counters_def)
  next
    fix i m
    assume "decides (sched r) hs i m" "i < fleet_size r" "pick_replica r hs = Some (after_pick r hs i, Inr (picked_decision r i m))"
    from system_picked[OF inv same Inr this, of code_text] show ?thesis by fastforce
  qed
qed

subsection \<open>Runs\<close>

text \<open>What the client adds up from the responses.\<close>

definition client_book :: "string \<Rightarrow> (status + model_infer_response) list \<Rightarrow> u64" where
  "client_book key rs = sum_list (map (\<lambda>res. case res of Inl st \<Rightarrow> 0 | Inr resp \<Rightarrow> word_of_int (param_i64 resp key)) rs)"

lemma word_of_as_i64: "(word_of_int (as_i64 n) :: u64) = word_of_nat n"
  by (simp add: as_i64_def)

lemma system_run_ok:
  assumes "system_inv r ms" and "list_all first_is_text reqs"
  shows "\<exists>r' ms' rs. system_run encode code_text reqs (r, ms) = Some ((r', ms'), rs) \<and> system_inv r' ms' \<and>
    length rs = length reqs \<and>
    requests_total r' = requests_total r + word_of_nat (length (filter (\<lambda>res. \<not> isl res) rs)) \<and>
    matched_blocks_total r' = matched_blocks_total r + client_book ''cached_blocks'' rs \<and>
    prompt_blocks_total r' = prompt_blocks_total r + client_book ''total_blocks'' rs"
  using assms
proof (induction reqs arbitrary: r ms)
  case Nil
  then show ?case by (simp add: client_book_def)
next
  case (Cons req reqs)
  from Cons.prems have same: "first_is_text req" "list_all first_is_text reqs" by simp_all
  from system_request[OF Cons.prems(1) same(1)] obtain r1 ms1 res where
    s1: "model_infer_attempts (tokenize encode) code_text (mock_upstream encode) req (r, ms) = Some ((r1, ms1), res)"
      "system_inv r1 ms1"
    and c1: "case res of
       Inl st \<Rightarrow> counters r1 = counters r
     | Inr resp \<Rightarrow> (\<exists>m k. resp = make_response req m k ''mock-completion'' \<and> counters r1 = bump (counters r) m k)" by blast
  from Cons.IH[OF s1(2) same(2)] obtain r' ms' rs where
    s2: "system_run encode code_text reqs (r1, ms1) = Some ((r', ms'), rs)" "system_inv r' ms'" "length rs = length reqs"
      "requests_total r' = requests_total r1 + word_of_nat (length (filter (\<lambda>res. \<not> isl res) rs))"
      "matched_blocks_total r' = matched_blocks_total r1 + client_book ''cached_blocks'' rs"
      "prompt_blocks_total r' = prompt_blocks_total r1 + client_book ''total_blocks'' rs" by blast
  have "requests_total r1 = requests_total r + (if isl res then 0 else 1) \<and>
    matched_blocks_total r1 = matched_blocks_total r + client_book ''cached_blocks'' [res] \<and>
    prompt_blocks_total r1 = prompt_blocks_total r + client_book ''total_blocks'' [res]"
    using c1 by (cases res) (auto simp: counters_def bump_def client_book_def param_make_response word_of_as_i64)
  with s1 s2 show ?case by (simp add: client_book_def add_ac)
qed

lemma system_inv_new:
  assumes "0 < min_match_blocks c" and "cache_blocks mc = block_budget c" and "system_new n c mc = (r, ms)"
  shows "system_inv r ms"
proof -
  from assms(3) have rm: "r = router_inner_new (scheduler_new n CacheAware c) n" "ms = replicate n (mock_service_new mc)"
    by (simp_all add: system_new_def)
  have "router_inv r" unfolding rm by (rule router_inv_new)
  moreover have "system_fleet r ms = fleet_new n c"
    using assms(2) by (simp add: system_fleet_def rm fleet_new_def router_inner_new_def mock_service_new_def map_replicate)
  then have "mirrored (system_fleet r ms)" using mirrored_new[OF assms(1)] by simp
  moreover have "matched_blocks_total r = 0" "prompt_blocks_total r = 0" "requests_total r = 0" by (simp_all add: rm router_inner_new_def)
  moreover have "replica_books ms = (0, 0)"
    by (simp add: replica_books_def rm mock_service_new_def map_replicate sum_list_replicate)
  ultimately show ?thesis by (simp add: system_inv_def)
qed


definition demo_mock :: mock_config where
  "demo_mock = mock_config_default\<lparr>cache_blocks := 8\<rparr>"


text \<open>Without the condition on the tensors the two sides can read different texts.\<close>

definition two_tensors :: model_infer_request where
  "two_tensors =
     infer_request_default\<lparr>req_model_name := ''m'',
       inputs := [input_tensor_default\<lparr>in_name := ''system'', in_contents := Some (tensor_contents_default\<lparr>bytes_contents := [''a'']\<rparr>)\<rparr>,
         input_tensor_default\<lparr>in_name := ''text_input'', in_contents := Some (tensor_contents_default\<lparr>bytes_contents := [''b'']\<rparr>)\<rparr>]\<rparr>"

lemma router_and_replica_read_different_tensors:
  "extract_text two_tensors = Inr ''b'' \<and> mock_extract_text two_tensors = Inr ''a''"
  by (simp add: two_tensors_def extract_text_def mock_extract_text_def text_input_tensor_def first_bytes_def
      from_utf8_def utf8_lead_def in_byte_range_def)

end
