(* ===== verification/Load_Run.thy ===== *)
theory Load_Run
  imports Loadgen
begin

text \<open>
  \<open>crates/loadgen/src/main.rs\<close>, the tasks: one per conversation, each behind a permit of a shared
  semaphore. A state is the free permits and the state of every task; an event is what one task
  does next, in any order between the tasks. The semaphore belongs to tokio: a permit is taken when
  one is free and given back when the task ends. What the router answers, and how long it takes, is
  part of the event.
\<close>

datatype conv_task =
  Queued "string list"
  | Replaying "string list" "request_result list" bool
  | Returned conv_outcome

record load_state =
  permits :: nat
  conv_tasks :: "conv_task list"

text \<open>The start: the semaphore has \<open>--concurrency\<close> permits and every conversation is spawned.\<close>

definition load_new :: "usize \<Rightarrow> conversation list \<Rightarrow> load_state" where
  "load_new concurrency convs = \<lparr>permits = concurrency, conv_tasks = map (\<lambda>c. Queued (turns c)) convs\<rparr>"

text \<open>The command line, and the start of \<open>main\<close> from it: the trace is loaded up to \<open>--conversations\<close>.\<close>

record load_args =
  arg_router :: string
  arg_trace :: string
  arg_conversations :: usize
  arg_concurrency :: usize
  arg_label :: string

definition load_default_args :: load_args where
  "load_default_args =
     \<lparr>arg_router = ''http://127.0.0.1:8000'', arg_trace = ''data/sharegpt.json'', arg_conversations = 200,
      arg_concurrency = 32, arg_label = ''run''\<rparr>"

definition load_start :: "load_args \<Rightarrow> raw_conversation list \<Rightarrow> load_state" where
  "load_start args raw = load_new (arg_concurrency args) (load_sharegpt raw (arg_conversations args))"

datatype load_event = Acquire usize | Answer usize f64 "status + model_infer_response" | Return usize

text \<open>An error abandons the conversation: the rest of its turns is never sent.\<close>

fun answered :: "f64 \<Rightarrow> status + model_infer_response \<Rightarrow> string list \<Rightarrow> request_result list \<Rightarrow> conv_task" where
  "answered secs (Inr resp) rest acc = Replaying rest (acc @ [result_of secs resp]) False"
| "answered secs (Inl st) rest acc = Replaying [] acc True"

fun task_of :: "load_event \<Rightarrow> usize" where
  "task_of (Acquire k) = k"
| "task_of (Answer k secs res) = k"
| "task_of (Return k) = k"

text \<open>What an event makes of its task and of the free permits; \<open>None\<close> when it cannot happen.\<close>

fun conv_step :: "load_event \<Rightarrow> nat \<times> conv_task \<Rightarrow> (nat \<times> conv_task) option" where
  "conv_step (Acquire k) (Suc p, Queued ts) = Some (p, Replaying ts [] False)"
| "conv_step (Answer k secs res) (p, Replaying (turn # rest) acc f) = Some (p, answered secs res rest acc)"
| "conv_step (Return k) (p, Replaying [] acc f) = Some (Suc p, Returned \<lparr>results = acc, failed = f\<rparr>)"
| "conv_step e x = None"

definition load_step :: "load_event \<Rightarrow> load_state \<Rightarrow> load_state option" where
  "load_step e s = do {
     t \<leftarrow> vec_get (conv_tasks s) (task_of e);
     (p, t') \<leftarrow> conv_step e (permits s, t);
     Some \<lparr>permits = p, conv_tasks = (conv_tasks s)[task_of e := t']\<rparr>
   }"

fun load_run :: "load_event list \<Rightarrow> load_state \<Rightarrow> load_state option" where
  "load_run [] s = Some s"
| "load_run (e # es) s = Option.bind (load_step e s) (load_run es)"

text \<open>The join loop of \<open>main\<close>: it has the outcomes once every task has returned.\<close>

fun outcome_of :: "conv_task \<Rightarrow> conv_outcome option" where
  "outcome_of (Returned o1) = Some o1"
| "outcome_of t = None"

definition joined :: "load_state \<Rightarrow> conv_outcome list option" where
  "joined s = those (map outcome_of (conv_tasks s))"

fun_cases conv_step_SomeE: "conv_step e x = Some y"

subsection \<open>Permits\<close>

fun working :: "conv_task \<Rightarrow> bool" where
  "working (Replaying ts acc f) = True"
| "working t = False"

definition active :: "load_state \<Rightarrow> nat" where
  "active s = length (filter working (conv_tasks s))"

lemma length_filter_update:
  assumes "i < length xs"
  shows "length (filter P (xs[i := x])) + (if P (xs ! i) then 1 else 0) = length (filter P xs) + (if P x then 1 else 0)"
  using assms
proof (induction xs arbitrary: i)
  case (Cons y ys)
  then show ?case by (cases i) auto
qed simp

lemma load_step_Some:
  assumes "load_step e s = Some s'"
  obtains p t' where "task_of e < length (conv_tasks s)"
    "conv_step e (permits s, conv_tasks s ! task_of e) = Some (p, t')"
    "s' = \<lparr>permits = p, conv_tasks = (conv_tasks s)[task_of e := t']\<rparr>"
  using assms by (auto simp: load_step_def bind_eq_Some_conv)

lemma answered_working [simp]: "working (answered secs res ts acc)"
  by (cases res) simp_all

lemma conv_step_permits:
  "conv_step e (p, t) = Some (p', t') \<Longrightarrow>
    p' + (if working t' then 1 else 0) = p + (if working t then 1 else 0)"
  by (elim conv_step_SomeE) simp_all

lemma load_step_permits:
  assumes "load_step e s = Some s'"
  shows "permits s' + active s' = permits s + active s \<and> length (conv_tasks s') = length (conv_tasks s)"
proof (rule load_step_Some[OF assms])
  fix p t'
  assume k: "task_of e < length (conv_tasks s)" and st: "conv_step e (permits s, conv_tasks s ! task_of e) = Some (p, t')"
    and s': "s' = \<lparr>permits = p, conv_tasks = (conv_tasks s)[task_of e := t']\<rparr>"
  from conv_step_permits[OF st] length_filter_update[OF k, of working t'] show ?thesis
    by (simp add: s' active_def)
qed

lemma load_run_permits:
  "load_run es s = Some s' \<Longrightarrow>
    permits s' + active s' = permits s + active s \<and> length (conv_tasks s') = length (conv_tasks s)"
  by (induction es arbitrary: s) (auto simp: bind_eq_Some_conv dest!: load_step_permits)

lemma active_new [simp]: "active (load_new n convs) = 0"
  by (simp add: active_def load_new_def filter_map comp_def)

subsection \<open>Progress\<close>

text \<open>How many events a task still has, at most.\<close>

fun effort :: "conv_task \<Rightarrow> nat" where
  "effort (Queued ts) = length ts + 2"
| "effort (Replaying ts acc f) = length ts + 1"
| "effort (Returned o1) = 0"

definition efforts :: "load_state \<Rightarrow> nat" where
  "efforts s = sum_list (map effort (conv_tasks s))"

lemma answered_effort: "effort (answered secs res ts acc) \<le> length ts + 1"
  by (cases res) simp_all

lemma conv_step_effort: "conv_step e (p, t) = Some (p', t') \<Longrightarrow> effort t' < effort t"
  by (elim conv_step_SomeE) (simp_all add: le_imp_less_Suc[OF answered_effort[simplified]])

lemma load_step_effort: "load_step e s = Some s' \<Longrightarrow> efforts s' < efforts s"
  by (elim load_step_Some) (auto simp: efforts_def dest!: conv_step_effort intro: sum_list_update_less)

lemma load_run_length: "load_run es s = Some s' \<Longrightarrow> length es + efforts s' \<le> efforts s"
  by (induction es arbitrary: s) (fastforce simp: bind_eq_Some_conv dest!: load_step_effort)+

lemma efforts_new: "efforts (load_new n convs) = sum_list (map (\<lambda>c. length (turns c) + 2) convs)"
  by (simp add: efforts_def load_new_def comp_def)

lemma load_run_append: "load_run (es @ fs) s = Option.bind (load_run es s) (load_run fs)"
  by (induction es arbitrary: s) (auto split: bind_split)

lemma those_None: "those (map f xs) = None \<longleftrightarrow> (\<exists>x\<in>set xs. f x = None)"
  by (induction xs) (auto split: option.splits)

lemma joined_None:
  "joined s = None \<longleftrightarrow> (\<exists>t\<in>set (conv_tasks s). outcome_of t = None)"
  unfolding joined_def by (rule those_None)

text \<open>An event that can happen whatever the router answers.\<close>

fun next_event :: "f64 \<Rightarrow> status + model_infer_response \<Rightarrow> usize \<Rightarrow> conv_task \<Rightarrow> load_event" where
  "next_event secs res k (Queued ts) = Acquire k"
| "next_event secs res k (Replaying [] acc f) = Return k"
| "next_event secs res k (Replaying (t # ts) acc f) = Answer k secs res"
| "next_event secs res k (Returned o1) = Return k"

lemma task_of_next [simp]: "task_of (next_event secs res k t) = k"
  by (cases "(secs, res, k, t)" rule: next_event.cases) simp_all

lemma next_event_possible:
  assumes "k < length (conv_tasks s)" and "working (conv_tasks s ! k) \<or> outcome_of (conv_tasks s ! k) = None \<and> 0 < permits s"
  shows "load_step (next_event secs res k (conv_tasks s ! k)) s \<noteq> None"
  using assms
  by (cases "(secs, res, k, conv_tasks s ! k)" rule: next_event.cases; cases "permits s")
    (auto simp: load_step_def vec_get_def bind_eq_Some_conv split: bind_splits)

lemma progress:
  assumes inv: "0 < permits s + active s" and wait: "joined s = None"
  obtains k where "k < length (conv_tasks s)" "load_step (next_event secs res k (conv_tasks s ! k)) s \<noteq> None"
proof (cases "active s = 0")
  case True
  from wait obtain k where "k < length (conv_tasks s)" "outcome_of (conv_tasks s ! k) = None"
    by (auto simp: joined_None in_set_conv_nth)
  with True inv that next_event_possible[of k s secs res] show thesis by auto
next
  case False
  then obtain t where "t \<in> set (conv_tasks s)" "working t" by (auto simp: active_def filter_empty_conv)
  then obtain k where "k < length (conv_tasks s)" "working (conv_tasks s ! k)" by (auto simp: in_set_conv_nth)
  with that next_event_possible[of k s secs res] show thesis by auto
qed

lemma run_completes: "0 < permits s + active s \<Longrightarrow> \<exists>es s'. load_run es s = Some s' \<and> joined s' \<noteq> None"
proof (induction "efforts s" arbitrary: s rule: less_induct)
  case less
  show ?case
  proof (cases "joined s = None")
    case True
    obtain e s1 where s1: "load_step e s = Some s1"
      by (rule progress[OF less.prems True, of undefined undefined]) auto
    from less.hyps[OF load_step_effort[OF s1]] load_step_permits[OF s1] less.prems
    obtain es s' where "load_run es s1 = Some s'" "joined s' \<noteq> None" by auto
    with s1 show ?thesis by (intro exI[of _ "e # es"]) simp
  qed (auto intro: exI[of _ "[]"])
qed

lemma zero_permits_stuck: "load_step e (load_new 0 convs) = None"
  by (cases e) (auto simp: load_step_def load_new_def vec_get_def)

subsection \<open>Interleaving does not matter\<close>

text \<open>The answers that task \<open>k\<close> got, in order, and the replay of its conversation with them.\<close>

fun answer_of :: "usize \<Rightarrow> load_event \<Rightarrow> (f64 \<times> (status + model_infer_response)) list" where
  "answer_of k (Answer j secs res) = (if j = k then [(secs, res)] else [])"
| "answer_of k e = []"

definition answers :: "usize \<Rightarrow> load_event list \<Rightarrow> (f64 \<times> (status + model_infer_response)) list" where
  "answers k es = concat (map (answer_of k) es)"

definition replay_with :: "string list \<Rightarrow> request_result list \<Rightarrow> (f64 \<times> (status + model_infer_response)) list \<Rightarrow> conv_outcome" where
  "replay_with ts acc as =
     snd (replay (\<lambda>w w'. fst (hd w)) (\<lambda>req w. (tl w, snd (hd w))) ts acc as)"

lemma replay_with_simps [simp]:
  "replay_with [] acc as = \<lparr>results = acc, failed = False\<rparr>"
  "replay_with (t # ts) acc ((secs, Inr resp) # as) = replay_with ts (acc @ [result_of secs resp]) as"
  "replay_with (t # ts) acc ((secs, Inl st) # as) = \<lparr>results = acc, failed = True\<rparr>"
  by (simp_all add: replay_with_def)

lemma replay_with_counts:
  "failed (replay_with ts [] as) \<longleftrightarrow> length (results (replay_with ts [] as)) < length ts"
proof -
  obtain w o1 where run: "replay (\<lambda>w w'. fst (hd w)) (\<lambda>req w. (tl w, snd (hd w))) ts [] as = (w, o1)"
    by fastforce
  from replay_counts[OF this] show ?thesis by (simp add: replay_with_def run)
qed

text \<open>What a task returns when it gets the answers \<open>as\<close> from here on.\<close>

fun finishes_with :: "conv_task \<Rightarrow> (f64 \<times> (status + model_infer_response)) list \<Rightarrow> conv_outcome" where
  "finishes_with (Queued ts) as = replay_with ts [] as"
| "finishes_with (Replaying ts acc f) as = (if f then \<lparr>results = acc, failed = True\<rparr> else replay_with ts acc as)"
| "finishes_with (Returned o1) as = o1"

text \<open>A task that has failed has no turns left.\<close>

fun task_wf :: "conv_task \<Rightarrow> bool" where
  "task_wf (Replaying ts acc f) = (f \<longrightarrow> ts = [])"
| "task_wf t = True"

lemma answered_wf [simp]: "task_wf (answered secs res ts acc)"
  by (cases res) simp_all

lemma answered_finishes:
  "replay_with (t # ts) acc ((secs, res) # as) = finishes_with (answered secs res ts acc) as"
  by (cases res) simp_all

lemma conv_step_finishes:
  assumes "conv_step e (p, t) = Some (p', t')" and "task_wf t"
  shows "finishes_with t (answer_of (task_of e) e @ as) = finishes_with t' as" and "task_wf t'"
  using assms by (elim conv_step_SomeE; simp add: answered_finishes del: replay_with_simps(2,3))+

lemma answer_of_other: "task_of e \<noteq> k \<Longrightarrow> answer_of k e = []"
  by (cases e) simp_all

lemma load_run_finishes:
  assumes "load_run es s = Some s'" and "k < length (conv_tasks s)" and "\<forall>t\<in>set (conv_tasks s). task_wf t"
  shows "finishes_with (conv_tasks s ! k) (answers k es @ as) = finishes_with (conv_tasks s' ! k) as"
  using assms
proof (induction es arbitrary: s)
  case Nil
  then show ?case by (simp add: answers_def)
next
  case (Cons e es)
  from Cons.prems(1) obtain s1 where st: "load_step e s = Some s1" and run: "load_run es s1 = Some s'"
    by (auto simp: bind_eq_Some_conv)
  show ?case
  proof (rule load_step_Some[OF st])
    fix p t'
    assume j: "task_of e < length (conv_tasks s)" and c: "conv_step e (permits s, conv_tasks s ! task_of e) = Some (p, t')"
      and s1: "s1 = \<lparr>permits = p, conv_tasks = (conv_tasks s)[task_of e := t']\<rparr>"
    from Cons.prems(3) j have "task_wf (conv_tasks s ! task_of e)" by simp
    note step = conv_step_finishes[OF c this]
    have "\<forall>t\<in>set (conv_tasks s1). task_wf t"
      using Cons.prems(3) step(2) set_update_subset_insert[of "conv_tasks s" "task_of e" t'] by (auto simp: s1)
    with Cons.IH[OF run] Cons.prems(2)
    have IH: "finishes_with (conv_tasks s1 ! k) (answers k es @ as) = finishes_with (conv_tasks s' ! k) as"
      by (simp add: s1)
    have "answers k (e # es) = answer_of k e @ answers k es" by (simp add: answers_def)
    with IH step(1)[of "answers k es @ as"] j answer_of_other[of e k] show ?thesis
      by (cases "task_of e = k") (simp_all add: s1)
  qed
qed

lemma joined_Some: "joined s = Some os \<longleftrightarrow> conv_tasks s = map Returned os"
proof -
  have "those (map outcome_of ts) = Some os \<longleftrightarrow> ts = map Returned os" for ts
  proof (induction ts arbitrary: os)
    case (Cons t ts)
    then show ?case by (cases t; cases os) (auto split: option.splits)
  qed auto
  then show ?thesis by (simp add: joined_def)
qed

subsection \<open>Properties\<close>

text \<open>Two conversations, one permit; the second one runs first, and the first one fails.\<close>

definition blank_response :: model_infer_response where
  "blank_response = \<lparr>resp_model_name = [], resp_model_version = [], resp_id = [], parameters = [], outputs = []\<rparr>"

definition demo_convs :: "conversation list" where
  "demo_convs = [\<lparr>conv_id = ''x'', turns = [''a'', ''b'']\<rparr>, \<lparr>conv_id = ''y'', turns = [''c'']\<rparr>]"

definition demo_events :: "load_event list" where
  "demo_events =
     [Acquire 1, Answer 1 (F64 1 0) (Inr blank_response), Return 1,
      Acquire 0, Answer 0 (F64 2 0) (Inr blank_response), Answer 0 (F64 1 0) (Inl (status_of Unavailable [])), Return 0]"

definition demo_outcomes :: "conv_outcome list" where
  "demo_outcomes =
     [\<lparr>results = [result_of (F64 2 0) blank_response], failed = True\<rparr>,
      \<lparr>results = [result_of (F64 1 0) blank_response], failed = False\<rparr>]"

lemma demo_load_run:
  "load_run demo_events (load_new 1 demo_convs) = Some \<lparr>permits = 1, conv_tasks = map Returned demo_outcomes\<rparr>"
  by (simp add: demo_events_def demo_convs_def demo_outcomes_def load_new_def load_step_def vec_get_def)



text \<open>C20. The interleaving does not matter: once every task has returned, the outcome of each
  conversation is the replay of its turns alone with the answers it got, so it has one result per
  answered turn and has failed exactly if some turn has none; and the summary lists the results in
  the order of the conversations, whatever the order in which they ended.\<close>

theorem load_run_equals_sequential_replay:
  assumes "load_run es (load_new n convs) = Some s" and "joined s = Some os"
  shows "os = map (\<lambda>k. replay_with (turns (convs ! k)) [] (answers k es)) [0..<length convs] \<and>
    collect_outcomes os [] 0 0 =
      (concat (map results os), length (filter failed os), length (filter failed os)) \<and>
    (\<forall>k<length convs. failed (os ! k) \<longleftrightarrow> length (results (os ! k)) < length (turns (convs ! k)))"
proof -
  have len: "length os = length convs"
    using load_run_permits[OF assms(1)] assms(2) by (simp add: joined_Some load_new_def)
  have each: "os ! k = replay_with (turns (convs ! k)) [] (answers k es)" if "k < length convs" for k
    using load_run_finishes[OF assms(1), of k "[]"] that len assms(2) by (simp add: joined_Some load_new_def)
  have "failed (os ! k) \<longleftrightarrow> length (results (os ! k)) < length (turns (convs ! k))" if "k < length convs" for k
    by (simp only: each[OF that] replay_with_counts)
  with each len show ?thesis by (auto simp: collect_outcomes_eq intro: nth_equalityI)
qed

theorem load_run_equals_sequential_replay_witness:
  "collect_outcomes demo_outcomes [] 0 0 =
     ([result_of (F64 2 0) blank_response, result_of (F64 1 0) blank_response], 1, 1)"
proof -
  have "joined \<lparr>permits = 1, conv_tasks = map Returned demo_outcomes\<rparr> = Some demo_outcomes"
    by (simp add: joined_Some)
  from load_run_equals_sequential_replay[OF demo_load_run this]
  have "collect_outcomes demo_outcomes [] 0 0 =
      (concat (map results demo_outcomes), length (filter failed demo_outcomes), length (filter failed demo_outcomes))"
    by blast
  then show ?thesis by (simp only:) (simp add: demo_outcomes_def)
qed

end
