(* ===== verification/F64_Round.thy ===== *)
theory F64_Round
  imports F64
begin

text \<open>
  The rest of the \<open>f64\<close> arithmetic of the load generator: division, \<open>round\<close>, the casts from and to
  integers, and sorting by \<open>partial_cmp\<close>; and the error of a rounding.
\<close>

definition f64_of_i64 :: "int \<Rightarrow> f64" where
  "f64_of_i64 i = f64_round i 0"

text \<open>\<open>f64::round\<close>: to the nearest integer, halves away from zero.\<close>

fun f64_round_int :: "f64 \<Rightarrow> f64" where
  "f64_round_int (F64 m e) =
     (if 0 \<le> e then F64 m e
      else let k = nat (- e) in F64 (sgn m * ((2 * \<bar>m\<bar> + 2 ^ k) div 2 ^ (k + 1))) 0)"
| "f64_round_int x = x"

text \<open>\<open>as usize\<close> truncates and saturates; NaN becomes zero.\<close>

fun f64_as_usize :: "f64 \<Rightarrow> usize" where
  "f64_as_usize F64_NaN = 0"
| "f64_as_usize (F64_Inf neg) = (if neg then 0 else 2 ^ 64 - 1)"
| "f64_as_usize (F64 m e) =
     min (2 ^ 64 - 1) (if 0 \<le> e then nat m * 2 ^ nat e else nat m div 2 ^ nat (- e))"

text \<open>
  The quotient is computed to at least 55 bits, with one more bit that says whether it is exact, and
  rounded once. The sign of a zero divisor is not kept; the code divides by positive numbers only.
\<close>

fun f64_div :: "f64 \<Rightarrow> f64 \<Rightarrow> f64" where
  "f64_div F64_NaN y = F64_NaN"
| "f64_div x F64_NaN = F64_NaN"
| "f64_div (F64_Inf s) (F64_Inf t) = F64_NaN"
| "f64_div (F64_Inf s) (F64 n f) = F64_Inf (s \<noteq> (n < 0))"
| "f64_div (F64 m e) (F64_Inf t) = f64_zero"
| "f64_div (F64 m e) (F64 n f) =
     (if n = 0 then (if m = 0 then F64_NaN else F64_Inf (m < 0))
      else let s = 55 + floorlog 2 (nat \<bar>n\<bar>) - floorlog 2 (nat \<bar>m\<bar>);
               a = \<bar>m\<bar> * 2 ^ s;
               q = 2 * (a div \<bar>n\<bar>) + (if a mod \<bar>n\<bar> = 0 then 0 else 1)
           in f64_round (sgn m * sgn n * q) (e - f - int s - 1))"

text \<open>\<open>sort_by(|a, b| a.partial_cmp(b).unwrap())\<close>: a stable sort; comparing a NaN panics.\<close>

fun f64_insert :: "f64 \<Rightarrow> f64 list \<Rightarrow> f64 list" where
  "f64_insert x [] = [x]"
| "f64_insert x (y # ys) = (if f64_gt x y then y # f64_insert x ys else x # y # ys)"

definition f64_sort :: "f64 list \<Rightarrow> f64 list panics" where
  "f64_sort xs = (if 2 \<le> length xs \<and> F64_NaN \<in> set xs then None else Some (foldr f64_insert xs []))"

subsection \<open>Sorting\<close>

lemma mset_f64_insert [simp]: "mset (f64_insert x ys) = add_mset x (mset ys)"
  by (induction ys) auto

lemma set_f64_insert [simp]: "set (f64_insert x ys) = insert x (set ys)"
  by (metis mset_f64_insert set_mset_add_mset_insert set_mset_mset)

lemma f64_gt_asym: "f64_gt x y \<Longrightarrow> \<not> f64_gt y x"
  by (auto simp: f64_gt_iff)

lemma f64_insert_sorted:
  assumes "sorted_wrt (\<lambda>a b. \<not> f64_gt a b) ys" and "F64_NaN \<notin> set (x # ys)"
  shows "sorted_wrt (\<lambda>a b. \<not> f64_gt a b) (f64_insert x ys)"
  using assms
proof (induction ys)
  case (Cons y ys)
  show ?case
  proof (cases "f64_gt x y")
    case True
    with Cons f64_gt_asym[OF True] show ?thesis by auto
  next
    case False
    then have "\<not> f64_gt x z" if "z \<in> set ys" for z
      using that Cons.prems f64_not_gt_trans[of y x z] by auto
    with False Cons.prems show ?thesis by auto
  qed
qed simp

lemma f64_sort_correct:
  assumes "F64_NaN \<notin> set xs"
  shows "\<exists>ys. f64_sort xs = Some ys \<and> mset ys = mset xs \<and> sorted_wrt (\<lambda>a b. \<not> f64_gt a b) ys"
proof -
  have "mset (foldr f64_insert xs []) = mset xs \<and> sorted_wrt (\<lambda>a b. \<not> f64_gt a b) (foldr f64_insert xs [])"
    using assms
  proof (induction xs)
    case (Cons x xs)
    then have "set (foldr f64_insert xs []) = set xs" by (metis list.set_intros(2) set_mset_mset)
    with Cons f64_insert_sorted[of "foldr f64_insert xs []" x] show ?case by auto
  qed simp
  with assms show ?thesis by (simp add: f64_sort_def)
qed

subsection \<open>The error of a rounding\<close>

lemma rne_bounds: "b * 2 ^ k \<le> a \<Longrightarrow> b \<le> rne a k" "a \<le> b * 2 ^ k \<Longrightarrow> rne a k \<le> b"
proof -
  assume "b * 2 ^ k \<le> a"
  then have "b \<le> a div 2 ^ k" by (metis div_le_mono nonzero_mult_div_cancel_right power_not_zero zero_neq_numeral)
  then show "b \<le> rne a k" by (simp add: rne_def Let_def)
next
  assume a: "a \<le> b * 2 ^ k"
  show "rne a k \<le> b"
  proof (cases "a = b * 2 ^ k")
    case True
    then show ?thesis by (simp add: rne_def Let_def)
  next
    case False
    with a have "a div 2 ^ k < b" by (simp add: less_mult_imp_div_less)
    then show ?thesis by (simp add: rne_def Let_def)
  qed
qed

lemma rne_error: "2 * \<bar>int (rne a k) * 2 ^ k - int a\<bar> \<le> 2 ^ k"
proof -
  define q r where "q = a div 2 ^ k" and "r = a mod 2 ^ k"
  have "a = q * 2 ^ k + r" unfolding q_def r_def by (rule div_mult_mod_eq[symmetric])
  from arg_cong[OF this, of int] have a: "int a = int q * 2 ^ k + int r" by simp
  have "r < 2 ^ k" unfolding r_def by (rule mod_less_divisor) simp
  then have "int r < int (2 ^ k)" by (simp only: of_nat_less_iff)
  then have r: "int r < 2 ^ k" by simp
  show ?thesis
  proof (cases "2 ^ k < 2 * r \<or> 2 ^ k = 2 * r \<and> odd q")
    case True
    then have "rne a k = q + 1" by (simp add: rne_def q_def r_def Let_def)
    moreover from True have "2 ^ k \<le> 2 * r" by auto
    then have "int (2 ^ k) \<le> int (2 * r)" by (simp only: of_nat_le_iff)
    then have "(2::int) ^ k \<le> 2 * int r" by simp
    ultimately show ?thesis using a r by (simp add: algebra_simps)
  next
    case False
    then have "rne a k = q" by (simp add: rne_def q_def r_def Let_def)
    moreover from False have "2 * r \<le> 2 ^ k" by auto
    then have "int (2 * r) \<le> int (2 ^ k)" by (simp only: of_nat_le_iff)
    then have "2 * int r \<le> 2 ^ k" by simp
    ultimately show ?thesis using a by simp
  qed
qed

lemma rne_near:
  assumes "2 * \<bar>int b * 2 ^ k - int a\<bar> < 2 ^ k"
  shows "rne a k = b"
proof -
  have near: "\<bar>x - y\<bar> < w" if "2 * \<bar>y - z\<bar> < w" "2 * \<bar>x - z\<bar> \<le> w" for x y z w :: int
    using that abs_triangle_ineq4[of "x - z" "y - z"] by simp
  have "\<bar>(int (rne a k) - int b) * 2 ^ k\<bar> < 1 * 2 ^ k"
    using near[OF assms rne_error] by (simp add: left_diff_distrib)
  then have "\<bar>int (rne a k) - int b\<bar> * 2 ^ k < 1 * 2 ^ k" by (simp only: abs_mult) simp
  then have "\<bar>int (rne a k) - int b\<bar> < 1" by (simp only: mult_less_cancel_right) simp
  then show ?thesis by simp
qed

text \<open>Rounding a nonnegative fraction to an index.\<close>

lemma index_of_fraction:
  assumes "0 < k"
  shows "f64_as_usize (f64_round_int (F64 (int q) (- int k))) = min (2 ^ 64 - 1) ((2 * q + 2 ^ k) div 2 ^ (k + 1))"
proof -
  define x where "x = (2 * q + 2 ^ k) div 2 ^ (k + 1)"
  have "(2 * \<bar>int q\<bar> + 2 ^ k) div 2 ^ (k + 1) = int x"
    unfolding x_def by (simp only: of_nat_div of_nat_add of_nat_mult of_nat_power of_nat_numeral abs_of_nat)
  moreover have "q = 0 \<Longrightarrow> x = 0" unfolding x_def by simp
  moreover have "\<not> 0 \<le> - int k" using assms by simp
  ultimately have "f64_round_int (F64 (int q) (- int k)) = F64 (int x) 0"
    unfolding f64_round_int.simps Let_def minus_minus nat_int by (cases "q = 0") (simp_all only: if_False, simp_all)
  then show ?thesis by (simp add: x_def)
qed

text \<open>Rounding a positive number that is neither tiny nor huge.\<close>

lemma f64_round_nat:
  assumes "0 < a" and "- 1074 \<le> e" and k: "k = floorlog 2 a - 53"
    and "int (floorlog 2 (rne a k)) + e + int k \<le> 1024"
  shows "f64_round (int a) e = F64 (int (rne a k)) (e + int k)"
proof -
  have shift: "nat (max (int (floorlog 2 a) - 53) (- 1074 - e)) = k" using assms(2) by (simp add: k)
  show ?thesis
    unfolding f64_round_def Let_def abs_of_nat nat_int shift using assms(1,4) by simp
qed

subsection \<open>Decimal literals\<close>

text \<open>A decimal literal is the double nearest to \<open>n / 10 ^ k\<close>.\<close>

definition f64_decimal :: "int \<Rightarrow> nat \<Rightarrow> f64" where
  "f64_decimal n k = f64_div (F64 n 0) (F64 (10 ^ k) 0)"

lemma floorlog_between: "2 ^ k \<le> n \<Longrightarrow> n < 2 ^ Suc k \<Longrightarrow> floorlog 2 n = Suc k"
  by (rule antisym) (rule floorlog_le, assumption, rule floorlog_ge_SucI, simp_all)

text \<open>The value of a literal from its quotient \<open>q\<close>, which has \<open>f\<close> bits.\<close>

lemma f64_decimal_value:
  assumes "0 < n" and "floorlog 2 n = a" and "floorlog 2 (10 ^ k) = b" and s: "s = 55 + b - a" "s \<le> 200"
    and q: "q = 2 * (n * 2 ^ s div 10 ^ k) + (if n * 2 ^ s mod 10 ^ k = 0 then 0 else 1)" "0 < q"
    and f: "floorlog 2 q = f" "f \<le> 200" and m: "rne q (f - 53) = m"
  shows "f64_decimal (int n) k = F64 (int m) (int (f - 53) - int s - 1)"
proof -
  have "rne q (f - 53) \<le> q" by (rule rne_bounds(2)) simp
  then have fm: "floorlog 2 (rne q (f - 53)) \<le> f" unfolding f(1)[symmetric] by (rule floorlog_mono)
  have "(int (n * 2 ^ s) mod int (10 ^ k) = 0) = (n * 2 ^ s mod 10 ^ k = 0)" by (simp only: of_nat_mod[symmetric] of_nat_eq_0_iff)
  then have iq: "2 * (int (n * 2 ^ s) div int (10 ^ k)) + (if int (n * 2 ^ s) mod int (10 ^ k) = 0 then 0 else 1) = int q"
    unfolding q(1) by (simp add: of_nat_div)
  have pow: "(10 ^ k :: int) = int (10 ^ k)" "int n * 2 ^ s = int (n * 2 ^ s)" by simp_all
  have "f64_decimal (int n) k = f64_round (int q) (- int s - 1)"
    using assms(1) unfolding f64_decimal_def f64_div.simps Let_def pow(1) abs_of_nat nat_int assms(2,3) s(1)[symmetric] pow(2) iq
    by (simp add: sgn_if)
  also have "\<dots> = F64 (int (rne q (f - 53))) (- int s - 1 + int (f - 53))"
    by (rule f64_round_nat) (use q(2) f s(2) fm in simp_all)
  finally show ?thesis unfolding m by (simp add: algebra_simps)
qed

end
