(* ===== verification/Load_Report.thy ===== *)
theory Load_Report
  imports Load_Run F64_Round
begin

text \<open>
  \<open>crates/loadgen/src/main.rs\<close>, the report: the numbers that \<open>main\<close> prints about a run. Wall time and
  throughput, which are only printed, are left out.
\<close>

definition percentile :: "f64 list \<Rightarrow> f64 \<Rightarrow> f64 panics" where
  "percentile sorted_ms p =
     (if sorted_ms = [] then Some f64_zero
      else vec_get sorted_ms
        (f64_as_usize (f64_round_int (f64_mul (f64_sub (f64_of_usize (length sorted_ms)) (F64 1 0)) p))))"

text \<open>The literals \<open>0.50\<close> and \<open>0.99\<close>.\<close>

definition p50_literal :: f64 where "p50_literal = F64 1 (- 1)"
definition p99_literal :: f64 where "p99_literal = F64 8917127262193582 (- 53)"

text \<open>The sum of \<open>i64\<close>s, which wraps in a release build.\<close>

definition i64_sum :: "int list \<Rightarrow> int" where
  "i64_sum xs = sint (sum_list (map word_of_int xs) :: 64 word)"

definition hit_counts :: "request_result list \<Rightarrow> int \<times> int" where
  "hit_counts all = (i64_sum (map cached_blocks all), i64_sum (map total_blocks all))"

definition hit_rate :: "int \<Rightarrow> int \<Rightarrow> f64" where
  "hit_rate cached tot =
     (if 0 < tot then f64_div (f64_mul (F64 100 0) (f64_of_i64 cached)) (f64_of_i64 tot) else f64_zero)"

record load_report =
  report_requests :: usize
  latency_p50 :: f64
  latency_p99 :: f64
  report_hit_rate :: f64
  report_cached :: int
  report_total :: int
  report_failed :: nat
  report_abandoned :: nat

definition load_report :: "conv_outcome list \<Rightarrow> load_report panics" where
  "load_report os =
     (let (all, failed_requests, abandoned) = collect_outcomes os [] 0 0;
          (cached, tot) = hit_counts all
      in do {
        latencies \<leftarrow> f64_sort (map latency_ms all);
        p50 \<leftarrow> percentile latencies p50_literal;
        p99 \<leftarrow> percentile latencies p99_literal;
        Some \<lparr>report_requests = length all, latency_p50 = p50, latency_p99 = p99,
          report_hit_rate = hit_rate cached tot, report_cached = cached, report_total = tot,
          report_failed = failed_requests, report_abandoned = abandoned\<rparr>
      })"

subsection \<open>Percentiles\<close>

lemma decimal_99_2: "f64_decimal 99 2 = F64 8917127262193582 (- 53)"
  using f64_decimal_value[of 99 7 2 7 55 71337018097548657 56 8917127262193582]
    floorlog_between[of 6 99] floorlog_between[of 6 "10 ^ 2"] floorlog_between[of 55 71337018097548657]
  by (simp add: rne_def)

text \<open>So the literal is the double nearest to \<open>0.99\<close>.\<close>

lemma p99_literal_decimal: "p99_literal = f64_decimal 99 2"
  by (simp add: p99_literal_def decimal_99_2)

lemma length_minus_one:
  "xs \<noteq> [] \<Longrightarrow> length xs < 2 ^ 53 \<Longrightarrow> f64_sub (f64_of_usize (length xs)) (F64 1 0) = F64 (int (length xs - 1)) 0"
  by (cases xs) (simp_all add: f64_sub_def f64_of_usize_exact f64_round_exact)

lemma f64_round_half: "n < 2 ^ 53 \<Longrightarrow> f64_round (int n) (- 1) = F64 (int n) (- 1)"
proof -
  assume n: "n < 2 ^ 53"
  then have "floorlog 2 n \<le> 53" by (rule floorlog_le)
  then show ?thesis by (simp add: f64_round_def rne_def Let_def sgn_if)
qed

definition percentile_index :: "nat \<Rightarrow> f64 \<Rightarrow> usize" where
  "percentile_index n p = f64_as_usize (f64_round_int (f64_mul (F64 (int n) 0) p))"

lemma percentile_eq:
  assumes "xs \<noteq> []" and "length xs < 2 ^ 53"
  shows "percentile xs p = vec_get xs (percentile_index (length xs - 1) p)"
  using assms(1) by (simp only: percentile_def length_minus_one[OF assms] percentile_index_def if_False)

lemma percentile_index_50: "n < 2 ^ 53 \<Longrightarrow> percentile_index n p50_literal = (n + 1) div 2"
proof -
  assume n: "n < 2 ^ 53"
  have "percentile_index n p50_literal = f64_as_usize (f64_round_int (F64 (int n) (- int 1)))"
    using f64_round_half[OF n] by (simp add: percentile_index_def p50_literal_def)
  also have "\<dots> = min (2 ^ 64 - 1) ((2 * n + 2 ^ 1) div 2 ^ (1 + 1))"
    by (rule index_of_fraction) simp
  also have "\<dots> = (n + 1) div 2" using n by simp
  finally show ?thesis .
qed

text \<open>The product of \<open>n\<close> and \<open>0.99\<close>, rounded to 53 bits and then to an integer, is \<open>0.99 n\<close> rounded to an integer.\<close>

lemma div_from_bounds: "m * d \<le> x \<Longrightarrow> x < (m + 1) * d \<Longrightarrow> x div d = (m :: int)"
  by (rule int_div_pos_eq[of x d m "x - m * d"]) (simp_all add: algebra_simps)

lemma round_99_near:
  fixes n Q W :: int
  assumes n: "0 < n" "n < 2 ^ 46" and W: "W \<le> 2 ^ 46" and Q: "2 * \<bar>Q - n * 8917127262193582\<bar> \<le> W"
    and tie: "(99 * n + 50) mod 100 = 0 \<Longrightarrow> 100 * Q = 99 * n * 2 ^ 53"
  shows "(2 * Q + 2 ^ 53) div 2 ^ 54 = (99 * n + 50) div 100"
proof -
  define N r where "N = (99 * n + 50) div 100" and "r = (99 * n + 50) mod 100"
  have split: "99 * n + 50 = 100 * N + r" and r: "0 \<le> r" "r < 100" by (simp_all add: N_def r_def)
  have "- W \<le> 2 * x \<and> 2 * x \<le> W" if "2 * \<bar>x\<bar> \<le> W" for x using that by (simp add: abs_if split: if_splits)
  from this[OF Q] have err: "- W \<le> 2 * Q - 17834254524387164 * n" "2 * Q - 17834254524387164 * n \<le> W" by simp_all
  have n46: "n \<le> 70368744177664" and W46: "W \<le> 70368744177664" using n W by simp_all
  have "N * 2 ^ 54 \<le> 2 * Q + 2 ^ 53"
  proof (cases "r = 0")
    case True
    with tie have "100 * Q = 99 * n * 2 ^ 53" unfolding r_def by blast
    then have "100 * Q = 891712726219358208 * n" by simp
    with True split have "N * 18014398509481984 \<le> 2 * Q + 9007199254740992" by linarith
    then show ?thesis by simp
  next
    case False
    with r have "1 \<le> r" by simp
    with err split n46 W46 have "N * 18014398509481984 \<le> 2 * Q + 9007199254740992" by linarith
    then show ?thesis by simp
  qed
  moreover have "2 * Q + 2 ^ 53 < (N + 1) * 2 ^ 54"
  proof -
    from r have "r \<le> 99" by simp
    with err split n(1) W46 have "2 * Q + 9007199254740992 < N * 18014398509481984 + 18014398509481984" by linarith
    then show ?thesis by simp
  qed
  ultimately show ?thesis unfolding N_def[symmetric] by (rule div_from_bounds)
qed

lemma round_99:
  fixes n k :: nat
  assumes n: "0 < n" "n < 2 ^ 46" and a: "a = n * 8917127262193582" and k: "k = floorlog 2 a - 53"
  shows "k \<le> 46" and "(2 * rne a k + 2 ^ (53 - k)) div 2 ^ (54 - k) = (99 * n + 50) div 100"
proof -
  have "a < 2 ^ 99" using n(2) unfolding a by simp
  then have "floorlog 2 a \<le> 99" by (rule floorlog_le)
  then show k46: "k \<le> 46" by (simp add: k)
  have "(2::nat) ^ 52 \<le> a" using n(1) by (simp add: a)
  then have "53 \<le> floorlog 2 a" using floorlog_ge_SucI[of 2 52 a] by simp
  then have "a < 2 ^ (k + 53)" using floorlog_bounds[of a 2] n(1) a k by simp
  then have "int a < int (2 ^ (k + 53))" by (simp only: of_nat_less_iff)
  then have ulp: "int a < 2 ^ k * 2 ^ 53" by (simp add: power_add)
  define Q where "Q = int (rne a k) * 2 ^ k"
  have tie: "100 * Q = 99 * int n * 2 ^ 53" if "(99 * int n + 50) mod 100 = 0"
  proof -
    define b where "b = nat (2 * ((99 * int n + 50) div 100) - 1) * 2 ^ (52 - k)"
    have N: "99 * int n + 50 = 100 * ((99 * int n + 50) div 100)" using that mult_div_mod_eq[of 100 "99 * int n + 50"] by simp
    have "(2::int) ^ (52 - k) * 2 ^ k = 2 ^ 52" using k46 by (simp flip: power_add)
    then have "int b * 2 ^ k = (2 * ((99 * int n + 50) div 100) - 1) * 2 ^ 52"
      using N n(1) by (simp add: b_def mult.assoc)
    then have T: "100 * (int b * 2 ^ k) = 99 * int n * 2 ^ 53" using N by simp
    have "2 * \<bar>int b * 2 ^ k - int a\<bar> < 2 ^ k"
      using T ulp n unfolding a by (simp add: abs_less_iff)
    then have "rne a k = b" by (rule rne_near)
    with T show ?thesis by (simp add: Q_def)
  qed
  have "(2::int) ^ k \<le> 2 ^ 46" using k46 by (rule power_increasing) simp
  from round_99_near[of "int n" "2 ^ k" Q, OF _ _ this _ tie] n rne_error[of a k]
  have "(2 * Q + 2 ^ 53) div 2 ^ 54 = (99 * int n + 50) div 100" by (simp add: Q_def a)
  moreover have "(2 * Q + 2 ^ 53) div 2 ^ 54 =
      ((2 * int (rne a k) + 2 ^ (53 - k)) * 2 ^ k) div (2 ^ (54 - k) * 2 ^ k)"
    using k46 by (simp add: Q_def distrib_right flip: power_add)
  ultimately have "(2 * int (rne a k) + 2 ^ (53 - k)) div 2 ^ (54 - k) = (99 * int n + 50) div 100" by simp
  then have "int ((2 * rne a k + 2 ^ (53 - k)) div 2 ^ (54 - k)) = int ((99 * n + 50) div 100)"
    by (simp add: zdiv_int)
  then show "(2 * rne a k + 2 ^ (53 - k)) div 2 ^ (54 - k) = (99 * n + 50) div 100" by (simp only: of_nat_eq_iff)
qed

lemma product_99:
  assumes n: "0 < n" "n < 2 ^ 46" and a: "a = n * 8917127262193582" and k: "k = floorlog 2 a - 53"
  shows "f64_mul (F64 (int n) 0) p99_literal = F64 (int (rne a k)) (- int (53 - k))"
proof -
  have k46: "k \<le> 46" by (rule round_99(1)[OF assms])
  have "rne a k \<le> a" by (rule rne_bounds(2)) simp
  also have "a < 2 ^ 99" using n(2) unfolding a by simp
  finally have q: "floorlog 2 (rne a k) \<le> 99" by (rule floorlog_le)
  then have "f64_round (int a) (- 53) = F64 (int (rne a k)) (- 53 + int k)"
    using k46 n(1) k by (intro f64_round_nat) (simp_all add: a)
  moreover have "int n * 8917127262193582 = int a" by (simp add: a)
  ultimately show ?thesis using k46 by (simp add: p99_literal_def of_nat_diff)
qed

lemma percentile_index_99: "n < 2 ^ 46 \<Longrightarrow> percentile_index n p99_literal = (99 * n + 50) div 100"
proof (cases "n = 0")
  case True
  then show ?thesis by (simp add: percentile_index_def p99_literal_def f64_round_def rne_def)
next
  case False
  assume n: "n < 2 ^ 46"
  define a k where "a = n * 8917127262193582" and "k = floorlog 2 a - 53"
  from False have "0 < n" by simp
  note r = round_99[OF this n a_def k_def]
  have K: "54 - k = (53 - k) + 1" using r(1) by simp
  have "percentile_index n p99_literal = f64_as_usize (f64_round_int (F64 (int (rne a k)) (- int (53 - k))))"
    unfolding percentile_index_def product_99[OF \<open>0 < n\<close> n a_def k_def] by (rule refl)
  also have "\<dots> = min (2 ^ 64 - 1) ((2 * rne a k + 2 ^ (53 - k)) div 2 ^ ((53 - k) + 1))"
    by (rule index_of_fraction) (use r(1) in simp)
  also have "\<dots> = (99 * n + 50) div 100" unfolding r(2)[unfolded K] using n by simp
  finally show ?thesis .
qed

subsection \<open>The hit rate\<close>

text \<open>The scaled quotient with its sticky bit is within one of twice the scaled fraction.\<close>

lemma sticky_quotient:
  fixes a n :: nat
  assumes "0 < n" and q: "q = 2 * (a div n) + (if a mod n = 0 then 0 else 1)"
  shows "\<bar>real q - 2 * (real a / real n)\<bar> \<le> 1"
proof -
  define d r where "d = a div n" and "r = a mod n"
  have a: "real a = real d * real n + real r" unfolding d_def r_def
    by (metis div_mult_mod_eq of_nat_add of_nat_mult)
  have r: "r < n" using assms(1) by (simp add: r_def)
  have x: "real a / real n = real d + real r / real n" using assms(1) by (simp add: a add_divide_distrib)
  have "0 \<le> real r / real n" "real r / real n < 1" "r = 0 \<Longrightarrow> real r / real n = 0" using r by simp_all
  moreover have "real q = 2 * real d + (if r = 0 then 0 else 1)" by (simp add: q d_def r_def)
  ultimately show ?thesis unfolding x by (cases "r = 0") (simp_all add: abs_le_iff)
qed

lemma rne_error_real: "2 * \<bar>real (rne q k) * 2 ^ k - real q\<bar> \<le> 2 ^ k"
proof -
  have "real_of_int (2 * \<bar>int (rne q k) * 2 ^ k - int q\<bar>) \<le> real_of_int (2 ^ k)"
    using rne_error[of q k] by (simp only: of_int_le_iff)
  then show ?thesis by simp
qed

lemma sticky_bound:
  fixes a n b :: nat
  assumes "0 < n" and "a \<le> b * n"
  shows "2 * (a div n) + (if a mod n = 0 then 0 else 1) \<le> 2 * b"
proof (cases "a div n = b")
  case True
  then have "a mod n = 0" using assms(2) mult_div_mod_eq[of n a] by (simp add: mult.commute)
  with True show ?thesis by simp
next
  case False
  have "a div n \<le> b" using assms div_le_mono[OF assms(2), of n] by simp
  with False show ?thesis by simp
qed

text \<open>Division of positive whole numbers: the scaled quotient, rounded.\<close>

lemma f64_div_nat:
  assumes "0 < m" and "0 < n" and s: "s = 55 + floorlog 2 n - floorlog 2 m" and a: "a = m * 2 ^ s"
    and q: "q = 2 * (a div n) + (if a mod n = 0 then 0 else 1)"
  shows "f64_div (F64 (int m) 0) (F64 (int n) 0) = f64_round (int q) (- int s - 1)"
proof -
  have "(int a mod int n = 0) = (a mod n = 0)" by (simp flip: of_nat_mod)
  then have iq: "2 * (int a div int n) + (if int a mod int n = 0 then 0 else 1) = int q"
    by (simp add: q of_nat_div)
  have ia: "int m * 2 ^ s = int a" by (simp add: a)
  have sg: "sgn (int m) * sgn (int n) = 1" using assms(1,2) by (simp add: sgn_if)
  show ?thesis
    using assms(2) unfolding f64_div.simps Let_def nat_int abs_of_nat s[symmetric] ia iq sg by simp
qed

text \<open>The quotient of a percentage: its parts, its bound, and its error in units of the last place.\<close>

lemma percent_quotient:
  assumes c: "0 < c" "c \<le> n" and n: "n < 2 ^ 46"
  obtains Q k s where "f64_div (F64 (100 * int c) 0) (F64 (int n) 0) = F64 (int Q) (int k - int s - 1)"
    "k + 45 \<le> s" "Q * 2 ^ k \<le> 100 * 2 ^ (s + 1)"
    "\<bar>real (Q * 2 ^ k) - 2 ^ (s + 1) * (100 * real c / real n)\<bar> \<le> 2 ^ k / 2 + 1"
proof -
  let ?m = "100 * c"
  have n0: "0 < n" using c by simp
  have fn: "floorlog 2 n \<le> 46" using n by (rule floorlog_le)
  have "n < 2 ^ floorlog 2 n" using floorlog_bounds[of n 2] n0 by simp
  with c have "?m < 2 ^ (floorlog 2 n + 7)" by (simp add: power_add)
  then have fm: "floorlog 2 ?m \<le> floorlog 2 n + 7" by (rule floorlog_le)
  define s where "s = 55 + floorlog 2 n - floorlog 2 ?m"
  have s: "48 \<le> s" "s \<le> 101" using fm fn by (simp_all add: s_def)
  define a where "a = ?m * 2 ^ s"
  define q where "q = 2 * (a div n) + (if a mod n = 0 then 0 else 1)"
  define k where "k = floorlog 2 q - 53"
  have "0 < a" using c by (simp add: a_def)
  have q0: "0 < q" using \<open>0 < a\<close> n0 by (cases "a div n = 0") (auto simp: q_def div_eq_0_iff)
  have "a \<le> (100 * 2 ^ s) * n" using c by (simp add: a_def)
  from sticky_bound[OF n0 this] have qb: "q \<le> 100 * 2 ^ (s + 1)" by (simp add: q_def)
  also have "\<dots> < 2 ^ (s + 8)" by (simp add: power_add)
  finally have "floorlog 2 q \<le> s + 8" by (rule floorlog_le)
  then have k: "k + 45 \<le> s" using s by (simp add: k_def)
  have split: "100 * 2 ^ (s + 1) = (100 * 2 ^ (s + 1 - k)) * (2::nat) ^ k"
    using k by (simp flip: power_add)
  from qb have rb: "rne q k \<le> 100 * 2 ^ (s + 1 - k)" unfolding split by (rule rne_bounds(2))
  have "rne q k \<le> q" by (rule rne_bounds(2)) simp
  also note \<open>q \<le> 100 * 2 ^ (s + 1)\<close>
  also have "100 * 2 ^ (s + 1) < (2::nat) ^ (s + 8)" by (simp add: power_add)
  finally have fr: "floorlog 2 (rne q k) \<le> s + 8" by (rule floorlog_le)
  have round: "f64_round (int q) (- int s - 1) = F64 (int (rne q k)) (- int s - 1 + int k)"
    by (rule f64_round_nat[OF q0 _ k_def]) (use s k fr in simp_all)
  have m: "100 * int c = int ?m" "0 < ?m" using c by simp_all
  have "f64_div (F64 (int ?m) 0) (F64 (int n) 0) = f64_round (int q) (- int s - 1)"
    using f64_div_nat[OF m(2) n0 s_def a_def q_def] .
  with round m(1) have div: "f64_div (F64 (100 * int c) 0) (F64 (int n) 0) = F64 (int (rne q k)) (int k - int s - 1)"
    by (simp add: algebra_simps)
  have bound: "rne q k * 2 ^ k \<le> 100 * 2 ^ (s + 1)" using rb unfolding split by simp
  have x: "2 * (real a / real n) = 2 ^ (s + 1) * (100 * real c / real n)" by (simp add: a_def)
  have near: "\<bar>X - Z\<bar> \<le> w / 2 + 1" if "2 * \<bar>X - Y\<bar> \<le> w" "\<bar>Y - Z\<bar> \<le> 1" for X Y Z w :: real
    using that abs_triangle_ineq[of "X - Y" "Y - Z"] by simp
  have "\<bar>real (rne q k * 2 ^ k) - 2 * (real a / real n)\<bar> \<le> 2 ^ k / 2 + 1"
    using near[OF rne_error_real[of q k] sticky_quotient[OF n0 q_def]] by simp
  then have "\<bar>real (rne q k * 2 ^ k) - 2 ^ (s + 1) * (100 * real c / real n)\<bar> \<le> 2 ^ k / 2 + 1"
    by (simp only: x)
  with that[OF div k bound] show thesis .
qed

lemma f64_round_zero: "\<exists>e'. f64_round 0 e = F64 0 e'"
  by (simp add: f64_round_def rne_def Let_def)

lemma hit_rate_zero: "0 \<le> t \<Longrightarrow> t < 2 ^ 46 \<Longrightarrow> \<exists>e. hit_rate 0 t = F64 0 e"
  using f64_round_zero by (cases "t = 0") (simp_all add: hit_rate_def f64_of_i64_def f64_round_exact f64_zero_def Let_def)

lemma abs_diff_scale:
  fixes v x w :: real
  assumes "0 \<le> w"
  shows "\<bar>v - x\<bar> * w = \<bar>v * w - w * x\<bar>"
proof -
  have "v * w - w * x = (v - x) * w" by (simp add: algebra_simps)
  with assms show ?thesis by (simp add: abs_mult)
qed

lemma hit_rate_close:
  assumes "0 \<le> c" "c \<le> t" "t < 2 ^ 46"
  shows "\<exists>m e. hit_rate c t = F64 m e \<and> 0 \<le> f64_val (F64 m e) \<and> f64_val (F64 m e) \<le> 100 \<and>
    (0 < t \<longrightarrow> \<bar>f64_val (F64 m e) - 100 * real_of_int c / real_of_int t\<bar> \<le> 1 / 2 ^ 45)"
proof (cases "0 < c")
  case False
  then have "c = 0" using assms(1) by simp
  with hit_rate_zero[of t] assms obtain e where "hit_rate c t = F64 0 e" by auto
  with \<open>c = 0\<close> show ?thesis by (simp add: dyadic_def)
next
  case True
  define cn tn where "cn = nat c" and "tn = nat t"
  have ct: "c = int cn" "t = int tn" "0 < cn" "cn \<le> tn" "tn < 2 ^ 46" using True assms by (simp_all add: cn_def tn_def)
  have rate: "hit_rate c t = f64_div (F64 (100 * int cn) 0) (F64 (int tn) 0)"
    using ct by (simp add: hit_rate_def f64_of_i64_def f64_round_exact)
  obtain Q k s where d: "f64_div (F64 (100 * int cn) 0) (F64 (int tn) 0) = F64 (int Q) (int k - int s - 1)"
    and k: "k + 45 \<le> s" and b: "Q * 2 ^ k \<le> 100 * 2 ^ (s + 1)"
    and err: "\<bar>real (Q * 2 ^ k) - 2 ^ (s + 1) * (100 * real cn / real tn)\<bar> \<le> 2 ^ k / 2 + 1"
    by (rule percent_quotient[OF ct(3-5)])
  let ?v = "f64_val (F64 (int Q) (int k - int s - 1))"
  have "(2::real) powi (int k - int s - 1) * 2 ^ (s + 1) = 2 powi (int k - int s - 1) * 2 powi int (s + 1)"
    by (simp only: power_int_of_nat)
  also have "\<dots> = 2 powi (int k - int s - 1 + int (s + 1))" by (rule power_int_add[symmetric]) simp
  also have "\<dots> = 2 ^ k" by simp
  finally have pw: "(2::real) powi (int k - int s - 1) * 2 ^ (s + 1) = 2 ^ k" .
  have v: "?v * 2 ^ (s + 1) = real (Q * 2 ^ k)" by (simp only: f64_val.simps dyadic_def mult.assoc pw) simp
  have "real (Q * 2 ^ k) \<le> real (100 * 2 ^ (s + 1))" using b by (simp only: of_nat_le_iff)
  then have "?v * 2 ^ (s + 1) \<le> 100 * 2 ^ (s + 1)" unfolding v by simp
  then have "?v \<le> 100" by (simp only: mult_le_cancel_right) simp
  moreover have "0 \<le> ?v" by (simp add: dyadic_def)
  moreover have "\<bar>?v - 100 * real cn / real tn\<bar> \<le> 1 / 2 ^ 45"
  proof -
    have "s = (s - 45) + 45" using k by simp
    then have s45: "(2::real) ^ s = 2 ^ (s - 45) * 2 ^ 45" by (metis power_add)
    have "\<bar>?v - 100 * real cn / real tn\<bar> * 2 ^ (s + 1) = \<bar>?v * 2 ^ (s + 1) - 2 ^ (s + 1) * (100 * real cn / real tn)\<bar>"
      by (rule abs_diff_scale) simp
    also have "\<dots> \<le> 2 ^ k / 2 + 1" using err by (simp only: v)
    also have "\<dots> \<le> 2 * 2 ^ k" using one_le_power[of "2::real" k] by linarith
    also have "\<dots> \<le> 2 * 2 ^ (s - 45)" using k by simp
    also have "\<dots> = (1 / 2 ^ 45) * 2 ^ (s + 1)"
      using s45 by simp
    finally show ?thesis by (simp only: mult_le_cancel_right) simp
  qed
  ultimately show ?thesis using rate d ct by auto
qed

subsection \<open>The report\<close>

lemma percentile_sorted:
  assumes "xs \<noteq> []" and "length xs < 2 ^ 46"
  shows "percentile xs p50_literal = Some (xs ! (length xs div 2))"
    and "percentile xs p99_literal = Some (xs ! ((99 * (length xs - 1) + 50) div 100))"
proof -
  have n: "0 < length xs" "length xs < 2 ^ 53" "length xs - 1 < 2 ^ 53" "length xs - 1 < 2 ^ 46" using assms by simp_all
  have "(length xs - 1 + 1) div 2 = length xs div 2" "length xs div 2 < length xs" using n(1) by simp_all
  then show "percentile xs p50_literal = Some (xs ! (length xs div 2))"
    unfolding percentile_eq[OF assms(1) n(2)] percentile_index_50[OF n(3)] by (simp only: vec_get_in_range)
  have "(99 * (length xs - 1) + 50) div 100 < length xs" using n(1) by linarith
  then show "percentile xs p99_literal = Some (xs ! ((99 * (length xs - 1) + 50) div 100))"
    unfolding percentile_eq[OF assms(1) n(2)] percentile_index_99[OF n(4)] by (rule vec_get_in_range)
qed

lemma sum_list_word: "sum_list (map word_of_int xs) = (word_of_int (sum_list xs) :: 64 word)"
  by (induction xs) simp_all

lemma i64_sum_exact: "0 \<le> sum_list xs \<Longrightarrow> sum_list xs < 2 ^ 63 \<Longrightarrow> i64_sum xs = sum_list xs"
  unfolding i64_sum_def sum_list_word by (simp add: signed_of_int signed_take_bit_int_eq_self)

definition all_results :: "conv_outcome list \<Rightarrow> request_result list" where
  "all_results os = concat (map results os)"

text \<open>C21. The report is right. When every result has a proper latency and at most as many cached blocks
  as blocks, and there are fewer than 2^46 results and blocks, the report is produced without a
  panic; the latencies are sorted; P50 is the element of index \<open>n div 2\<close> and P99 the one whose
  index is \<open>0.99 (n - 1)\<close> rounded to the nearest integer, halves up, although the code computes it
  in floating point with a literal below 0.99; the sums do not wrap; and the hit rate is between 0
  and 100 and off by at most 2^-45 from the exact percentage.\<close>

theorem load_report_correct:
  fixes os
  defines "rs \<equiv> all_results os"
  assumes "F64_NaN \<notin> latency_ms ` set rs" and "\<forall>r\<in>set rs. 0 \<le> cached_blocks r \<and> cached_blocks r \<le> total_blocks r"
    and "length rs < 2 ^ 46" and "sum_list (map total_blocks rs) < 2 ^ 46"
  shows "\<exists>rep lat. load_report os = Some rep \<and>
    mset lat = mset (map latency_ms rs) \<and> sorted_wrt (\<lambda>x y. \<not> f64_gt x y) lat \<and>
    (rs \<noteq> [] \<longrightarrow> latency_p50 rep = lat ! (length rs div 2) \<and>
       latency_p99 rep = lat ! ((99 * (length rs - 1) + 50) div 100)) \<and>
    report_requests rep = length rs \<and> report_failed rep = length (filter failed os) \<and>
    report_cached rep = sum_list (map cached_blocks rs) \<and> report_total rep = sum_list (map total_blocks rs) \<and>
    0 \<le> f64_val (report_hit_rate rep) \<and> f64_val (report_hit_rate rep) \<le> 100 \<and>
    (0 < report_total rep \<longrightarrow>
       \<bar>f64_val (report_hit_rate rep) - 100 * real_of_int (report_cached rep) / real_of_int (report_total rep)\<bar> \<le> 1 / 2 ^ 45)"
proof -
  let ?c = "sum_list (map cached_blocks rs)" and ?t = "sum_list (map total_blocks rs)"
  have c: "0 \<le> ?c" "?c \<le> ?t"
    using assms(3) by (auto intro!: sum_list_nonneg sum_list_mono)
  then have hits: "hit_counts rs = (?c, ?t)" using assms(5) by (simp add: hit_counts_def i64_sum_exact)
  from f64_sort_correct[of "map latency_ms rs"] assms(2)
  obtain lat where lat: "f64_sort (map latency_ms rs) = Some lat" "mset lat = mset (map latency_ms rs)"
    "sorted_wrt (\<lambda>x y. \<not> f64_gt x y) lat" by auto
  have len: "length lat = length rs" using arg_cong[OF lat(2), of size] by simp
  obtain p50 p99 where p: "percentile lat p50_literal = Some p50" "percentile lat p99_literal = Some p99"
    "rs \<noteq> [] \<longrightarrow> p50 = lat ! (length rs div 2) \<and> p99 = lat ! ((99 * (length rs - 1) + 50) div 100)"
  proof (cases "rs = []")
    case True
    with len that[of f64_zero f64_zero] show thesis by (simp add: percentile_def)
  next
    case False
    with len assms(4) have "lat \<noteq> []" "length lat < 2 ^ 46" by auto
    from that[OF percentile_sorted[OF this]] len show thesis by simp
  qed
  from hit_rate_close[OF c assms(5)] obtain m e where rate: "hit_rate ?c ?t = F64 m e"
    "0 \<le> f64_val (F64 m e)" "f64_val (F64 m e) \<le> 100"
    "0 < ?t \<longrightarrow> \<bar>f64_val (F64 m e) - 100 * real_of_int ?c / real_of_int ?t\<bar> \<le> 1 / 2 ^ 45" by blast
  have "load_report os = Some \<lparr>report_requests = length rs, latency_p50 = p50, latency_p99 = p99,
      report_hit_rate = F64 m e, report_cached = ?c, report_total = ?t,
      report_failed = length (filter failed os), report_abandoned = length (filter failed os)\<rparr>"
    using hits lat(1) p(1,2) rate(1) by (simp add: load_report_def collect_outcomes_eq rs_def all_results_def)
  with lat(2,3) p(3) rate(2-4) show ?thesis
    by (intro exI[of _ lat] exI conjI) (assumption | simp)+
qed

definition demo_results :: "conv_outcome list" where
  "demo_results =
     [\<lparr>results = [\<lparr>latency_ms = F64 30 0, cached_blocks = 0, total_blocks = 4\<rparr>,
                  \<lparr>latency_ms = F64 10 0, cached_blocks = 4, total_blocks = 5\<rparr>], failed = False\<rparr>,
      \<lparr>results = [\<lparr>latency_ms = F64 20 0, cached_blocks = 0, total_blocks = 3\<rparr>], failed = True\<rparr>]"

theorem load_report_correct_witness:
  "\<exists>rep. load_report demo_results = Some rep \<and> report_requests rep = 3 \<and> report_failed rep = 1 \<and>
    report_cached rep = 4 \<and> report_total rep = 12 \<and>
    \<bar>f64_val (report_hit_rate rep) - 100 * 4 / 12\<bar> \<le> 1 / 2 ^ 45"
proof -
  have "F64_NaN \<notin> latency_ms ` set (all_results demo_results)"
    "\<forall>r\<in>set (all_results demo_results). 0 \<le> cached_blocks r \<and> cached_blocks r \<le> total_blocks r"
    "length (all_results demo_results) < 2 ^ 46" "sum_list (map total_blocks (all_results demo_results)) < 2 ^ 46"
    by (simp_all add: all_results_def demo_results_def)
  from load_report_correct[OF this] show ?thesis
    by (elim exE) (auto simp: all_results_def demo_results_def)
qed

end
