(* ===== verification/Bench.thy ===== *)
theory Bench
  imports Deployment Load_Report
begin

text \<open>
  The load generator in front of the deployment: what its tasks send, in the order in which the
  router serves them, and what the printed report says of the router's and the replicas' books.
\<close>

text \<open>The requests that the tasks send along a run, in the order of their answers.\<close>

fun sent_by :: "load_event \<Rightarrow> load_state \<Rightarrow> model_infer_request list" where
  "sent_by (Answer k secs res) s =
     (case conv_tasks s ! k of Replaying (turn # rest) acc f \<Rightarrow> [infer_request turn] | _ \<Rightarrow> [])"
| "sent_by e s = []"

fun sent_requests :: "load_event list \<Rightarrow> load_state \<Rightarrow> model_infer_request list" where
  "sent_requests [] s = []"
| "sent_requests (e # es) s =
     (case load_step e s of None \<Rightarrow> [] | Some s1 \<Rightarrow> sent_by e s @ sent_requests es s1)"

fun answer_in :: "load_event \<Rightarrow> (status + model_infer_response) list" where
  "answer_in (Answer k secs res) = [res]"
| "answer_in e = []"

definition given_answers :: "load_event list \<Rightarrow> (status + model_infer_response) list" where
  "given_answers es = concat (map answer_in es)"

subsection \<open>The results of the tasks are the answers given\<close>

fun task_results :: "conv_task \<Rightarrow> request_result list" where
  "task_results (Queued ts) = []"
| "task_results (Replaying ts acc f) = acc"
| "task_results (Returned o1) = results o1"

definition book :: "(request_result \<Rightarrow> int) \<Rightarrow> conv_task \<Rightarrow> u64" where
  "book f t = sum_list (map (\<lambda>r. word_of_int (f r)) (task_results t))"

definition books :: "(request_result \<Rightarrow> int) \<Rightarrow> load_state \<Rightarrow> u64" where
  "books f s = sum_list (map (book f) (conv_tasks s))"

text \<open>What an answer adds to a book in which a response counts \<open>g resp\<close>.\<close>

fun answer_adds :: "(model_infer_response \<Rightarrow> int) \<Rightarrow> (status + model_infer_response) \<Rightarrow> u64" where
  "answer_adds g (Inl st) = 0"
| "answer_adds g (Inr resp) = word_of_int (g resp)"

lemma conv_step_book:
  assumes "conv_step e (p, t) = Some (p', t')" and "\<And>secs resp. f (result_of secs resp) = g resp"
  shows "book f t' = book f t + sum_list (map (answer_adds g) (answer_in e))"
proof (rule conv_step_SomeE[OF assms(1)])
  fix k secs res turn rest acc b q
  assume "e = Answer k secs res" "(p, t) = (q, Replaying (turn # rest) acc b)" "(p', t') = (q, answered secs res rest acc)"
  with assms(2) show ?thesis by (cases res) (simp_all add: book_def)
qed (simp_all add: book_def)

lemma load_run_books:
  assumes "load_run es s = Some s'" and "\<And>secs resp. f (result_of secs resp) = g resp"
  shows "books f s' = books f s + sum_list (map (answer_adds g) (given_answers es))"
  using assms(1)
proof (induction es arbitrary: s)
  case (Cons e es)
  then obtain s1 where st: "load_step e s = Some s1" and run: "load_run es s1 = Some s'"
    by (auto simp: bind_eq_Some_conv)
  have "books f s1 = books f s + sum_list (map (answer_adds g) (answer_in e))"
  proof (rule load_step_Some[OF st])
    fix p t'
    assume k: "task_of e < length (conv_tasks s)" and c: "conv_step e (permits s, conv_tasks s ! task_of e) = Some (p, t')"
      and s1: "s1 = \<lparr>permits = p, conv_tasks = (conv_tasks s)[task_of e := t']\<rparr>"
    show ?thesis
      using sum_list_update_word[OF k, of "book f" t', OF conv_step_book[where f = f and g = g, OF c assms(2)]] by (simp add: books_def s1)
  qed
  with Cons.IH[OF run] show ?case by (simp add: given_answers_def)
qed (simp add: given_answers_def)

lemma joined_books:
  assumes "joined s = Some os"
  shows "books f s = sum_list (map word_of_int (map f (all_results os)))"
proof -
  have "sum_list (map (book f) (map Returned os)) = sum_list (map word_of_int (map f (all_results os)))"
    by (induction os) (simp_all add: book_def all_results_def comp_def)
  with assms show ?thesis by (simp add: books_def joined_Some)
qed

lemma books_new: "books f (load_new n convs) = 0"
  by (simp add: books_def load_new_def book_def comp_def sum_list_0)

lemma sent_requests_text: "list_all first_is_text (sent_requests es s)"
proof (induction es arbitrary: s)
  case (Cons e es)
  have "list_all first_is_text (sent_by e s)"
    by (cases "(e, s)" rule: sent_by.cases) (auto simp: first_is_text_infer_request split: conv_task.split list.split)
  with Cons.IH show ?case by (simp split: option.split)
qed simp

lemma client_book_adds: "client_book key rs = sum_list (map (answer_adds (\<lambda>resp. param_i64 resp key)) rs)"
  unfolding client_book_def by (rule arg_cong[of _ _ sum_list], rule map_cong) (auto split: sum.split)

lemma answered_count:
  "sum_list (map (answer_adds (\<lambda>_. 1)) rs) = word_of_nat (length (filter (\<lambda>res. \<not> isl res) rs))"
proof (induction rs)
  case (Cons res rs)
  then show ?case by (cases res) simp_all
qed simp


definition one_conv :: "conversation list" where
  "one_conv = [\<lparr>conv_id = ''x'', turns = [replicate 40 CHR ''a'']\<rparr>]"

definition one_request :: "status + model_infer_response \<Rightarrow> load_event list" where
  "one_request res = [Acquire 0, Answer 0 (F64 1 0) res, Return 0]"

lemma one_request_run:
  "\<exists>s os rep. load_run (one_request res) (load_new 1 one_conv) = Some s \<and> joined s = Some os \<and> load_report os = Some rep"
proof -
  define o1 where "o1 = (case res of Inl st \<Rightarrow> \<lparr>results = [], failed = True\<rparr>
    | Inr resp \<Rightarrow> \<lparr>results = [result_of (F64 1 0) resp], failed = False\<rparr>)"
  have "load_run (one_request res) (load_new 1 one_conv) = Some \<lparr>permits = 1, conv_tasks = [Returned o1]\<rparr>"
    by (cases res) (simp_all add: one_request_def one_conv_def load_new_def load_step_def vec_get_def o1_def)
  moreover have "joined \<lparr>permits = 1, conv_tasks = [Returned o1]\<rparr> = Some [o1]" by (simp add: joined_def)
  moreover have "\<exists>rep. load_report [o1] = Some rep"
  proof (cases res)
    case (Inl st)
    then show ?thesis by (simp add: o1_def load_report_def hit_counts_def f64_sort_def percentile_def)
  next
    case (Inr resp)
    let ?lat = "[latency_ms (result_of (F64 1 0) resp)]"
    have "percentile ?lat p50_literal = Some (?lat ! 0)" "percentile ?lat p99_literal = Some (?lat ! 0)"
      using percentile_sorted[of ?lat] by simp_all
    with Inr show ?thesis by (simp add: o1_def load_report_def hit_counts_def f64_sort_def)
  qed
  ultimately show ?thesis by blast
qed

lemma one_request_sent: "sent_requests (one_request res) (load_new 1 one_conv) = [infer_request (replicate 40 CHR ''a'')]"
  by (cases res) (simp_all add: one_request_def one_conv_def load_new_def load_step_def vec_get_def)


subsection \<open>Types\<close>



end
