(* ===== verification/Conversations.thy ===== *)
theory Conversations
  imports Deployment
begin

text \<open>
  What the router is for: the turns of a conversation find their history in a cache. Requests are
  served one after the other through the router and the mock replicas, from the start of the
  system. A block that a prompt brought into a cache stays there until the budget is used up by
  the blocks of later prompts, and the prompt that needs it is sent to a replica that holds at
  least as many of its leading blocks.
\<close>

subsection \<open>A quiet system\<close>

text \<open>Between two requests every replica is in routing and idle; \<open>n\<close> is what the counters have left.\<close>

definition quiet :: "scheduler_config \<Rightarrow> nat \<Rightarrow> router_inner \<Rightarrow> mock_service list \<Rightarrow> bool" where
  "quiet c n r ms =
     (system_inv r ms \<and> default_weights (sched r) \<and> cfg (sched r) = c \<and> replicas (sched r) \<noteq> [] \<and>
      (\<forall>rep\<in>set (replicas (sched r)). healthy rep \<and> inflight rep = 0) \<and> sched_room n (sched r))"

text \<open>Some replica's picture has all of \<open>hs\<close> among its \<open>k\<close> most protected blocks.\<close>

definition keeps :: "scheduler \<Rightarrow> u64 list \<Rightarrow> nat \<Rightarrow> bool" where
  "keeps s hs k = (\<exists>i<length (replicas s). set hs \<subseteq> set (take k (recency (cache (replicas s ! i)))))"

definition prompt_blocks :: "(string \<Rightarrow> string + u32 list) \<Rightarrow> string \<Rightarrow> nat" where
  "prompt_blocks encode p = (case encode p of Inl e \<Rightarrow> 0 | Inr ids \<Rightarrow> length (block_hashes ids))"

lemma quiet_mono: "quiet c n r ms \<Longrightarrow> m \<le> n \<Longrightarrow> quiet c m r ms"
  using sched_room_mono by (auto simp: quiet_def)

lemma quiet_new:
  assumes "default_weights (scheduler_new k CacheAware c)" and "0 < k" and "cache_blocks mc = block_budget c"
    and "system_new k c mc = (r, ms)" and "n < 2 ^ 64"
  shows "quiet c n r ms"
proof -
  have "0 < min_match_blocks c" using assms(1) by (simp add: default_weights_def scheduler_new_def)
  from system_inv_new[OF this assms(3,4)] have "system_inv r ms" .
  moreover have "sched r = scheduler_new k CacheAware c" using assms(4) by (auto simp: system_new_def router_inner_new_def)
  ultimately show ?thesis
    using assms(1,2) sched_room_new[OF assms(5)] by (simp add: quiet_def) (auto simp: scheduler_new_def new_replica_def)
qed

subsection \<open>One request\<close>

text \<open>On an idle fleet a choice above the threshold has the most leading blocks.\<close>

lemma quiet_choice:
  assumes q: "quiet c n r ms" and cap: "0 < max_inflight c" and len: "length hs < 2 ^ 51"
  shows "\<exists>i m. decides (sched r) hs i m \<and>
    (\<forall>j<length (replicas (sched r)). min_match_blocks c \<le> lookup (cache (replicas (sched r) ! j)) hs \<longrightarrow>
       lookup (cache (replicas (sched r) ! j)) hs \<le> m)"
proof -
  let ?s = "sched r"
  have w: "default_weights ?s" and c: "cfg ?s = c" and ne: "replicas ?s \<noteq> []"
    and idle: "healthy (replicas ?s ! j)" "inflight (replicas ?s ! j) = 0" if "j < length (replicas ?s)" for j
    using q that by (auto simp: quiet_def)
  have av: "available c (replicas ?s ! j)" if "j < length (replicas ?s)" for j
    using idle[OF that] cap by (simp add: available_def)
  have first: "replicas ?s ! 0 \<in> set (replicas ?s)" "available (cfg ?s) (replicas ?s ! 0)"
    using q av[of 0] by (auto simp: quiet_def)
  from decides_exists[OF this] obtain i m where d: "decides ?s hs i m" by blast
  from q have w: "default_weights ?s" and c: "cfg ?s = c" by (simp_all add: quiet_def)
  from default_choice[OF w len pick_decides[OF d]] obtain b where b: "first_best ?s hs b" "b < length (replicas ?s)"
    "if min_match_blocks c \<le> lookup (cache (replicas ?s ! b)) hs
     then i = b \<and> m = lookup (cache (replicas ?s ! b)) hs
     else least_loaded ?s i \<and> m = lookup (cache (replicas ?s ! i)) hs" by (auto simp: c split: if_splits)
  have "lookup (cache (replicas ?s ! j)) hs \<le> lookup (cache (replicas ?s ! b)) hs" if "j < length (replicas ?s)" for j
    using b(1) that av[OF that] idle(2)[OF that] idle(2)[OF b(2)] by (auto simp: first_best_def net_matches_def c)
  with b(3) d show ?thesis by (intro exI[of _ i] exI[of _ m]) (auto split: if_splits intro: order_trans)
qed

text \<open>A request leaves the system quiet, its own chain in front, and what was there a little further back.\<close>

lemma keeps_routed:
  assumes "quiet c (Suc (length hs) + n) r ms" and i: "i < length (replicas (sched r))"
    and s2: "replicas s2 = (replicas (sched r))[i := (routed (sched r) hs (replicas (sched r) ! i))\<lparr>inflight := 0\<rparr>]"
  shows "length hs \<le> block_budget c \<Longrightarrow> keeps s2 hs (length hs)"
    and "keeps (sched r) gs k \<Longrightarrow> k + length hs \<le> block_budget c \<Longrightarrow> keeps s2 gs (k + length hs)"
proof -
  let ?rs = "replicas (sched r)"
  have "policy (sched r) = CacheAware" "cfg (sched r) = c" using assms(1) by (simp_all add: quiet_def default_weights_def)
  moreover note sched_room_nth[of "Suc (length hs) + n" "sched r" i]
  ultimately have new: "recency (cache (replicas s2 ! i)) = lru_admit (block_budget c) hs (recency (cache (?rs ! i)))"
    using assms(1) i kv_below_step(1)[of "cache (?rs ! i)" hs n "block_budget c"]
    by (simp add: s2 routed_def quiet_def)
  show "keeps s2 hs (length hs)" if "length hs \<le> block_budget c"
    unfolding keeps_def using i lru_admit_front[OF that] new by (intro exI[of _ i]) (simp add: s2)
  assume keep: "keeps (sched r) gs k" and fits: "k + length hs \<le> block_budget c"
  then obtain j where j: "j < length ?rs" "set gs \<subseteq> set (take k (recency (cache (?rs ! j))))"
    by (auto simp: keeps_def)
  show "keeps s2 gs (k + length hs)"
  proof (cases "j = i")
    case True
    with lru_admit_moves_back[OF j(2) fits] j(1) new show ?thesis
      unfolding keeps_def by (intro exI[of _ i]) (simp add: s2)
  next
    case False
    have "set (take k (recency (cache (?rs ! j)))) \<subseteq> set (take (k + length hs) (recency (cache (?rs ! j))))"
      by (rule set_take_subset_set_take) simp
    with False j show ?thesis unfolding keeps_def by (intro exI[of _ j]) (auto simp: s2)
  qed
qed

lemma keeps_hit:
  assumes "keeps s gs k" and "take t hs = take t gs" and "t \<le> length hs"
  shows "\<exists>j<length (replicas s). t \<le> lookup (cache (replicas s ! j)) hs"
proof -
  from assms(1) obtain j where j: "j < length (replicas s)" "set gs \<subseteq> set (take k (recency (cache (replicas s ! j))))"
    by (auto simp: keeps_def)
  have "\<forall>h\<in>set (take t hs). h \<in> set (recency (cache (replicas s ! j)))"
    using j(2) assms(2) by (metis in_set_takeD subsetD)
  then have "t \<le> lru_hits hs (recency (cache (replicas s ! j)))"
    using takeWhile_append2[of "take t hs" "\<lambda>h. h \<in> set (recency (cache (replicas s ! j)))" "drop t hs"] assms(3)
    by (simp add: lru_hits_def)
  with j(1) show ?thesis by (auto simp: lookup_recency)
qed

lemma infer_request_hashes:
  assumes "utf8_valid p"
  shows "request_hashes (tokenize encode) (infer_request p) =
    (case encode p of Inl e \<Rightarrow> Inl (status_of InvalidArgument (''tokenize: '' @ e)) | Inr ids \<Rightarrow> Inr (block_hashes ids))"
  using assms by (simp add: request_hashes_def extract_infer_request from_utf8_def hash_prompt_def tokenize_def split: sum.splits)

lemma quiet_request:
  assumes q: "quiet c (Suc (prompt_blocks encode p) + n) r ms" and cap: "0 < max_inflight c"
    and p: "utf8_valid p" "prompt_blocks encode p < 2 ^ 51"
  obtains r' ms' res where
    "model_infer_attempts (tokenize encode) code_text (mock_upstream encode) (infer_request p) (r, ms) = Some ((r', ms'), res)"
    "quiet c n r' ms'"
    "\<And>gs k. keeps (sched r) gs k \<Longrightarrow> k + prompt_blocks encode p \<le> block_budget c \<Longrightarrow>
      keeps (sched r') gs (k + prompt_blocks encode p)"
    "\<And>ids. encode p = Inr ids \<Longrightarrow> \<exists>m. res = Inr (make_response (infer_request p) m (length (block_hashes ids)) ''mock-completion'') \<and>
      m \<le> length (block_hashes ids) \<and>
      (length (block_hashes ids) \<le> block_budget c \<longrightarrow> keeps (sched r') (block_hashes ids) (length (block_hashes ids))) \<and>
      (\<forall>j<length (replicas (sched r)). min_match_blocks c \<le> lookup (cache (replicas (sched r) ! j)) (block_hashes ids) \<longrightarrow>
         lookup (cache (replicas (sched r) ! j)) (block_hashes ids) \<le> m)"
proof (cases "encode p")
  case (Inl e)
  then have "prompt_blocks encode p = 0" by (simp add: prompt_blocks_def)
  with Inl that[of r ms] quiet_mono[OF q, of n] show thesis
    by (simp add: model_infer_attempts_hashes infer_request_hashes[OF p(1)])
next
  case (Inr ids)
  define hs where "hs = block_hashes ids"
  have pb: "prompt_blocks encode p = length hs" by (simp add: prompt_blocks_def Inr hs_def)
  have h: "request_hashes (tokenize encode) (infer_request p) = Inr hs"
    by (simp add: infer_request_hashes[OF p(1)] Inr hs_def)
  from q have inv: "system_inv r ms" by (simp add: quiet_def)
  then have ri: "router_inv r" by (simp add: system_inv_def)
  from quiet_choice[OF q cap, of hs] p(2) pb obtain i m where d: "decides (sched r) hs i m"
    and best: "\<forall>j<length (replicas (sched r)). min_match_blocks c \<le> lookup (cache (replicas (sched r) ! j)) hs \<longrightarrow>
      lookup (cache (replicas (sched r) ! j)) hs \<le> m" by auto
  from system_picked[OF inv first_is_text_infer_request h d pick_replica_decides[OF ri d], of code_text] obtain r' ms' s1 where
    run: "model_infer_attempts (tokenize encode) code_text (mock_upstream encode) (infer_request p) (r, ms) =
      Some ((r', ms'), Inr (make_response (infer_request p) m (length hs) ''mock-completion''))"
    and inv': "system_inv r' ms'" and s1: "pick (sched r) hs = Some (s1, Inr (picked_decision r i m))"
    and s2: "complete s1 i = Some (sched r')" by blast
  note after = pick_then_complete[of "sched r" hs s1 "picked_decision r i m" "sched r'", OF s1, simplified, OF s2]
  have w: "default_weights (sched r)" "cfg (sched r) = c" and idle: "\<forall>rep\<in>set (replicas (sched r)). healthy rep \<and> inflight rep = 0"
    and room: "sched_room (Suc (length hs) + n) (sched r)" using q by (simp_all add: quiet_def pb)
  have reps: "replicas (sched r') = (replicas (sched r))[i := (routed (sched r) hs (replicas (sched r) ! i))\<lparr>inflight := 0\<rparr>]"
    using after(1,4-6) idle by (intro nth_equalityI) (auto simp: nth_list_update)
  have "sched_room n (sched r')"
    by (rule sched_run_room[of "[Pick hs, Complete i]" n "sched r"]) (use room s1 s2 in \<open>simp_all add: sched_run_cost_def\<close>)
  moreover have "\<forall>rep\<in>set (replicas (sched r')). healthy rep \<and> inflight rep = 0"
    using idle after(5) set_update_subset_insert[of "replicas (sched r)" i] unfolding reps
    by (fastforce simp: routed_def)
  ultimately have "quiet c n r' ms'"
    using inv' w after(1-3,5) by (auto simp: quiet_def default_weights_def)
  moreover have "m \<le> length hs"
    using cache_aware_matched[OF _ _ d] w lookup_le[of "cache (replicas (sched r) ! i)" hs] by (simp add: default_weights_def)
  moreover note keeps_routed[OF q[unfolded pb] after(5) reps]
  ultimately show thesis using that[OF run] best Inr by (simp add: pb flip: hs_def) blast
qed

lemma quiet_served:
  assumes q: "quiet c (Suc (prompt_blocks encode p) + n) r ms" and cap: "0 < max_inflight c"
    and p: "utf8_valid p" "prompt_blocks encode p < 2 ^ 51" and ids: "encode p = Inr ids"
  shows "\<exists>r' ms' m. model_infer_attempts (tokenize encode) code_text (mock_upstream encode) (infer_request p) (r, ms) =
      Some ((r', ms'), Inr (make_response (infer_request p) m (prompt_blocks encode p) ''mock-completion'')) \<and>
    quiet c n r' ms' \<and> m \<le> prompt_blocks encode p \<and>
    (prompt_blocks encode p \<le> block_budget c \<longrightarrow> keeps (sched r') (block_hashes ids) (prompt_blocks encode p)) \<and>
    (\<forall>j<length (replicas (sched r)). min_match_blocks c \<le> lookup (cache (replicas (sched r) ! j)) (block_hashes ids) \<longrightarrow>
       lookup (cache (replicas (sched r) ! j)) (block_hashes ids) \<le> m)"
proof (rule quiet_request[OF q cap p, of code_text])
  have b: "prompt_blocks encode p = length (block_hashes ids)" by (simp add: prompt_blocks_def ids)
  fix r' ms' res
  assume "model_infer_attempts (tokenize encode) code_text (mock_upstream encode) (infer_request p) (r, ms) = Some ((r', ms'), res)"
    and "quiet c n r' ms'"
    and "\<And>ids. encode p = Inr ids \<Longrightarrow> \<exists>m. res = Inr (make_response (infer_request p) m (length (block_hashes ids)) ''mock-completion'') \<and>
      m \<le> length (block_hashes ids) \<and>
      (length (block_hashes ids) \<le> block_budget c \<longrightarrow> keeps (sched r') (block_hashes ids) (length (block_hashes ids))) \<and>
      (\<forall>j<length (replicas (sched r)). min_match_blocks c \<le> lookup (cache (replicas (sched r) ! j)) (block_hashes ids) \<longrightarrow>
         lookup (cache (replicas (sched r) ! j)) (block_hashes ids) \<le> m)"
  note this(1,2) this(3)[OF ids]
  then show ?thesis unfolding b by blast
qed

lemma quiet_run:
  assumes "quiet c (sum_list (map (\<lambda>p. Suc (prompt_blocks encode p)) ps) + n) r ms" and "0 < max_inflight c"
    and "list_all utf8_valid ps" and "\<forall>p\<in>set ps. prompt_blocks encode p < 2 ^ 51"
  shows "\<exists>r' ms' rs. system_run encode code_text (map infer_request ps) (r, ms) = Some ((r', ms'), rs) \<and>
    length rs = length ps \<and> quiet c n r' ms' \<and>
    (\<forall>gs k. keeps (sched r) gs k \<longrightarrow> k + sum_list (map (prompt_blocks encode) ps) \<le> block_budget c \<longrightarrow>
       keeps (sched r') gs (k + sum_list (map (prompt_blocks encode) ps)))"
  using assms
proof (induction ps arbitrary: r ms)
  case (Cons p ps)
  have "quiet c (Suc (prompt_blocks encode p) + (sum_list (map (\<lambda>p. Suc (prompt_blocks encode p)) ps) + n)) r ms"
    using Cons.prems(1) by (simp add: add.assoc)
  then show ?case
  proof (rule quiet_request[where code_text = code_text])
    show "0 < max_inflight c" "utf8_valid p" "prompt_blocks encode p < 2 ^ 51" using Cons.prems by simp_all
    fix r1 ms1 res
    assume s1: "model_infer_attempts (tokenize encode) code_text (mock_upstream encode) (infer_request p) (r, ms) = Some ((r1, ms1), res)"
      and q1: "quiet c (sum_list (map (\<lambda>p. Suc (prompt_blocks encode p)) ps) + n) r1 ms1"
      and keep: "\<And>gs k. keeps (sched r) gs k \<Longrightarrow> k + prompt_blocks encode p \<le> block_budget c \<Longrightarrow>
        keeps (sched r1) gs (k + prompt_blocks encode p)"
    from Cons.IH[OF q1] Cons.prems s1 obtain r' ms' rs where
      "system_run encode code_text (map infer_request ps) (r1, ms1) = Some ((r', ms'), rs)" "length rs = length ps" "quiet c n r' ms'"
      "\<forall>gs k. keeps (sched r1) gs k \<longrightarrow> k + sum_list (map (prompt_blocks encode) ps) \<le> block_budget c \<longrightarrow>
         keeps (sched r') gs (k + sum_list (map (prompt_blocks encode) ps))" by auto
    with s1 keep show ?thesis by (auto simp: add.assoc[symmetric])
  qed
qed simp

subsection \<open>The turns of a conversation\<close>

lemma cost_bound:
  "p \<in> set ps \<Longrightarrow> prompt_blocks encode p < sum_list (map (\<lambda>p. Suc (prompt_blocks encode p)) ps)"
  by (induction ps) (auto simp: less_Suc_eq_le)

lemma system_run_append:
  "system_run encode code_text (us @ vs) x = do {
     (y, rs) \<leftarrow> system_run encode code_text us x;
     (z, ss) \<leftarrow> system_run encode code_text vs y;
     Some (z, rs @ ss)
   }"
  by (induction us arbitrary: x) (auto simp: bind_assoc option.case_distrib split: prod.splits option.splits Option.bind_splits)

lemma reuse_from_quiet:
  assumes start: "quiet c (sum_list (map (\<lambda>p. Suc (prompt_blocks encode p)) (us @ p # vs @ q # ws))) r0 ms0"
    and weights: "0 < max_inflight c"
    and valid: "list_all utf8_valid (us @ p # vs @ q # ws)"
    and short: "sum_list (map (\<lambda>p. Suc (prompt_blocks encode p)) (us @ p # vs @ q # ws)) < 2 ^ 51"
    and shared: "encode p = Inr a" "encode q = Inr b" "take t a = take t b" "t \<le> length b"
    and warm: "min_match_blocks c \<le> t div BLOCK_SIZE"
    and distance: "prompt_blocks encode p + sum_list (map (prompt_blocks encode) vs) \<le> block_budget c"
  shows "\<exists>x rs resp. system_run encode code_text (map infer_request (us @ p # vs @ q # ws)) (r0, ms0) = Some (x, rs) \<and>
    rs ! (length us + Suc (length vs)) = Inr resp \<and> int (t div BLOCK_SIZE) \<le> param_i64 resp ''cached_blocks'' \<and>
    param_i64 resp ''total_blocks'' = int (prompt_blocks encode q)"
proof -
  define cost where "cost ps = sum_list (map (\<lambda>p. Suc (prompt_blocks encode p)) ps)" for ps
  let ?B = "prompt_blocks encode"
  have "\<forall>y\<in>set (us @ p # vs @ q # ws). ?B y < 2 ^ 51"
    using cost_bound[of _ "us @ p # vs @ q # ws" encode] short by (blast intro: less_trans)
  then have small: "\<forall>y\<in>set us. ?B y < 2 ^ 51" "?B p < 2 ^ 51" "\<forall>y\<in>set vs. ?B y < 2 ^ 51" "?B q < 2 ^ 51"
      "\<forall>y\<in>set ws. ?B y < 2 ^ 51"
    by simp_all
  have v: "list_all utf8_valid us" "utf8_valid p" "list_all utf8_valid vs" "utf8_valid q" "list_all utf8_valid ws"
    using valid by simp_all
  have ab: "?B p = length (block_hashes a)" "?B q = length (block_hashes b)"
    using shared by (simp_all add: prompt_blocks_def)
  have q0: "quiet c (cost us + (Suc (?B p) + (cost vs + (Suc (?B q) + (cost ws + 0))))) r0 ms0"
    using start by (simp add: cost_def add_ac)
  from quiet_run[OF q0[unfolded cost_def] weights v(1) small(1), of code_text] obtain r1 ms1 rs1 where
    s1: "system_run encode code_text (map infer_request us) (r0, ms0) = Some ((r1, ms1), rs1)" "length rs1 = length us"
    and q1: "quiet c (Suc (?B p) + (cost vs + (Suc (?B q) + (cost ws + 0)))) r1 ms1" unfolding cost_def by blast
  from quiet_served[OF q1 weights v(2) small(2) shared(1), of code_text] obtain r2 ms2 res2 where
    s2: "model_infer_attempts (tokenize encode) code_text (mock_upstream encode) (infer_request p) (r1, ms1) = Some ((r2, ms2), res2)"
    and q2: "quiet c (cost vs + (Suc (?B q) + (cost ws + 0))) r2 ms2"
    and k2: "?B p \<le> block_budget c \<longrightarrow> keeps (sched r2) (block_hashes a) (?B p)" by blast
  from k2 distance have k2': "keeps (sched r2) (block_hashes a) (?B p)" by simp
  from quiet_run[OF q2[unfolded cost_def] weights v(3) small(3), of code_text] k2' distance obtain r3 ms3 rs3 where
    s3: "system_run encode code_text (map infer_request vs) (r2, ms2) = Some ((r3, ms3), rs3)" "length rs3 = length vs"
    and q3: "quiet c (Suc (?B q) + (cost ws + 0)) r3 ms3"
    and k3: "keeps (sched r3) (block_hashes a) (?B p + sum_list (map ?B vs))" unfolding cost_def by blast
  have "take (t div BLOCK_SIZE) (block_hashes b) = take (t div BLOCK_SIZE) (block_hashes a)"
    using shared_prefix_hashes[OF shared(3)] by simp
  from keeps_hit[OF k3 this] shared(4) obtain j where
    j: "j < length (replicas (sched r3))" "t div BLOCK_SIZE \<le> lookup (cache (replicas (sched r3) ! j)) (block_hashes b)"
    by (auto simp: length_block_hashes div_le_mono)
  from quiet_served[OF q3 weights v(4) small(4) shared(2), of code_text] obtain r4 ms4 m where
    s4: "model_infer_attempts (tokenize encode) code_text (mock_upstream encode) (infer_request q) (r3, ms3) =
      Some ((r4, ms4), Inr (make_response (infer_request q) m (?B q) ''mock-completion''))"
    and q4: "quiet c (cost ws + 0) r4 ms4" and m: "m \<le> ?B q"
      "\<forall>j<length (replicas (sched r3)). min_match_blocks c \<le> lookup (cache (replicas (sched r3) ! j)) (block_hashes b) \<longrightarrow>
        lookup (cache (replicas (sched r3) ! j)) (block_hashes b) \<le> m" by blast
  from quiet_run[OF q4[unfolded cost_def] weights v(5) small(5), of code_text] obtain x rs5 where
    s5: "system_run encode code_text (map infer_request ws) (r4, ms4) = Some (x, rs5)" by blast
  let ?resp = "make_response (infer_request q) m (?B q) ''mock-completion''"
  have run: "system_run encode code_text (map infer_request (us @ p # vs @ q # ws)) (r0, ms0) =
      Some (x, rs1 @ res2 # rs3 @ Inr ?resp # rs5)"
    using s1 s2 s3 s4 s5 by (simp add: system_run_append)
  have "t div BLOCK_SIZE \<le> m" using j m(2) warm by (meson order_trans)
  moreover have "m < 2 ^ 63" "?B q < 2 ^ 63" using m(1) small(4) by simp_all
  moreover have "(rs1 @ res2 # rs3 @ Inr ?resp # rs5) ! (length us + Suc (length vs)) = Inr ?resp"
    using s1(2) s3(2) by (simp add: nth_append)
  ultimately show ?thesis using run by (auto simp: param_make_response as_i64_small)
qed



end
