(* ===== verification/Telemetry.thy ===== *)
theory Telemetry
  imports F64_Round
begin

text \<open>
  \<open>router/src/telemetry.rs\<close>, and the metrics of \<open>mock-triton/src/service.rs\<close>: which metrics exist, how
  they are registered, and which tracing layers are installed. The prometheus crate is a parameter:
  \<open>accepts\<close> says whether a constructor accepts a description, \<open>reg\<close> is \<open>Registry::register\<close> on the
  crate's own registry state. The OTLP exporter is the parameter \<open>build\<close>.
\<close>

subsection \<open>Metrics\<close>

datatype metric_kind = IntCounter | IntGauge | IntGaugeVec "string list" | Histogram "f64 list"

record metric =
  metric_name :: string
  metric_help :: string
  metric_kind :: metric_kind

definition overhead_buckets :: "f64 list" where
  "overhead_buckets =
     [f64_decimal 5 5, f64_decimal 1 4, f64_decimal 25 5, f64_decimal 5 4, f64_decimal 1 3, f64_decimal 25 4,
      f64_decimal 5 3, f64_decimal 8 3, f64_decimal 1 2, f64_decimal 25 3]"

definition router_metrics :: "metric list" where
  "router_metrics =
     [\<lparr>metric_name = ''router_requests_total'', metric_help = ''requests routed'', metric_kind = IntCounter\<rparr>,
      \<lparr>metric_name = ''router_routing_overhead_seconds'', metric_help = ''route decision time'', metric_kind = Histogram overhead_buckets\<rparr>,
      \<lparr>metric_name = ''router_matched_blocks_total'', metric_help = ''predicted cache-hit blocks'', metric_kind = IntCounter\<rparr>,
      \<lparr>metric_name = ''router_prompt_blocks_total'', metric_help = ''total prompt blocks'', metric_kind = IntCounter\<rparr>,
      \<lparr>metric_name = ''router_replica_inflight'', metric_help = ''inflight per replica'', metric_kind = IntGaugeVec [''replica'']\<rparr>,
      \<lparr>metric_name = ''router_healthy_replicas'', metric_help = ''healthy replica count'', metric_kind = IntGauge\<rparr>]"

definition mock_metrics :: "metric list" where
  "mock_metrics =
     [\<lparr>metric_name = ''replica_cached_blocks_total'', metric_help = ''blocks served from KV cache'', metric_kind = IntCounter\<rparr>,
      \<lparr>metric_name = ''replica_total_blocks_total'', metric_help = ''total prompt blocks seen'', metric_kind = IntCounter\<rparr>]"

text \<open>The registration loop; \<open>unwrap\<close> panics on an error.\<close>

fun register_all :: "('r \<Rightarrow> metric \<Rightarrow> 'r option) \<Rightarrow> metric list \<Rightarrow> 'r \<Rightarrow> 'r panics" where
  "register_all reg [] r = Some r"
| "register_all reg (m # ms) r = Option.bind (reg r m) (register_all reg ms)"

text \<open>\<open>Metrics::new\<close> and \<open>MockMetrics::new\<close>: construct all, then register all.\<close>

definition metrics_new :: "(metric \<Rightarrow> bool) \<Rightarrow> ('r \<Rightarrow> metric \<Rightarrow> 'r option) \<Rightarrow> 'r \<Rightarrow> 'r panics" where
  "metrics_new accepts reg r = (if list_all accepts router_metrics then register_all reg router_metrics r else None)"

definition mock_metrics_new :: "(metric \<Rightarrow> bool) \<Rightarrow> ('r \<Rightarrow> metric \<Rightarrow> 'r option) \<Rightarrow> 'r \<Rightarrow> 'r panics" where
  "mock_metrics_new accepts reg r = (if list_all accepts mock_metrics then register_all reg mock_metrics r else None)"

subsection \<open>What the prometheus crate documents\<close>

text \<open>
  A constructor takes a name of letters, digits, underscores and colons that does not start with a
  digit, a help text that is not empty, label names of the same form without colons, and buckets
  that strictly increase. A registry takes a metric whose name it does not hold yet.
\<close>

definition name_chars :: string where
  "name_chars = ''abcdefghijklmnopqrstuvwxyzABCDEFGHIJKLMNOPQRSTUVWXYZ_''"

definition valid_name :: "string \<Rightarrow> bool" where
  "valid_name s = (s \<noteq> [] \<and> hd s \<in> set (CHR '':'' # name_chars) \<and> set s \<subseteq> set (''0123456789:'' @ name_chars))"

definition valid_label :: "string \<Rightarrow> bool" where
  "valid_label s = (s \<noteq> [] \<and> hd s \<in> set name_chars \<and> set s \<subseteq> set (''0123456789'' @ name_chars))"

fun valid_kind :: "metric_kind \<Rightarrow> bool" where
  "valid_kind (IntGaugeVec labels) = (list_all valid_label labels \<and> distinct labels)"
| "valid_kind (Histogram buckets) = sorted_wrt (\<lambda>x y. f64_gt y x) buckets"
| "valid_kind k = True"

definition valid_metric :: "metric \<Rightarrow> bool" where
  "valid_metric m = (valid_name (metric_name m) \<and> metric_help m \<noteq> [] \<and> valid_kind (metric_kind m))"

definition registers_new_names :: "('r \<Rightarrow> metric \<Rightarrow> 'r option) \<Rightarrow> ('r \<Rightarrow> string list) \<Rightarrow> bool" where
  "registers_new_names reg names =
     (\<forall>r m. metric_name m \<notin> set (names r) \<longrightarrow> (\<exists>r'. reg r m = Some r' \<and> names r' = names r @ [metric_name m]))"

lemma register_all_ok:
  assumes "registers_new_names reg names" and "distinct (map metric_name ms)" and "set (map metric_name ms) \<inter> set (names r) = {}"
  shows "\<exists>r'. register_all reg ms r = Some r' \<and> names r' = names r @ map metric_name ms"
  using assms(2,3)
proof (induction ms arbitrary: r)
  case (Cons m ms)
  have "metric_name m \<notin> set (names r)" using Cons.prems by auto
  with assms(1) obtain r1 where r1: "reg r m = Some r1" "names r1 = names r @ [metric_name m]"
    unfolding registers_new_names_def by blast
  with Cons.prems have "set (map metric_name ms) \<inter> set (names r1) = {}" by auto
  with Cons.IH[of r1] Cons.prems r1 show ?case by auto
qed simp

subsection \<open>The descriptions are valid\<close>

lemma decimal_5_5: "f64_decimal 5 5 = F64 7378697629483821 (- 67)"
  using f64_decimal_value[of 5 3 5 17 69 59029581035870565 56 7378697629483821]
    floorlog_between[of 2 5] floorlog_between[of 16 "10 ^ 5"] floorlog_between[of 55 59029581035870565]
  by (simp add: rne_def)

lemma decimal_1_4: "f64_decimal 1 4 = F64 7378697629483821 (- 66)"
  using f64_decimal_value[of 1 1 4 14 68 59029581035870565 56 7378697629483821]
    floorlog_between[of 0 1] floorlog_between[of 13 "10 ^ 4"] floorlog_between[of 55 59029581035870565]
  by (simp add: rne_def)

lemma decimal_25_5: "f64_decimal 25 5 = F64 4611686018427388 (- 64)"
  using f64_decimal_value[of 25 5 5 17 67 73786976294838207 57 4611686018427388]
    floorlog_between[of 4 25] floorlog_between[of 16 "10 ^ 5"] floorlog_between[of 56 73786976294838207]
  by (simp add: rne_def)

lemma decimal_5_4: "f64_decimal 5 4 = F64 4611686018427388 (- 63)"
  using f64_decimal_value[of 5 3 4 14 66 73786976294838207 57 4611686018427388]
    floorlog_between[of 2 5] floorlog_between[of 13 "10 ^ 4"] floorlog_between[of 56 73786976294838207]
  by (simp add: rne_def)

lemma decimal_1_3: "f64_decimal 1 3 = F64 4611686018427388 (- 62)"
  using f64_decimal_value[of 1 1 3 10 64 36893488147419103 56 4611686018427388]
    floorlog_between[of 0 1] floorlog_between[of 9 "10 ^ 3"] floorlog_between[of 55 36893488147419103]
  by (simp add: rne_def)

lemma decimal_25_4: "f64_decimal 25 4 = F64 5764607523034235 (- 61)"
  using f64_decimal_value[of 25 5 4 14 64 92233720368547759 57 5764607523034235]
    floorlog_between[of 4 25] floorlog_between[of 13 "10 ^ 4"] floorlog_between[of 56 92233720368547759]
  by (simp add: rne_def)

lemma decimal_5_3: "f64_decimal 5 3 = F64 5764607523034235 (- 60)"
  using f64_decimal_value[of 5 3 3 10 62 46116860184273879 56 5764607523034235]
    floorlog_between[of 2 5] floorlog_between[of 9 "10 ^ 3"] floorlog_between[of 55 46116860184273879]
  by (simp add: rne_def)

lemma decimal_8_3: "f64_decimal 8 3 = F64 4611686018427388 (- 59)"
  using f64_decimal_value[of 8 4 3 10 61 36893488147419103 56 4611686018427388]
    floorlog_between[of 3 8] floorlog_between[of 9 "10 ^ 3"] floorlog_between[of 55 36893488147419103]
  by (simp add: rne_def)

lemma decimal_1_2: "f64_decimal 1 2 = F64 5764607523034235 (- 59)"
  using f64_decimal_value[of 1 1 2 7 61 46116860184273879 56 5764607523034235]
    floorlog_between[of 0 1] floorlog_between[of 6 "10 ^ 2"] floorlog_between[of 55 46116860184273879]
  by (simp add: rne_def)

lemma decimal_25_3: "f64_decimal 25 3 = F64 7205759403792794 (- 58)"
  using f64_decimal_value[of 25 5 3 10 60 57646075230342349 56 7205759403792794]
    floorlog_between[of 4 25] floorlog_between[of 9 "10 ^ 3"] floorlog_between[of 55 57646075230342349]
  by (simp add: rne_def)

lemma buckets_increasing: "sorted_wrt (\<lambda>x y. f64_gt y x) overhead_buckets"
  by (simp add: overhead_buckets_def decimal_5_5 decimal_1_4 decimal_25_5 decimal_5_4 decimal_1_3 decimal_25_4
      decimal_5_3 decimal_8_3 decimal_1_2 decimal_25_3)

lemma metrics_valid: "list_all valid_metric router_metrics" "list_all valid_metric mock_metrics"
  using buckets_increasing
  by (simp_all add: router_metrics_def mock_metrics_def valid_metric_def valid_name_def valid_label_def name_chars_def)

lemma metric_names_distinct: "distinct (map metric_name router_metrics)" "distinct (map metric_name mock_metrics)"
  by (simp_all add: router_metrics_def mock_metrics_def)

text \<open>\<open>Metrics::new\<close> does not panic, at the router and at the replica. If the constructors of the
  prometheus crate accept what they document, and a fresh registry takes every metric with a new
  name, then all metrics are constructed and registered, in the order of the code and under
  distinct names; the histogram's ten bounds, as doubles, strictly increase.\<close>

theorem metrics_new_succeeds:
  assumes "\<forall>m. valid_metric m \<longrightarrow> accepts m" and "registers_new_names reg names" and "names r = []"
  shows "(\<exists>r'. metrics_new accepts reg r = Some r' \<and> names r' = map metric_name router_metrics) \<and>
    (\<exists>r'. mock_metrics_new accepts reg r = Some r' \<and> names r' = map metric_name mock_metrics) \<and>
    distinct (map metric_name router_metrics) \<and> distinct (map metric_name mock_metrics)"
proof -
  have "list_all accepts router_metrics" "list_all accepts mock_metrics"
    using metrics_valid assms(1) by (auto simp: list_all_iff)
  moreover have "\<exists>r'. register_all reg ms r = Some r' \<and> names r' = map metric_name ms"
    if "distinct (map metric_name ms)" for ms
    using register_all_ok[OF assms(2) that, of r] assms(3) by simp
  ultimately show ?thesis
    using metric_names_distinct by (auto simp: metrics_new_def mock_metrics_new_def)
qed

definition demo_register :: "string list \<Rightarrow> metric \<Rightarrow> string list option" where
  "demo_register r m = (if metric_name m \<in> set r then None else Some (r @ [metric_name m]))"

theorem metrics_new_succeeds_witness:
  "\<exists>r'. metrics_new valid_metric demo_register [] = Some r' \<and> length r' = 6"
proof -
  have "registers_new_names demo_register id" by (simp add: registers_new_names_def demo_register_def)
  from metrics_new_succeeds[of valid_metric demo_register id "[]", OF _ this] show ?thesis
    by (auto simp: router_metrics_def)
qed

subsection \<open>Tracing\<close>

text \<open>
  \<open>init_tracing\<close>: the layers that are installed. \<open>filter_env\<close> is the filter of the environment if it is
  set and valid, \<open>endpoint\<close> the value of \<open>OTEL_EXPORTER_OTLP_ENDPOINT\<close>; building the exporter fails only
  on a malformed endpoint, and then the code panics.
\<close>

datatype tracing_layer = EnvFilter string | FmtLayer | OtelLayer string

definition init_tracing :: "(string \<Rightarrow> bool) \<Rightarrow> string option \<Rightarrow> string option \<Rightarrow> tracing_layer list panics" where
  "init_tracing build filter_env endpoint =
     (let filter = EnvFilter (case filter_env of None \<Rightarrow> ''info'' | Some f \<Rightarrow> f)
      in case endpoint of
           Some url \<Rightarrow> if build url then Some [filter, FmtLayer, OtelLayer url] else None
         | None \<Rightarrow> Some [filter, FmtLayer])"

lemma init_tracing_layers:
  "init_tracing build filter_env endpoint = None \<longleftrightarrow> (\<exists>url. endpoint = Some url \<and> \<not> build url)"
  "init_tracing build filter_env endpoint = Some layers \<Longrightarrow> FmtLayer \<in> set layers \<and> (OtelLayer url \<in> set layers \<longleftrightarrow> endpoint = Some url)"
  by (auto simp: init_tracing_def Let_def split: option.splits if_splits)

end
