(* ===== verification/Startup.thy ===== *)
theory Startup
  imports Router_Main Mock_Service Telemetry
begin

text \<open>
  \<open>crates/mock-triton/src/main.rs\<close>: from the command line to the mock replica, and what the defaults
  of the two binaries mean together. Loading the tokenizer file is the parameter
  \<open>tokenizer_error\<close>, as for the router; ports and serving are left out.
\<close>

record mock_args =
  marg_port :: "16 word"
  marg_metrics_port :: "16 word"
  marg_cache_blocks :: usize
  marg_prefill_us_per_token :: u64
  marg_decode_chunks :: usize
  marg_decode_interval_ms :: u64
  marg_tokenizer_path :: string

definition mock_default_args :: mock_args where
  "mock_default_args =
     \<lparr>marg_port = 8001, marg_metrics_port = 9101, marg_cache_blocks = 4096, marg_prefill_us_per_token = 200,
      marg_decode_chunks = 4, marg_decode_interval_ms = 5, marg_tokenizer_path = ''data/tokenizer.json''\<rparr>"

definition mock_args_config :: "mock_args \<Rightarrow> mock_config" where
  "mock_args_config args =
     \<lparr>cache_blocks = marg_cache_blocks args, prefill_us_per_token = marg_prefill_us_per_token args,
      decode_chunks = marg_decode_chunks args, decode_interval_ms = marg_decode_interval_ms args,
      mock_tokenizer_path = marg_tokenizer_path args\<rparr>"

text \<open>\<open>MockTritonService::new\<close> with its error.\<close>

definition mock_service_load :: "(string \<Rightarrow> string option) \<Rightarrow> mock_config \<Rightarrow> string + mock_service" where
  "mock_service_load tokenizer_error c =
     (case tokenizer_error (mock_tokenizer_path c) of
        Some e \<Rightarrow> Inl (''load tokenizer: '' @ e)
      | None \<Rightarrow> Inr (mock_service_new c))"

definition mock_main :: "(string \<Rightarrow> string option) \<Rightarrow> mock_args \<Rightarrow> string + mock_service" where
  "mock_main tokenizer_error args = mock_service_load tokenizer_error (mock_args_config args)"

lemma mock_defaults: "mock_args_config mock_default_args = mock_config_default"
  by (simp add: mock_args_config_def mock_default_args_def mock_config_default_def)

lemma mock_main_Inr:
  "mock_main tokenizer_error args = Inr m \<Longrightarrow> m = mock_service_new (mock_args_config args)"
  by (simp add: mock_main_def mock_service_load_def split: option.splits)

subsection \<open>A prompt that comes back\<close>

lemma takeWhile_in_take: "distinct xs \<Longrightarrow> takeWhile (\<lambda>x. x \<in> set (take k xs)) xs = take k xs"
proof -
  assume d: "distinct xs"
  have "takeWhile (\<lambda>x. x \<in> set (take k xs)) (take k xs @ drop k xs) =
      take k xs @ takeWhile (\<lambda>x. x \<in> set (take k xs)) (drop k xs)"
    by (rule takeWhile_append2) simp
  moreover have "takeWhile (\<lambda>x. x \<in> set (take k xs)) (drop k xs) = []"
    using set_take_disj_set_drop_if_distinct[OF d, of k k] by (cases "drop k xs") auto
  ultimately show ?thesis by simp
qed

lemma lru_serve_return:
  assumes "distinct (hs @ gs)"
  shows "snd (lru_serve b [hs, gs, hs] []) = [0, 0, min (length hs) (b - length gs)]"
proof -
  have admit1: "lru_admit b hs [] = take b hs"
    using assms by (simp add: lru_admit_def lru_evict_def lru_touch_def distinct_remdups_id)
  have "lru_touch gs (take b hs) = gs @ take b hs"
    using assms by (auto simp: lru_touch_def distinct_remdups_id filter_id_conv dest!: in_set_takeD)
  then have admit2: "lru_admit b gs (take b hs) = take b gs @ take (b - length gs) hs"
    by (simp add: lru_admit_def lru_evict_def min_def)
  have none: "lru_hits gs (take b hs) = 0"
    using assms by (cases gs) (auto simp: lru_hits_def dest: in_set_takeD)
  have "takeWhile (\<lambda>h. h \<in> set (take b gs @ take (b - length gs) hs)) hs = takeWhile (\<lambda>h. h \<in> set (take (b - length gs) hs)) hs"
    using assms by (intro takeWhile_cong) (auto dest: in_set_takeD)
  also have "\<dots> = take (b - length gs) hs" using assms by (simp add: takeWhile_in_take)
  finally have "lru_hits hs (take b gs @ take (b - length gs) hs) = min (length hs) (b - length gs)"
    by (simp add: lru_hits_def)
  moreover have "lru_hits hs [] = 0" by (cases hs) (simp_all add: lru_hits_def)
  ultimately show ?thesis by (simp add: admit1 admit2 none)
qed

text \<open>C26. The defaults of the two binaries do not fit together. A router started with its defaults
  believes that a replica holds 65536 blocks, a replica started with its defaults holds 4096. If a
  prompt returns after another one, the replica has evicted it as far as the two do not fit into
  4096 blocks together, while the router, whose picture holds both, still predicts all of it.\<close>

theorem default_sizes_disagree:
  assumes router: "router_main bad_url tokenizer_error (default_args urls) = Inr r" and i: "i < fleet_size r"
    and replica: "mock_main mock_tokenizer_error mock_default_args = Inr m"
    and prompts: "distinct (hs @ gs)" "length hs + length gs \<le> 65536"
  shows "snd (serve_all (router_admit (block_budget (cfg (sched r)))) [hs, gs, hs] (cache (replicas (sched r) ! i))) =
      [0, 0, length hs] \<and>
    snd (serve_all lookup_insert [hs, gs, hs] (kv_cache m)) = [0, 0, min (length hs) (4096 - length gs)]"
proof -
  obtain pol where r: "r = router_inner_new (scheduler_new (length urls) pol (args_config (default_args urls))) (length urls)"
    using router_main_Inr[OF router] by (auto simp: default_args_def)
  have b: "block_budget (cfg (sched r)) = 65536"
    by (simp add: r router_inner_new_def scheduler_new_def args_config_def default_args_def)
  have c: "cache (replicas (sched r) ! i) = prefix_cache_new"
    using i by (simp add: r router_inner_new_def scheduler_new_def fleet_size_def num_replicas_def new_replica_def)
  have m: "kv_cache m = kv_new 4096"
    using mock_main_Inr[OF replica] by (simp add: mock_service_new_def mock_args_config_def mock_default_args_def)
  let ?cost = "sum_list (map (\<lambda>hs. Suc (length hs)) [hs, gs, hs])"
  have room: "counters_below ?cost prefix_cache_new" "counters_below ?cost (kv_new 4096)"
    using prompts(2) by (simp_all add: counters_below_def lru_simps)
  have "snd (serve_all (router_admit 65536) [hs, gs, hs] prefix_cache_new) = snd (lru_serve 65536 [hs, gs, hs] [])"
    using router_side.serve_refines[OF _ room(1), of 65536] by (simp add: lru_simps)
  moreover have "snd (serve_all lookup_insert [hs, gs, hs] (kv_new 4096)) = snd (lru_serve 4096 [hs, gs, hs] [])"
    using kv.serve_refines[OF _ room(2)] by simp
  ultimately show ?thesis
    using prompts lru_serve_return[OF prompts(1)] by (simp add: b c m del: serve_all.simps lru_serve.simps)
qed

theorem default_sizes_disagree_witness:
  "\<exists>r m hs. router_main (\<lambda>_. False) (\<lambda>_. None) (default_args [''http://mock1:8001'']) = Inr r \<and>
     mock_main (\<lambda>_. None) mock_default_args = Inr m \<and>
     snd (serve_all (router_admit (block_budget (cfg (sched r)))) [hs, map word_of_nat [0..<4096], hs] (cache (replicas (sched r) ! 0))) = [0, 0, 3] \<and>
     snd (serve_all lookup_insert [hs, map word_of_nat [0..<4096], hs] (kv_cache m)) = [0, 0, 0]"
proof -
  obtain r where r: "router_main (\<lambda>_. False) (\<lambda>_. None) (default_args [''http://mock1:8001'']) = Inr r"
    by (simp add: router_main_def default_args_def parse_policy_def from_file_def find_None_iff)
  obtain m where m: "mock_main (\<lambda>_. None) mock_default_args = Inr m"
    by (simp add: mock_main_def mock_service_load_def)
  have zero: "0 < fleet_size r"
    using r by (auto simp: router_main_def default_args_def parse_policy_def from_file_def router_inner_new_def scheduler_new_def
        fleet_size_def num_replicas_def)
  let ?gs = "map word_of_nat [0..<4096] :: u64 list"
  let ?hs = "[5000, 5001, 5002] :: u64 list"
  have "inj_on (word_of_nat :: nat \<Rightarrow> u64) {0..<4096}"
    by (auto intro!: inj_onI simp: of_nat_eq_iff take_bit_nat_eq_self_iff word_of_nat_eq_iff take_bit_nat_eq_self)
  then have gs: "distinct ?gs" by (simp add: distinct_map)
  have below: "h < 4096" if h: "h \<in> set ?gs" for h
    using h by (auto simp: word_less_nat_alt unat_of_nat)
  have "distinct (?hs @ ?gs)" using gs below[of 5000] below[of 5001] below[of 5002] by auto
  from default_sizes_disagree[OF r zero m this] show ?thesis
    using r m by (intro exI[of _ r] exI[of _ m] exI[of _ ?hs]) simp
qed

end
