(* ===== verification/Compose.thy ===== *)
theory Compose
  imports Conversations Startup
begin

text \<open>
  The stack of \<open>docker/docker-compose.yml\<close>: the environment it gives to the router and to the eight
  replicas, with the tokenizer path of the \<open>Dockerfile\<close>, on top of the defaults of the binaries. The
  variable \<open>POLICY\<close> is left at its default. Networks, dashboards and scripts are left out.
\<close>

definition compose_urls :: "string list" where
  "compose_urls =
     [''http://mock1:8001'', ''http://mock2:8001'', ''http://mock3:8001'', ''http://mock4:8001'',
      ''http://mock5:8001'', ''http://mock6:8001'', ''http://mock7:8001'', ''http://mock8:8001'']"

definition compose_router_args :: router_args where
  "compose_router_args =
     (default_args compose_urls)\<lparr>arg_port := 8000, arg_metrics_port := 9100, arg_policy := ''cache-aware'',
       arg_block_budget := 4096, arg_tokenizer_path := ''/data/tokenizer.json''\<rparr>"

definition compose_mock_args :: mock_args where
  "compose_mock_args =
     mock_default_args\<lparr>marg_port := 8001, marg_metrics_port := 9101, marg_cache_blocks := 4096,
       marg_prefill_us_per_token := 200, marg_tokenizer_path := ''/data/tokenizer.json''\<rparr>"

text \<open>Here, unlike with the defaults, the two sizes are the same.\<close>

lemma compose_system:
  assumes "router_main bad_url tokenizer_error compose_router_args = Inr r"
    and "mock_main mock_tokenizer_error compose_mock_args = Inr m"
  shows "(r, replicate 8 m) = system_new 8 (args_config compose_router_args) (mock_args_config compose_mock_args)"
proof (rule router_main_Inr[OF assms(1)])
  fix pol
  let ?n = "length (arg_replicas compose_router_args)"
  have n: "?n = 8" by (simp add: compose_router_args_def default_args_def compose_urls_def)
  assume "parse_policy (arg_policy compose_router_args) = Inr pol"
    and r: "r = router_inner_new (scheduler_new ?n pol (args_config compose_router_args)) ?n"
  then have "pol = CacheAware" by (simp add: compose_router_args_def parse_policy_def)
  with mock_main_Inr[OF assms(2)] show ?thesis unfolding r n system_new_def by simp
qed

lemma compose_settings:
  "default_weights (scheduler_new 8 CacheAware (args_config compose_router_args))" "0 < max_inflight (args_config compose_router_args)"
  "cache_blocks (mock_args_config compose_mock_args) = block_budget (args_config compose_router_args)"
  "block_budget (args_config compose_router_args) = 4096" "min_match_blocks (args_config compose_router_args) = 2"
  by (simp_all add: default_weights_def scheduler_new_def args_config_def compose_router_args_def default_args_def default_config_def
      mock_args_config_def compose_mock_args_def)


text \<open>A conversation of two turns.\<close>

definition two_turns :: "raw_conversation list" where
  "two_turns =
     [\<lparr>raw_id = ''c'', raw_conversations =
        [\<lparr>raw_from = ''human'', raw_value = replicate 40 CHR ''a''\<rparr>, \<lparr>raw_from = ''gpt'', raw_value = ''ok''\<rparr>,
         \<lparr>raw_from = ''human'', raw_value = ''more''\<rparr>]\<rparr>]"


end
