(* ===== verification/Fleet_Concurrent.thy ===== *)
theory Fleet_Concurrent
  imports Fleet
begin

text \<open>
  The fleet with many requests at a time. The router decides under its mutex, a replica takes a
  prompt in under the mutex of its cache, the router completes; between these three moments of a
  request other requests do the same, so the replicas see the prompts in another order than the
  router sent them in. The numbers of single requests then differ from the predictions. Their sums
  do not, as long as nothing has to be evicted.
\<close>

subsection \<open>Requests on their way\<close>

text \<open>Sent with its predicted matches; served with the replica's hits and the blocks of the prompt.\<close>

datatype flight = Sent usize usize "u64 list" | Served usize usize usize usize | Over

record cfleet =
  crouter :: scheduler
  ccaches :: "kv_cache_sim list"
  flights :: "flight list"
  predicted_sum :: nat
  reported_sum :: nat
  prompt_sum :: nat

definition cfleet_new :: "usize \<Rightarrow> usize \<Rightarrow> scheduler_config \<Rightarrow> cfleet" where
  "cfleet_new n cap c =
     \<lparr>crouter = scheduler_new n CacheAware c, ccaches = replicate n (kv_new cap), flights = [],
      predicted_sum = 0, reported_sum = 0, prompt_sum = 0\<rparr>"

datatype fleet_event = Route "u64 list" | Deliver nat | Finish nat

fun flight_step :: "fleet_event \<Rightarrow> cfleet \<Rightarrow> cfleet option" where
  "flight_step (Route hs) f = do {
     (s, res) \<leftarrow> pick (crouter f) hs;
     (case res of
        Inl e \<Rightarrow> Some (f\<lparr>crouter := s\<rparr>)
      | Inr d \<Rightarrow> Some (f\<lparr>crouter := s, flights := flights f @ [Sent (replica d) (matched_blocks d) hs]\<rparr>))
   }"
| "flight_step (Deliver k) f = do {
     x \<leftarrow> vec_get (flights f) k;
     (case x of
        Sent i m hs \<Rightarrow> do {
          c \<leftarrow> vec_get (ccaches f) i;
          let (c, n) = lookup_insert c hs;
          Some (f\<lparr>ccaches := (ccaches f)[i := c], flights := (flights f)[k := Served i m n (length hs)]\<rparr>)
        }
      | _ \<Rightarrow> None)
   }"
| "flight_step (Finish k) f = do {
     x \<leftarrow> vec_get (flights f) k;
     (case x of
        Served i m n l \<Rightarrow> do {
          s \<leftarrow> complete (crouter f) i;
          Some (f\<lparr>crouter := s, flights := (flights f)[k := Over], predicted_sum := predicted_sum f + m,
                  reported_sum := reported_sum f + n, prompt_sum := prompt_sum f + l\<rparr>)
        }
      | _ \<Rightarrow> None)
   }"

fun flight_run :: "fleet_event list \<Rightarrow> cfleet \<Rightarrow> cfleet option" where
  "flight_run [] f = Some f"
| "flight_run (e # es) f = Option.bind (flight_step e f) (flight_run es)"

fun prompts_of :: "fleet_event list \<Rightarrow> u64 list set" where
  "prompts_of [] = {}"
| "prompts_of (Route hs # es) = insert hs (prompts_of es)"
| "prompts_of (e # es) = prompts_of es"

subsection \<open>Admission without eviction\<close>

lemma set_recency_insert: "set (recency (insert_chain c hs)) = set hs \<union> set (recency c)"
proof -
  have "recency (c\<lparr>clock := t\<rparr>) = recency c" for t by (simp add: recency_def live_def)
  then show ?thesis by (simp add: insert_chain_def touch_eq touched_part_def lru_simps set_recency_fold)
qed

lemma num_blocks_card: "lru_wf c \<Longrightarrow> num_blocks c = card (set (recency c))"
  by (simp add: num_blocks_recency distinct_card distinct_recency)

lemma prefix_closed_union:
  assumes "chain_family F" and "hs \<in> F" and "prefix_closed F S"
  shows "prefix_closed F (set hs \<union> S)"
  unfolding prefix_closed_def
proof (intro ballI allI impI)
  fix c i assume c: "c \<in> F" "Suc i < length c" and "c ! Suc i \<in> set hs \<union> S"
  then consider j where "j < length hs" "c ! Suc i = hs ! j" | "c ! Suc i \<in> S"
    by (auto simp: in_set_conv_nth)
  then show "c ! i \<in> set hs \<union> S"
  proof cases
    case 1
    with chain_family_pred[OF assms(1) c(1) assms(2) c(2)] have "j = Suc i" "c ! i = hs ! i" by auto
    with 1 show ?thesis by simp
  qed (use assms(3) c in \<open>auto simp: prefix_closed_def\<close>)
qed

text \<open>What one prompt does to a cache that has room for all blocks \<open>U\<close> ever used: it adds its
  blocks, and its hits and the growth of the cache make up its length.\<close>

lemma admit_without_eviction:
  assumes wf: "lru_wf c" and F: "chain_family F" "hs \<in> F" and closed: "prefix_closed F (set (recency c))"
    and U: "finite U" "card U \<le> b" "set hs \<union> set (recency c) \<subseteq> U"
  defines "c' \<equiv> evict_to (insert_chain c hs) b"
  shows "lru_wf c'" and "set (recency c') = set hs \<union> set (recency c)"
    and "prefix_closed F (set (recency c'))" and "lookup c hs + num_blocks c' = num_blocks c + length hs"
proof -
  have wf1: "lru_wf (insert_chain c hs)" using wf by simp
  then show wf': "lru_wf c'" unfolding c'_def by (rule evict_to_correct)
  have "num_blocks (insert_chain c hs) \<le> b"
    using card_mono[OF U(1,3)] U(2) by (simp add: num_blocks_card[OF wf1] set_recency_insert)
  then have "recency c' = recency (insert_chain c hs)"
    unfolding c'_def by (simp add: evict_to_correct(2)[OF wf1] lru_evict_def num_blocks_recency)
  then show set': "set (recency c') = set hs \<union> set (recency c)" by (simp add: set_recency_insert)
  with prefix_closed_union[OF F closed] show "prefix_closed F (set (recency c'))" by simp
  have "distinct hs" by (rule chain_family_distinct[OF F])
  have "lookup c hs = length (filter (\<lambda>h. h \<in> set (recency c)) hs)"
    using closed_takeWhile_eq_filter[OF closed F(2)] by (simp add: lookup_recency lru_hits_def)
  also have "\<dots> = card (set hs \<inter> set (recency c))"
    using distinct_card[OF distinct_filter[OF \<open>distinct hs\<close>]] by (simp add: Int_def flip: distinct_card)
  finally have "lookup c hs = card (set hs \<inter> set (recency c))" .
  moreover have "card (set hs) + card (set (recency c)) = card (set hs \<union> set (recency c)) + card (set hs \<inter> set (recency c))"
    by (rule card_Un_Int) simp_all
  ultimately show "lookup c hs + num_blocks c' = num_blocks c + length hs"
    using distinct_card[OF \<open>distinct hs\<close>] by (simp add: num_blocks_card wf wf' set')
qed

subsection \<open>The invariant\<close>

fun flight_predicted :: "flight \<Rightarrow> nat" where
  "flight_predicted (Sent i m hs) = m"
| "flight_predicted (Served i m n l) = m"
| "flight_predicted Over = 0"

fun flight_reported :: "flight \<Rightarrow> nat" where
  "flight_reported (Served i m n l) = n"
| "flight_reported x = 0"

fun flight_blocks :: "flight \<Rightarrow> nat" where
  "flight_blocks (Sent i m hs) = length hs"
| "flight_blocks (Served i m n l) = l"
| "flight_blocks Over = 0"

fun served_blocks :: "flight \<Rightarrow> nat" where
  "served_blocks (Served i m n l) = l"
| "served_blocks x = 0"

text \<open>The blocks that a replica will hold once a prompt has arrived.\<close>

fun on_way :: "usize \<Rightarrow> flight \<Rightarrow> u64 set" where
  "on_way j (Sent i m hs) = (if i = j then set hs else {})"
| "on_way j x = {}"

fun flight_ok :: "u64 list set \<Rightarrow> usize \<Rightarrow> flight \<Rightarrow> bool" where
  "flight_ok F n (Sent i m hs) = (hs \<in> F \<and> i < n)"
| "flight_ok F n (Served i m k l) = (i < n)"
| "flight_ok F n Over = True"

definition roomy :: "u64 list set \<Rightarrow> u64 set \<Rightarrow> 'a lru_scheme \<Rightarrow> bool" where
  "roomy F U c = (lru_wf c \<and> set (recency c) \<subseteq> U \<and> prefix_closed F (set (recency c)))"

definition same_content :: "cfleet \<Rightarrow> usize \<Rightarrow> bool" where
  "same_content f i =
     (set (recency (cache (replicas (crouter f) ! i))) = set (recency (ccaches f ! i)) \<union> (\<Union>x\<in>set (flights f). on_way i x))"

definition cf_shape :: "u64 list set \<Rightarrow> u64 set \<Rightarrow> usize \<Rightarrow> scheduler_config \<Rightarrow> cfleet \<Rightarrow> bool" where
  "cf_shape F U cap c f =
     (policy (crouter f) = CacheAware \<and> cfg (crouter f) = c \<and> length (ccaches f) = length (replicas (crouter f)) \<and>
      (\<forall>i<length (ccaches f). roomy F U (cache (replicas (crouter f) ! i)) \<and> roomy F U (ccaches f ! i) \<and>
         capacity (ccaches f ! i) = cap \<and> same_content f i) \<and>
      (\<forall>x\<in>set (flights f). flight_ok F (length (ccaches f)) x))"

definition cf_books :: "cfleet \<Rightarrow> bool" where
  "cf_books f =
     (predicted_sum f + sum_list (map flight_predicted (flights f)) + sum_list (map (\<lambda>r. num_blocks (cache r)) (replicas (crouter f))) =
        prompt_sum f + sum_list (map flight_blocks (flights f)) \<and>
      reported_sum f + sum_list (map flight_reported (flights f)) + sum_list (map num_blocks (ccaches f)) =
        prompt_sum f + sum_list (map served_blocks (flights f)))"

lemma cf_shapeD:
  assumes "cf_shape F U cap c f" and "i < length (ccaches f)"
  shows "roomy F U (cache (replicas (crouter f) ! i))" "roomy F U (ccaches f ! i)" "capacity (ccaches f ! i) = cap"
    "same_content f i" "i < length (replicas (crouter f))"
  using assms by (simp_all add: cf_shape_def)

lemma roomy_admit:
  assumes "roomy F U c" and "chain_family F" "hs \<in> F" and "finite U" "card U \<le> b" "set hs \<subseteq> U"
  shows "roomy F U (evict_to (insert_chain c hs) b)"
    and "set (recency (evict_to (insert_chain c hs) b)) = set hs \<union> set (recency c)"
    and "lookup c hs + num_blocks (evict_to (insert_chain c hs) b) = num_blocks c + length hs"
proof -
  from assms(1,6) have c: "lru_wf c" "prefix_closed F (set (recency c))" "set hs \<union> set (recency c) \<subseteq> U"
    by (auto simp: roomy_def)
  note admit = admit_without_eviction[OF c(1) assms(2,3) c(2) assms(4,5) c(3)]
  show "roomy F U (evict_to (insert_chain c hs) b)" using admit(1-3) c(3) by (simp add: roomy_def)
  show "set (recency (evict_to (insert_chain c hs) b)) = set hs \<union> set (recency c)" by (rule admit(2))
  show "lookup c hs + num_blocks (evict_to (insert_chain c hs) b) = num_blocks c + length hs" by (rule admit(4))
qed

lemma cf_new:
  "cf_shape F U cap c (cfleet_new n cap c) \<and> cf_books (cfleet_new n cap c)"
  by (simp add: cf_shape_def cf_books_def cfleet_new_def scheduler_new_def new_replica_def roomy_def prefix_closed_def
      same_content_def lru_simps sum_list_triv) (simp add: num_blocks_def kv_new_def hm_len_def)

lemma cf_route:
  assumes f: "cf_shape F U cap c f" "cf_books f" and min: "0 < min_match_blocks c"
    and F: "chain_family F" "hs \<in> F" and U: "finite U" "card U \<le> block_budget c" "set hs \<subseteq> U"
    and step: "flight_step (Route hs) f = Some g"
  shows "cf_shape F U cap c g \<and> cf_books g"
proof (rule pick_cases[of "crouter f" hs])
  fix e assume "pick (crouter f) hs = Some (crouter f, Inl e)"
  with step f show ?thesis by simp
next
  fix i m
  let ?s = "crouter f"
  let ?r = "routed ?s hs (replicas ?s ! i)"
  let ?s1 = "(rr_advance ?s i)\<lparr>replicas := (replicas ?s)[i := ?r]\<rparr>"
  assume d: "decides ?s hs i m" and p: "pick ?s hs = Some (?s1, Inr \<lparr>replica = i, matched_blocks = m, inflight_after = inflight (replicas ?s ! i) + 1\<rparr>)"
  have i: "i < length (replicas ?s)" using decides_available[OF d] by simp
  have pol: "policy ?s = CacheAware" "cfg ?s = c" "length (ccaches f) = length (replicas ?s)"
    using f(1) by (simp_all add: cf_shape_def)
  from pol i have i': "i < length (ccaches f)" by simp
  have m: "m = lookup (cache (replicas ?s ! i)) hs" using cache_aware_matched[OF pol(1) _ d] min pol(2) by simp
  have g: "g = f\<lparr>crouter := ?s1, flights := flights f @ [Sent i m hs]\<rparr>" using step p by simp
  have r: "cache ?r = evict_to (insert_chain (cache (replicas ?s ! i)) hs) (block_budget c)" using pol by (simp add: routed_def)
  note admit = roomy_admit[OF cf_shapeD(1)[OF f(1) i'] F U]
  have adv: "policy (rr_advance ?s i) = CacheAware" "cfg (rr_advance ?s i) = c" using pol by (simp_all add: rr_advance_def)
  have "cf_shape F U cap c g"
    unfolding cf_shape_def
  proof (intro conjI allI ballI impI)
    fix j assume j: "j < length (ccaches g)"
    with g have j': "j < length (ccaches f)" by simp
    note old = cf_shapeD[OF f(1) j']
    show "roomy F U (cache (replicas (crouter g) ! j))" using g i j' pol(3) old(1) admit(1) r by (cases "i = j") simp_all
    show "roomy F U (ccaches g ! j)" "capacity (ccaches g ! j) = cap" using g old by simp_all
    show "same_content g j"
      using old(4) g i r admit(2) by (auto simp: same_content_def nth_list_update)
  next
    fix x assume "x \<in> set (flights g)"
    with f(1) g i' F(2) show "flight_ok F (length (ccaches g)) x" by (auto simp: cf_shape_def)
  qed (use g adv pol in simp_all)
  moreover have "cf_books g"
    using f(2) g m r admit(3) sum_list_map_update[OF i, of "\<lambda>r. num_blocks (cache r)" ?r] by (simp add: cf_books_def)
  ultimately show ?thesis ..
qed

lemma cf_deliver:
  assumes f: "cf_shape F U cap c f" "cf_books f" and F: "chain_family F" and U: "finite U" "card U \<le> cap" "\<forall>hs\<in>F. set hs \<subseteq> U"
    and step: "flight_step (Deliver k) f = Some g"
  shows "cf_shape F U cap c g \<and> cf_books g"
proof -
  from step obtain i m hs where k: "k < length (flights f)" "flights f ! k = Sent i m hs"
    by (auto simp: bind_eq_Some_conv split: flight.splits)
  then have "flight_ok F (length (ccaches f)) (Sent i m hs)" using f(1) nth_mem by (fastforce simp: cf_shape_def)
  then have hs: "hs \<in> F" and i: "i < length (ccaches f)" by simp_all
  let ?c = "ccaches f ! i"
  let ?c1 = "evict_to (insert_chain ?c hs) cap"
  note old = cf_shapeD[OF f(1)]
  have "lookup_insert ?c hs = (?c1, lookup ?c hs)" using old(3)[OF i] by (simp add: lookup_insert_eq)
  with step k i have g: "g = f\<lparr>ccaches := (ccaches f)[i := ?c1], flights := (flights f)[k := Served i m (lookup ?c hs) (length hs)]\<rparr>"
    by (simp add: vec_get_in_range)
  have "set hs \<subseteq> U" using U(3) hs by blast
  note admit = roomy_admit[OF old(2)[OF i] F hs U(1,2) this]
  have ways: "(\<Union>x\<in>set (flights g). on_way j x) \<union> on_way j (Sent i m hs) = (\<Union>x\<in>set (flights f). on_way j x)" for j
    using UN_list_update[OF k(1), of "on_way j" "Served i m (lookup ?c hs) (length hs)"] k(2) g by simp
  have "cf_shape F U cap c g"
    unfolding cf_shape_def
  proof (intro conjI allI ballI impI)
    fix j assume "j < length (ccaches g)"
    with g have j: "j < length (ccaches f)" by simp
    show "roomy F U (cache (replicas (crouter g) ! j))" using g old(1)[OF j] by simp
    show "roomy F U (ccaches g ! j)" "capacity (ccaches g ! j) = cap"
      using g i old(2,3)[OF j] old(3)[OF i] admit(1) by (cases "i = j"; simp)+
    have grown: "set (recency (ccaches g ! j)) = on_way j (Sent i m hs) \<union> set (recency (ccaches f ! j))"
      using g i admit(2) by (cases "i = j") simp_all
    have moved: "R = K' \<union> W'" if "R = K \<union> W" "K' = X \<union> K" "W' \<union> X = W" for R K W K' W' X :: "u64 set"
      using that by blast
    have "crouter g = crouter f" by (simp add: g)
    with moved[OF old(4)[OF j, unfolded same_content_def] grown ways] show "same_content g j"
      by (simp only: same_content_def)
  next
    fix x assume "x \<in> set (flights g)"
    then have "x = Served i m (lookup ?c hs) (length hs) \<or> x \<in> set (flights f)"
      using set_update_subset_insert[of "flights f" k "Served i m (lookup ?c hs) (length hs)"] by (auto simp: g)
    with f(1) i show "flight_ok F (length (ccaches g)) x" by (auto simp: cf_shape_def g)
  qed (use g f(1) in \<open>simp_all add: cf_shape_def\<close>)
  moreover have "cf_books g"
    using f(2) admit(3) sum_list_map_update[OF i, of num_blocks ?c1]
      sum_list_map_update[OF k(1), of flight_predicted "Served i m (lookup ?c hs) (length hs)"]
      sum_list_map_update[OF k(1), of flight_reported "Served i m (lookup ?c hs) (length hs)"]
      sum_list_map_update[OF k(1), of flight_blocks "Served i m (lookup ?c hs) (length hs)"]
      sum_list_map_update[OF k(1), of served_blocks "Served i m (lookup ?c hs) (length hs)"]
    by (simp add: cf_books_def g k(2))
  ultimately show ?thesis ..
qed

lemma cf_finish:
  assumes f: "cf_shape F U cap c f" "cf_books f" and step: "flight_step (Finish k) f = Some g"
  shows "cf_shape F U cap c g \<and> cf_books g"
proof -
  from step obtain i m n l s where k: "k < length (flights f)" "flights f ! k = Served i m n l"
    and s: "complete (crouter f) i = Some s"
    and g: "g = f\<lparr>crouter := s, flights := (flights f)[k := Over], predicted_sum := predicted_sum f + m,
                  reported_sum := reported_sum f + n, prompt_sum := prompt_sum f + l\<rparr>"
    by (auto simp: bind_eq_Some_conv split: flight.splits)
  from s have i: "i < length (replicas (crouter f))"
    and s': "s = (crouter f)\<lparr>replicas := (replicas (crouter f))[i := (replicas (crouter f) ! i)\<lparr>inflight := inflight (replicas (crouter f) ! i) - 1\<rparr>]\<rparr>"
    by (auto simp: complete_def bind_eq_Some_conv)
  have ways: "(\<Union>x\<in>set (flights g). on_way j x) = (\<Union>x\<in>set (flights f). on_way j x)" for j
    using UN_list_update[OF k(1), of "on_way j" Over] k(2) g by simp
  have caches: "cache (replicas s ! j) = cache (replicas (crouter f) ! j)" "length (replicas s) = length (replicas (crouter f))" for j
    using i by (auto simp: s' nth_list_update)
  then have "map (\<lambda>r. cache r) (replicas s) = map (\<lambda>r. cache r) (replicas (crouter f))"
    by (intro nth_equalityI) simp_all
  from arg_cong[OF this, of "\<lambda>xs. sum_list (map num_blocks xs)"]
  have sums: "sum_list (map (\<lambda>r. num_blocks (cache r)) (replicas s)) = sum_list (map (\<lambda>r. num_blocks (cache r)) (replicas (crouter f)))"
    by (simp add: comp_def)
  have "cf_shape F U cap c g"
    unfolding cf_shape_def
  proof (intro conjI allI ballI impI)
    fix j assume "j < length (ccaches g)"
    with g have "j < length (ccaches f)" by simp
    from cf_shapeD[OF f(1) this] ways[of j]
    show "roomy F U (cache (replicas (crouter g) ! j))" "roomy F U (ccaches g ! j)" "capacity (ccaches g ! j) = cap" "same_content g j"
      by (simp_all add: g caches same_content_def)
  next
    fix x assume "x \<in> set (flights g)"
    with f(1) g show "flight_ok F (length (ccaches g)) x"
      using set_update_subset_insert[of "flights f" k Over] by (fastforce simp: cf_shape_def)
  qed (use g f(1) caches(2) in \<open>simp_all add: cf_shape_def s'\<close>)
  moreover have "cf_books g"
    using f(2) sums sum_list_map_update[OF k(1), of flight_predicted Over] sum_list_map_update[OF k(1), of flight_reported Over]
      sum_list_map_update[OF k(1), of flight_blocks Over] sum_list_map_update[OF k(1), of served_blocks Over]
    by (simp add: cf_books_def g k(2))
  ultimately show ?thesis ..
qed

lemma cf_run:
  assumes "cf_shape F U cap c f \<and> cf_books f" and min: "0 < min_match_blocks c" and F: "chain_family F" "prompts_of es \<subseteq> F"
    and U: "finite U" "card U \<le> block_budget c" "card U \<le> cap" "\<forall>hs\<in>F. set hs \<subseteq> U"
    and run: "flight_run es f = Some g"
  shows "cf_shape F U cap c g \<and> cf_books g"
  using assms(1) F(2) run
proof (induction es arbitrary: f)
  case (Cons e es)
  then obtain f1 where f1: "flight_step e f = Some f1" "flight_run es f1 = Some g" by (auto simp: bind_eq_Some_conv)
  have "cf_shape F U cap c f1 \<and> cf_books f1"
  proof (cases e)
    case (Route hs)
    with Cons.prems(2) have "hs \<in> F" by simp
    with U(4) have "set hs \<subseteq> U" by blast
    with cf_route[OF _ _ min F(1) \<open>hs \<in> F\<close> U(1,2)] Cons.prems(1) f1(1) Route show ?thesis by blast
  next
    case (Deliver k)
    with cf_deliver[OF _ _ F(1) U(1,3,4)] Cons.prems(1) f1(1) show ?thesis by blast
  next
    case (Finish k)
    with cf_finish Cons.prems(1) f1(1) show ?thesis by blast
  qed
  moreover have "prompts_of es \<subseteq> F" using Cons.prems(2) by (cases e) auto
  ultimately show ?case using Cons.IH f1(2) by blast
qed simp

lemma flight_step_length: "flight_step e f = Some g \<Longrightarrow> length (ccaches g) = length (ccaches f)"
proof (cases e)
  case (Route hs)
  assume step: "flight_step e f = Some g"
  with Route obtain s res where p: "pick (crouter f) hs = Some (s, res)" by (auto simp: bind_eq_Some_conv)
  from step Route p show ?thesis by (cases res) auto
qed (auto simp: bind_eq_Some_conv split: flight.splits prod.splits)

lemma flight_run_length: "flight_run es f = Some g \<Longrightarrow> length (ccaches g) = length (ccaches f)"
  by (induction es arbitrary: f) (auto simp: bind_eq_Some_conv dest: flight_step_length)

subsection \<open>The sums agree\<close>

text \<open>C7. Concurrency does not spoil the sums. Let any number of requests overlap on a cache-aware
  fleet, each routed, served and completed at any time, the served order being any other than the
  routed one. If no hashes collide and the blocks of all prompts fit the router's budget and the
  replicas, then once every request is over, the matched blocks the router predicted add up to the
  cached blocks the replicas reported, both are the blocks of all prompts less the blocks held,
  and every picture of the router holds exactly the blocks of its replica.\<close>

theorem concurrent_books_agree:
  assumes "flight_run es (cfleet_new n cap c) = Some f" and "\<forall>x\<in>set (flights f). x = Over"
    and "chain_family (prompts_of es)" and "0 < min_match_blocks c"
    and "card (\<Union>hs\<in>prompts_of es. set hs) \<le> min (block_budget c) cap"
  shows "predicted_sum f = reported_sum f \<and>
    reported_sum f + sum_list (map num_blocks (ccaches f)) = prompt_sum f \<and>
    (\<forall>i<n. set (recency (cache (replicas (crouter f) ! i))) = set (recency (ccaches f ! i)))"
proof -
  let ?F = "prompts_of es" and ?U = "\<Union>hs\<in>prompts_of es. set hs"
  have fin: "finite ?F" by (induction es rule: prompts_of.induct) simp_all
  then have U: "finite ?U" "card ?U \<le> block_budget c" "card ?U \<le> cap" "\<forall>hs\<in>?F. set hs \<subseteq> ?U" using assms(5) by auto
  note inv = cf_run[OF cf_new assms(4,3) order_refl U assms(1)]
  have len: "length (ccaches f) = n" using flight_run_length[OF assms(1)] by (simp add: cfleet_new_def)
  have none: "sum_list (map flight_predicted (flights f)) = 0" "sum_list (map flight_reported (flights f)) = 0"
    "sum_list (map flight_blocks (flights f)) = 0" "sum_list (map served_blocks (flights f)) = 0"
    using assms(2) by (auto simp: sum_list_eq_0_iff)
  have same: "set (recency (cache (replicas (crouter f) ! i))) = set (recency (ccaches f ! i))" if "i < n" for i
  proof -
    have "on_way i x = {}" if "x \<in> set (flights f)" for x using assms(2) that by auto
    with cf_shapeD(4)[OF conjunct1[OF inv], of i] that len show ?thesis by (auto simp: same_content_def)
  qed
  have "map (\<lambda>r. num_blocks (cache r)) (replicas (crouter f)) = map num_blocks (ccaches f)"
  proof (rule nth_equalityI)
    show "length (map (\<lambda>r. num_blocks (cache r)) (replicas (crouter f))) = length (map num_blocks (ccaches f))"
      using inv by (simp add: cf_shape_def)
    fix i assume "i < length (map (\<lambda>r. num_blocks (cache r)) (replicas (crouter f)))"
    then have i: "i < length (ccaches f)" using inv by (simp add: cf_shape_def)
    note d = cf_shapeD[OF conjunct1[OF inv] i]
    show "map (\<lambda>r. num_blocks (cache r)) (replicas (crouter f)) ! i = map num_blocks (ccaches f) ! i"
      using d(1,2,5) same[of i] i len by (simp add: num_blocks_card roomy_def)
  qed
  with inv none same show ?thesis by (simp add: cf_books_def)
qed

text \<open>Two overlapping requests that the replica takes in the other order: the first is predicted to hit
  nothing and hits two blocks, the second the other way round.\<close>

definition demo_flights :: "fleet_event list" where
  "demo_flights = [Route [1, 2, 3], Route [1, 2, 4], Deliver 1, Deliver 0, Finish 0, Finish 1]"

theorem concurrent_books_agree_witness:
  "\<exists>f. flight_run demo_flights (cfleet_new 1 4 demo_config) = Some f \<and> predicted_sum f = 2 \<and> reported_sum f = 2 \<and>
    prompt_sum f = 6"
proof -
  have "map_option (\<lambda>f. (flights f, predicted_sum f, prompt_sum f)) (flight_run demo_flights (cfleet_new 1 4 demo_config)) =
    Some ([Over, Over], 2, 6)" by code_simp
  then obtain f where f: "flight_run demo_flights (cfleet_new 1 4 demo_config) = Some f" "flights f = [Over, Over]"
    "predicted_sum f = 2" "prompt_sum f = 6" by auto
  have F: "prompts_of demo_flights = {[1, 2, 3], [1, 2, 4]}" by (simp add: demo_flights_def)
  have "chain_family (prompts_of demo_flights)" unfolding F by code_simp
  moreover have "card (\<Union>hs\<in>prompts_of demo_flights. set hs) \<le> min (block_budget demo_config) 4"
    unfolding F by (simp add: demo_config_def insert_commute)
  ultimately have "predicted_sum f = reported_sum f"
    using concurrent_books_agree[OF f(1)] f(2) by (simp add: demo_config_def)
  with f show ?thesis by simp
qed

end
