(* ===== verification/Router_System.thy ===== *)
theory Router_System
  imports Router_Props
begin

text \<open>
  The tasks of \<open>server.rs\<close> side by side. The state is the scheduler behind its mutex and one program
  counter per request; a step is one critical section of one task, or one pass of the prober,
  in any order. What a replica answers is not determined.
\<close>

subsection \<open>Tasks\<close>

text \<open>How a call ended: with a response or an error of the application, or in transport.\<close>

datatype call_end = Done | TransportFailure

text \<open>
  A unary task is in its attempt 0 or 1: about to decide, awaiting replica \<open>i\<close>, or about to mark it
  unhealthy after it was completed. A streaming task decides once; if its stream cannot be
  opened it marks the replica unhealthy first and completes after that.
\<close>

datatype task =
  Deciding "u64 list" nat
  | Awaiting "u64 list" nat usize
  | Marking "u64 list" nat usize
  | StreamDeciding "u64 list"
  | Streaming usize
  | StreamMarking usize
  | StreamCompleting usize
  | Finished

type_synonym system = "scheduler \<times> task list"

text \<open>The task's next state after its call ended, and after it marked the replica.\<close>

fun after_call :: "u64 list \<Rightarrow> nat \<Rightarrow> usize \<Rightarrow> call_end \<Rightarrow> task" where
  "after_call hs a i Done = Finished"
| "after_call hs a i TransportFailure = Marking hs a i"

definition after_mark :: "u64 list \<Rightarrow> nat \<Rightarrow> task" where
  "after_mark hs a = (if a = 0 then Deciding hs 1 else Finished)"

inductive task_step :: "scheduler \<Rightarrow> task \<Rightarrow> scheduler \<Rightarrow> task \<Rightarrow> bool" where
  no_replica: "pick s hs = Some (s', Inl e) \<Longrightarrow> task_step s (Deciding hs a) s' Finished"
| decided: "pick s hs = Some (s', Inr d) \<Longrightarrow> task_step s (Deciding hs a) s' (Awaiting hs a (replica d))"
| completed: "complete s i = Some s' \<Longrightarrow> task_step s (Awaiting hs a i) s' (after_call hs a i e)"
| marked: "mark_unhealthy s i = Some s' \<Longrightarrow> task_step s (Marking hs a i) s' (after_mark hs a)"
| stream_no_replica: "pick s hs = Some (s', Inl e) \<Longrightarrow> task_step s (StreamDeciding hs) s' Finished"
| stream_decided: "pick s hs = Some (s', Inr d) \<Longrightarrow> task_step s (StreamDeciding hs) s' (Streaming (replica d))"
| stream_completed: "complete s i = Some s' \<Longrightarrow> task_step s (Streaming i) s' Finished"
| stream_unopened: "task_step s (Streaming i) s (StreamMarking i)"
| stream_marked: "mark_unhealthy s i = Some s' \<Longrightarrow> task_step s (StreamMarking i) s' (StreamCompleting i)"
| stream_closed: "complete s i = Some s' \<Longrightarrow> task_step s (StreamCompleting i) s' Finished"

inductive_simps task_step_finished [simp]: "task_step s Finished s' t'"
inductive_cases task_stepE: "task_step s t s' t'"

text \<open>New requests arrive at any time, and the prober may run between any two steps.\<close>

inductive sys_step :: "system \<Rightarrow> system \<Rightarrow> bool" where
  arrive: "t = Deciding hs 0 \<or> t = StreamDeciding hs \<Longrightarrow> sys_step (s, ts) (s, ts @ [t])"
| run: "k < length ts \<Longrightarrow> task_step s (ts ! k) s' t' \<Longrightarrow> sys_step (s, ts) (s', ts[k := t'])"
| probe: "apply_probes results s 0 = Some (s', n) \<Longrightarrow> sys_step (s, ts) (s', ts)"

inductive reachable :: "usize \<Rightarrow> policy \<Rightarrow> scheduler_config \<Rightarrow> system \<Rightarrow> bool" for n pol c where
  start: "reachable n pol c (scheduler_new n pol c, [])"
| step: "reachable n pol c x \<Longrightarrow> sys_step x y \<Longrightarrow> reachable n pol c y"

subsection \<open>Invariant\<close>

text \<open>The replica a task has a request in flight on.\<close>

fun holds :: "task \<Rightarrow> usize option" where
  "holds (Awaiting hs a i) = Some i"
| "holds (Streaming i) = Some i"
| "holds (StreamMarking i) = Some i"
| "holds (StreamCompleting i) = Some i"
| "holds t = None"

text \<open>The replica a task will still use as an index.\<close>

fun refers :: "task \<Rightarrow> usize option" where
  "refers (Marking hs a i) = Some i"
| "refers t = holds t"

definition outstanding :: "task list \<Rightarrow> usize \<Rightarrow> nat" where
  "outstanding ts i = length (filter (\<lambda>t. holds t = Some i) ts)"

definition sys_inv :: "usize \<Rightarrow> system \<Rightarrow> bool" where
  "sys_inv n x =
     (sched_inv (fst x) \<and> length (replicas (fst x)) = n \<and>
      (\<forall>t\<in>set (snd x). \<forall>i. refers t = Some i \<longrightarrow> i < n) \<and>
      (\<forall>i<n. inflight (replicas (fst x) ! i) \<le> outstanding (snd x) i))"

lemma filter_update_count:
  assumes "k < length ts"
  shows "outstanding (ts[k := t']) i + (if holds (ts ! k) = Some i then 1 else 0) =
    outstanding ts i + (if holds t' = Some i then 1 else 0)"
  using assms
proof (induction ts arbitrary: k)
  case Nil
  then show ?case by simp
next
  case (Cons t ts)
  then show ?case by (cases k) (auto simp: outstanding_def)
qed

text \<open>What a step of a task does to the counts of the scheduler, against what the task holds.\<close>

lemma complete_counts:
  assumes "complete s i = Some s'"
  shows "i < length (replicas s)" and "length (replicas s') = length (replicas s)"
    and "inflight (replicas s' ! j) = (if j = i then inflight (replicas s ! j) - 1 else inflight (replicas s ! j))"
  using assms by (auto simp: complete_def bind_eq_Some_conv vec_get_def nth_list_update split: if_splits)

lemma mark_unhealthy_counts:
  assumes "mark_unhealthy s i = Some s'"
  shows "i < length (replicas s)" and "length (replicas s') = length (replicas s)"
    and "inflight (replicas s' ! j) = (if j = i then 0 else inflight (replicas s ! j))"
  using assms by (auto simp: mark_unhealthy_def bind_eq_Some_conv vec_get_def nth_list_update split: if_splits)

lemma pick_counts:
  assumes "pick s hs = Some (s', Inr d)"
  shows "replica d < length (replicas s)"
    and "inflight (replicas s' ! j) = (if j = replica d then inflight (replicas s ! j) + 1 else inflight (replicas s ! j))"
  using pick_decision[OF assms] decides_available[of s hs "replica d" "matched_blocks d"]
  by (auto simp: nth_list_update routed_def)

lemma pick_error_same: "pick s hs = Some (s', Inl e) \<Longrightarrow> s' = s"
  by (rule pick_cases[of s hs]) auto

text \<open>What a step of a task does to the counts of the scheduler, against what the task holds.\<close>

definition hold :: "task \<Rightarrow> usize \<Rightarrow> nat" where
  "hold t i = (if holds t = Some i then 1 else 0)"

definition step_ok :: "scheduler \<Rightarrow> task \<Rightarrow> scheduler \<Rightarrow> task \<Rightarrow> bool" where
  "step_ok s t s' t' =
     (sched_inv s' \<and> length (replicas s') = length (replicas s) \<and>
      (\<forall>i. refers t' = Some i \<longrightarrow> i < length (replicas s)) \<and>
      (\<forall>i<length (replicas s). inflight (replicas s' ! i) \<le> inflight (replicas s ! i) + hold t' i - hold t i))"

lemma task_step_ok:
  assumes "task_step s t s' t'" and inv: "sched_inv s" and range: "\<forall>i. refers t = Some i \<longrightarrow> i < length (replicas s)"
  shows "step_ok s t s' t'"
  using assms(1)
proof cases
  case (no_replica hs e a)
  with inv pick_error_same[of s hs s' e] show ?thesis by (simp add: step_ok_def hold_def)
next
  case (decided hs d a)
  with sched_inv_pick[OF inv] pick_frame(1) pick_counts[of s hs s' d] show ?thesis
    by (auto simp: step_ok_def hold_def)
next
  case (completed i hs a e)
  with sched_inv_complete[OF inv] complete_counts[of s i s'] show ?thesis
    by (cases e) (auto simp: step_ok_def hold_def)
next
  case (marked i hs a)
  with sched_inv_mark_unhealthy[OF inv] mark_unhealthy_counts[of s i s'] show ?thesis
    by (auto simp: step_ok_def hold_def after_mark_def)
next
  case (stream_no_replica hs e)
  with inv pick_error_same[of s hs s' e] show ?thesis by (simp add: step_ok_def hold_def)
next
  case (stream_decided hs d)
  with sched_inv_pick[OF inv] pick_frame(1) pick_counts[of s hs s' d] show ?thesis
    by (auto simp: step_ok_def hold_def)
next
  case (stream_completed i)
  with sched_inv_complete[OF inv] complete_counts[of s i s'] show ?thesis
    by (auto simp: step_ok_def hold_def)
next
  case (stream_unopened i)
  with inv range show ?thesis by (simp add: step_ok_def hold_def)
next
  case (stream_marked i)
  with sched_inv_mark_unhealthy[OF inv] mark_unhealthy_counts[of s i s'] show ?thesis
    by (auto simp: step_ok_def hold_def)
next
  case (stream_closed i)
  with sched_inv_complete[OF inv] complete_counts[of s i s'] show ?thesis
    by (auto simp: step_ok_def hold_def)
qed

lemma outstanding_update:
  assumes "k < length ts"
  shows "outstanding (ts[k := t']) i + hold (ts ! k) i = outstanding ts i + hold t' i"
  using filter_update_count[OF assms] by (simp add: hold_def)

lemma sys_inv_run:
  assumes inv: "sys_inv n (s, ts)" and k: "k < length ts" and step: "task_step s (ts ! k) s' t'"
  shows "sys_inv n (s', ts[k := t'])"
proof -
  from inv have s: "sched_inv s" "length (replicas s) = n" "\<forall>t\<in>set ts. \<forall>i. refers t = Some i \<longrightarrow> i < n"
    "\<forall>i<n. inflight (replicas s ! i) \<le> outstanding ts i" by (simp_all add: sys_inv_def)
  have "ts ! k \<in> set ts" using k by simp
  with s(2,3) have "\<forall>i. refers (ts ! k) = Some i \<longrightarrow> i < length (replicas s)" by blast
  from task_step_ok[OF step s(1) this] have ok: "step_ok s (ts ! k) s' t'" .
  have "inflight (replicas s' ! i) \<le> outstanding (ts[k := t']) i" if "i < n" for i
    using ok s(2,4) that outstanding_update[OF k, of t' i] unfolding step_ok_def by fastforce
  moreover have "\<forall>t\<in>set (ts[k := t']). \<forall>i. refers t = Some i \<longrightarrow> i < n"
    using s(2,3) ok set_update_subset_insert[of ts k t'] unfolding step_ok_def by blast
  ultimately show ?thesis using ok s(2) by (simp add: sys_inv_def step_ok_def)
qed

lemma apply_probes_inv:
  "sched_inv s \<Longrightarrow> apply_probes results s m = Some (s', k) \<Longrightarrow>
    sched_inv s' \<and> length (replicas s') = length (replicas s) \<and>
    (\<forall>i. inflight (replicas s' ! i) \<le> inflight (replicas s ! i))"
proof (induction results s m rule: apply_probes.induct)
  case (1 s m)
  then show ?case by simp
next
  case (2 i alive results s m)
  from 2(5) obtain h where h: "is_healthy s i = Some h" by (auto simp: bind_eq_Some_conv)
  consider (up) s1 where "alive" "mark_healthy s i = Some s1" "apply_probes results s1 (m + 1) = Some (s', k)"
    | (down) s1 where "\<not> alive" "h" "mark_unhealthy s i = Some s1" "apply_probes results s1 m = Some (s', k)"
    | (same) "\<not> alive" "\<not> h" "apply_probes results s m = Some (s', k)"
    using 2(5) h by (auto simp: bind_eq_Some_conv split: if_splits)
  then show ?case
  proof cases
    case up
    have "inflight (replicas s1 ! j) = inflight (replicas s ! j)" "length (replicas s1) = length (replicas s)" for j
      using up(2) by (auto simp: mark_healthy_def bind_eq_Some_conv vec_get_def nth_list_update split: if_splits)
    with 2(1)[OF h up(1,2) sched_inv_mark_healthy[OF 2(4) up(2)] up(3)] show ?thesis by simp
  next
    case down
    from mark_unhealthy_counts[OF down(3)]
    have "inflight (replicas s1 ! j) \<le> inflight (replicas s ! j)" "length (replicas s1) = length (replicas s)" for j by simp_all
    with 2(2)[OF h down(1,2,3) sched_inv_mark_unhealthy[OF 2(4) down(3)] down(4)] show ?thesis
      by (metis order_trans)
  next
    case same
    with 2(3)[OF h same(1,2) 2(4) same(3)] show ?thesis by simp
  qed
qed

lemma reachable_inv: "reachable n pol c x \<Longrightarrow> sys_inv n x"
proof (induction rule: reachable.induct)
  case start
  show ?case using sched_inv_new[of n pol c]
    by (simp add: sys_inv_def outstanding_def) (simp add: scheduler_new_def new_replica_def)
next
  case (step x y)
  from step(2,3) show ?case
  proof cases
    case (arrive t hs s ts)
    with step(3) show ?thesis by (auto simp: sys_inv_def outstanding_def)
  next
    case (run k ts s s' t')
    with sys_inv_run step(3) show ?thesis by simp
  next
    case (probe results s s' m ts)
    with apply_probes_inv[of s results 0 s' m] step(3) show ?thesis
      by (auto simp: sys_inv_def intro: order_trans)
  qed
qed

lemma task_step_cfg: "task_step s t s' t' \<Longrightarrow> cfg s' = cfg s"
  by (induction rule: task_step.induct)
    (auto simp: complete_def mark_unhealthy_def bind_eq_Some_conv dest: pick_frame(3))

lemma apply_probes_cfg: "apply_probes results s m = Some (s', k) \<Longrightarrow> cfg s' = cfg s"
  by (induction results s m rule: apply_probes.induct)
    (force simp: bind_eq_Some_conv mark_healthy_def mark_unhealthy_def split: if_splits)+

lemma reachable_cfg: "reachable n pol c x \<Longrightarrow> cfg (fst x) = c"
proof (induction rule: reachable.induct)
  case start
  show ?case by (simp add: scheduler_new_def)
next
  case (step x y)
  from step(2,3) show ?case by cases (auto dest: task_step_cfg apply_probes_cfg)
qed

subsection \<open>Progress\<close>

text \<open>The number of steps a task can still take.\<close>

fun rank :: "task \<Rightarrow> nat" where
  "rank (Deciding hs a) = (if a = 0 then 6 else 3)"
| "rank (Awaiting hs a i) = (if a = 0 then 5 else 2)"
| "rank (Marking hs a i) = (if a = 0 then 4 else 1)"
| "rank (StreamDeciding hs) = 4"
| "rank (Streaming i) = 3"
| "rank (StreamMarking i) = 2"
| "rank (StreamCompleting i) = 1"
| "rank Finished = 0"

lemma rank_after_call: "rank (after_call hs a i e) < rank (Awaiting hs a i)"
  by (cases e) simp_all

lemma task_step_rank: "task_step s t s' t' \<Longrightarrow> rank t' < rank t"
  by (induction rule: task_step.induct) (use rank_after_call in \<open>simp_all add: after_mark_def\<close>)

lemma complete_total: "i < length (replicas s) \<Longrightarrow> \<exists>s'. complete s i = Some s'"
  by (simp add: complete_def vec_get_def)

lemma mark_unhealthy_total: "i < length (replicas s) \<Longrightarrow> \<exists>s'. mark_unhealthy s i = Some s'"
  by (simp add: mark_unhealthy_def vec_get_def)

lemma decide_total:
  obtains s' e where "pick s hs = Some (s', Inl e)" | s' d where "pick s hs = Some (s', Inr d)"
  using pick_total[of s hs] by (metis sum.exhaust)

lemma task_can_step:
  assumes "t \<noteq> Finished" and "\<forall>i. refers t = Some i \<longrightarrow> i < length (replicas s)"
  shows "\<exists>s' t'. task_step s t s' t'"
proof (cases t)
  case (Deciding hs a)
  then show ?thesis by (rule_tac decide_total[of s hs]) (blast intro: task_step.intros)+
next
  case (StreamDeciding hs)
  then show ?thesis by (rule_tac decide_total[of s hs]) (blast intro: task_step.intros)+
next
  case (Awaiting hs a i)
  with assms(2) complete_total[of i s] show ?thesis by (auto intro: task_step.intros)
next
  case (Marking hs a i)
  with assms(2) mark_unhealthy_total[of i s] show ?thesis by (auto intro: task_step.intros)
next
  case (Streaming i)
  then show ?thesis by (auto intro: task_step.intros)
next
  case (StreamMarking i)
  with assms(2) mark_unhealthy_total[of i s] show ?thesis by (auto intro: task_step.intros)
next
  case (StreamCompleting i)
  with assms(2) complete_total[of i s] show ?thesis by (auto intro: task_step.intros)
qed (use assms(1) in simp)

subsection \<open>Properties\<close>

text \<open>C8. Under any interleaving of requests, answers and prober passes: every replica stays within its
  block budget and its cap, its in-flight count never exceeds the number of requests that are
  really in flight on it, and when all requests are finished every count is zero. No count
  leaks.\<close>

theorem concurrent_inflight_safe:
  assumes "reachable n pol c (s, ts)" and "i < n"
  shows "num_blocks (cache (replicas s ! i)) \<le> block_budget c \<and> inflight (replicas s ! i) \<le> max_inflight c \<and>
    inflight (replicas s ! i) \<le> outstanding ts i \<and>
    (list_all (\<lambda>t. t = Finished) ts \<longrightarrow> inflight (replicas s ! i) = 0)"
proof -
  have inv: "sched_inv s" "length (replicas s) = n" "inflight (replicas s ! i) \<le> outstanding ts i"
    using reachable_inv[OF assms(1)] assms(2) by (simp_all add: sys_inv_def)
  have "cfg s = c" using reachable_cfg[OF assms(1)] by simp
  with sched_inv_nth[OF inv(1), of i] inv(2) assms(2) have "replica_inv c (replicas s ! i)" by simp
  moreover have "list_all (\<lambda>t. t = Finished) ts \<Longrightarrow> outstanding ts i = 0"
    by (induction ts) (simp_all add: outstanding_def)
  ultimately show ?thesis using inv(3) by (auto simp: replica_inv_def)
qed

lemma one_request_reachable: "\<exists>s. reachable 1 CacheAware demo_config (s, [Awaiting [] 0 0])"
proof -
  let ?s = "scheduler_new 1 CacheAware demo_config"
  have r1: "reachable 1 CacheAware demo_config (?s, [Deciding [] 0])"
    using reachable.step[OF reachable.start sys_step.arrive[of "Deciding [] 0" "[]" ?s "[]"]] by simp
  have "picked ?s [] = Some (0, 0)" by code_simp
  then obtain s' d where p: "pick ?s [] = Some (s', Inr d)" "replica d = 0" using picked_Some by blast
  have "sys_step (?s, [Deciding [] 0]) (s', [Awaiting [] 0 0])"
    using sys_step.run[of 0 "[Deciding [] 0]" ?s s' "Awaiting [] 0 (replica d)"] task_step.decided[OF p(1)] p(2) by simp
  from reachable.step[OF r1 this] show ?thesis by blast
qed

theorem concurrent_inflight_safe_witness:
  "\<exists>s. reachable 1 CacheAware demo_config (s, [Awaiting [] 0 0]) \<and> inflight (replicas s ! 0) \<le> 1"
proof -
  from one_request_reachable obtain s where s: "reachable 1 CacheAware demo_config (s, [Awaiting [] 0 0])" ..
  from concurrent_inflight_safe[OF s, of 0] s show ?thesis by (auto simp: outstanding_def)
qed

text \<open>C33. No request gets stuck and none runs for ever: in every reachable state every unfinished
  task has a next step, which never panics, and a task takes at most six steps, so two
  decisions and two calls at most, whatever the others do in between.\<close>

theorem tasks_finish:
  assumes "reachable n pol c (s, ts)" and "k < length ts" and "ts ! k \<noteq> Finished"
  shows "(\<exists>s' t'. task_step s (ts ! k) s' t') \<and>
    (\<forall>s' t'. task_step s (ts ! k) s' t' \<longrightarrow> rank t' < rank (ts ! k)) \<and> rank (ts ! k) \<le> 6"
proof -
  have mem: "ts ! k \<in> set ts" using assms(2) by simp
  have "\<forall>i. refers (ts ! k) = Some i \<longrightarrow> i < length (replicas s)"
    using reachable_inv[OF assms(1)] mem by (auto simp: sys_inv_def)
  with task_can_step[OF assms(3)] have "\<exists>s' t'. task_step s (ts ! k) s' t'" by blast
  moreover have "rank (ts ! k) \<le> 6" by (cases "ts ! k") simp_all
  ultimately show ?thesis using task_step_rank by blast
qed

theorem tasks_finish_witness:
  "\<exists>s s' t'. reachable 1 CacheAware demo_config (s, [Awaiting [] 0 0]) \<and> task_step s (Awaiting [] 0 0) s' t' \<and> rank t' < 5"
proof -
  from one_request_reachable obtain s where s: "reachable 1 CacheAware demo_config (s, [Awaiting [] 0 0])" ..
  have "(\<exists>s' t'. task_step s (Awaiting [] 0 0) s' t') \<and>
    (\<forall>s' t'. task_step s (Awaiting [] 0 0) s' t' \<longrightarrow> rank t' < 5)"
    using tasks_finish[OF s, of 0] by simp
  with s show ?thesis by blast
qed

end
