(* ===== verification/Handler_Runs.thy ===== *)
theory Handler_Runs
  imports Router_System "HOL-Library.Multiset"
begin

text \<open>
  The handlers of \<open>Router_Server\<close> are functions that see other tasks only while they await a
  replica; \<open>Router_System\<close> lets the critical sections of all tasks interleave freely. Here the first
  is shown to refine the second: whatever a handler does, with whatever other tasks do while it
  awaits, is a sequence of steps of the system, so what holds in all reachable states of the system
  holds between the handlers too.
\<close>

subsection \<open>Runs of the system, over a multiset of tasks\<close>

definition runs :: "scheduler \<Rightarrow> task multiset \<Rightarrow> scheduler \<Rightarrow> task multiset \<Rightarrow> bool" where
  "runs s M s' M' = (\<exists>ts ts'. mset ts = M \<and> mset ts' = M' \<and> sys_step\<^sup>*\<^sup>* (s, ts) (s', ts'))"

lemma sys_step_permuted:
  assumes "sys_step (s, ts) (s', ts')" and "mset us = mset ts"
  shows "\<exists>us'. sys_step (s, us) (s', us') \<and> mset us' = mset ts'"
  using assms(1)
proof cases
  case (arrive t hs)
  with assms(2) show ?thesis by (intro exI[of _ "us @ [t]"]) (auto intro: sys_step.arrive)
next
  case (run k t')
  from run(2) assms(2) have "ts ! k \<in> set us" by (metis nth_mem mset_eq_setD)
  then obtain j where j: "j < length us" "us ! j = ts ! k" by (auto simp: in_set_conv_nth)
  with run have "sys_step (s, us) (s', us[j := t'])" by (intro sys_step.run) simp_all
  moreover have "mset (us[j := t']) = mset ts'" unfolding run(1) Multiset.mset_update[OF run(2)] Multiset.mset_update[OF j(1)] j(2) assms(2) ..
  ultimately show ?thesis by blast
next
  case (probe results m)
  with assms(2) show ?thesis by (auto intro: sys_step.probe)
qed

lemma sys_steps_permuted:
  assumes "sys_step\<^sup>*\<^sup>* x y" and "mset us = mset (snd x)"
  shows "\<exists>us'. sys_step\<^sup>*\<^sup>* (fst x, us) (fst y, us') \<and> mset us' = mset (snd y)"
  using assms
proof (induction rule: rtranclp_induct)
  case (step y z)
  then obtain us' where us': "sys_step\<^sup>*\<^sup>* (fst x, us) (fst y, us')" "mset us' = mset (snd y)" by blast
  with step(2) sys_step_permuted[of "fst y" "snd y" "fst z" "snd z" us']
  obtain vs where "sys_step (fst y, us') (fst z, vs)" "mset vs = mset (snd z)" by auto
  with us'(1) show ?case by (meson rtranclp.rtrancl_into_rtrancl)
qed blast

lemma runs_refl [simp]: "runs s M s M"
  using ex_mset[of M] by (auto simp: runs_def)

lemma runs_trans [trans]:
  assumes "runs s M s1 M1" and "runs s1 M1 s2 M2"
  shows "runs s M s2 M2"
proof -
  from assms obtain ts ts1 us1 us2 where 1: "mset ts = M" "mset ts1 = M1" "sys_step\<^sup>*\<^sup>* (s, ts) (s1, ts1)"
    and 2: "mset us1 = M1" "mset us2 = M2" "sys_step\<^sup>*\<^sup>* (s1, us1) (s2, us2)"
    unfolding runs_def by blast
  from sys_steps_permuted[OF 2(3), of ts1] 1(2) 2(1,2)
  obtain vs where "sys_step\<^sup>*\<^sup>* (s1, ts1) (s2, vs)" "mset vs = M2" by auto
  moreover from this(1) 1(3) have "sys_step\<^sup>*\<^sup>* (s, ts) (s2, vs)" by (rule rtranclp_trans[rotated])
  ultimately show ?thesis using 1(1) unfolding runs_def by blast
qed

lemma runs_step: "sys_step (s, ts) (s', ts') \<Longrightarrow> runs s (mset ts) s' (mset ts')"
  unfolding runs_def by blast

lemma runs_task:
  assumes "task_step s t s' t'"
  shows "runs s (add_mset t M) s' (add_mset t' M)"
proof -
  obtain ts where ts: "mset ts = M" using ex_mset by blast
  have "sys_step (s, t # ts) (s', (t # ts)[0 := t'])" by (rule sys_step.run) (simp_all add: assms)
  from runs_step[OF this] ts show ?thesis by simp
qed

lemma runs_arrive: "t = Deciding hs 0 \<or> t = StreamDeciding hs \<Longrightarrow> runs s M s (add_mset t M)"
  using ex_mset[of M] runs_step[OF sys_step.arrive, of t hs s] by force

lemma runs_probe: "apply_probes results s 0 = Some (s', m) \<Longrightarrow> runs s M s' M"
  using ex_mset[of M] runs_step[OF sys_step.probe] by blast

lemma sys_step_more: "sys_step (s, ts) (s', ts') \<Longrightarrow> sys_step (s, us @ ts) (s', us @ ts')"
proof (induction "(s, ts)" "(s', ts')" rule: sys_step.induct)
  case (arrive t hs)
  then show ?case using sys_step.arrive[of t hs s "us @ ts"] by auto
next
  case (run k t')
  then show ?case using sys_step.run[of "length us + k" "us @ ts" s s' t'] by (auto simp: list_update_append)
next
  case (probe results n)
  then show ?case by (auto intro: sys_step.probe)
qed

lemma sys_steps_more: "sys_step\<^sup>*\<^sup>* x y \<Longrightarrow> sys_step\<^sup>*\<^sup>* (fst x, us @ snd x) (fst y, us @ snd y)"
proof (induction rule: rtranclp_induct)
  case (step y z)
  then show ?case using sys_step_more[of "fst y" "snd y" "fst z" "snd z" us] by (auto intro: rtranclp.rtrancl_into_rtrancl)
qed simp

lemma runs_frame:
  assumes "runs s M s' M'"
  shows "runs s (F + M) s' (F + M')"
proof -
  from assms obtain ts ts' where "mset ts = M" "mset ts' = M'" "sys_step\<^sup>*\<^sup>* (s, ts) (s', ts')"
    unfolding runs_def by blast
  moreover obtain us where "mset us = F" using ex_mset by blast
  ultimately have "mset (us @ ts) = F + M" "mset (us @ ts') = F + M'" "sys_step\<^sup>*\<^sup>* (s, us @ ts) (s', us @ ts')"
    using sys_steps_more[of "(s, ts)" "(s', ts')" us] by simp_all
  then show ?thesis unfolding runs_def by blast
qed

lemmas runs_frame1 = runs_frame[of s M s' M' "{#t#}" for s M s' M' t, simplified]

subsection \<open>The handlers\<close>

text \<open>Awaiting a call: other tasks run. \<open>others\<close> gives the tasks that the rest of the state stands for.\<close>

definition interleaves :: "('w \<Rightarrow> task multiset) \<Rightarrow> (usize \<Rightarrow> model_infer_request \<Rightarrow> router_inner \<times> 'w \<Rightarrow> (router_inner \<times> 'w) \<times> 'a) \<Rightarrow> bool" where
  "interleaves others up =
     (\<forall>i req r w r' w' res. up i req (r, w) = ((r', w'), res) \<longrightarrow> runs (sched r) (others w) (sched r') (others w'))"

lemma interleavesD:
  "interleaves others up \<Longrightarrow> up i req (r, w) = ((r', w'), res) \<Longrightarrow> runs (sched r) (others w) (sched r') (others w')"
  unfolding interleaves_def by blast

lemma pick_replica_sched:
  assumes "pick_replica r hs = Some (r', res)"
  obtains (error) e where "pick (sched r) hs = Some (sched r', Inl e)" "res = Inl (pick_status e)"
  | (routed) d where "pick (sched r) hs = Some (sched r', Inr d)" "res = Inr d"
proof -
  from assms obtain s picked where p: "pick (sched r) hs = Some (s, picked)"
    by (auto simp: pick_replica_def bind_eq_Some_conv)
  show thesis
    using assms p error routed by (cases picked) (auto simp: pick_replica_def set_gauge_def bind_eq_Some_conv Let_def split: if_splits)
qed

lemma router_complete_sched: "router_complete r i = Some r' \<Longrightarrow> complete (sched r) i = Some (sched r')"
  by (auto simp: router_complete_def set_gauge_def bind_eq_Some_conv split: if_splits)

lemma router_mark_unhealthy_sched: "router_mark_unhealthy r i = Some r' \<Longrightarrow> mark_unhealthy (sched r) i = Some (sched r')"
  by (auto simp: router_mark_unhealthy_def bind_eq_Some_conv)

text \<open>One attempt runs from its decision to the end of its call; how the task goes on depends on the
  call's result.\<close>

lemma attempt_runs:
  assumes "interleaves others up" and "attempt up req hs (r, w) = Some ((r', w'), out)"
  shows "(case out of
      Inl st \<Rightarrow> runs (sched r) (add_mset (Deciding hs a) (others w)) (sched r') (add_mset Finished (others w'))
    | Inr (d, res) \<Rightarrow> \<forall>e. runs (sched r) (add_mset (Deciding hs a) (others w)) (sched r')
        (add_mset (after_call hs a (replica d) e) (others w')))"
proof -
  from assms(2) obtain r1 picked where p: "pick_replica r hs = Some (r1, picked)"
    by (auto simp: attempt_def bind_eq_Some_conv)
  from p show ?thesis
  proof (cases rule: pick_replica_sched)
    case (error e)
    with p assms(2) have "r' = r1" "w' = w" "out = Inl (pick_status e)" by (simp_all add: attempt_def)
    with error show ?thesis by (auto intro: runs_task task_step.no_replica)
  next
    case (routed d)
    obtain r2 w2 res where up: "up (replica d) req (r1, w) = ((r2, w2), res)" by (metis prod.exhaust)
    with p routed assms(2) have c: "router_complete r2 (replica d) = Some r'" "w' = w2" "out = Inr (d, res)"
      by (auto simp: attempt_def bind_eq_Some_conv)
    have "runs (sched r) (add_mset (Deciding hs a) (others w)) (sched r1) (add_mset (Awaiting hs a (replica d)) (others w))"
      by (rule runs_task) (rule task_step.decided[OF routed(1)])
    also have "runs (sched r1) (add_mset (Awaiting hs a (replica d)) (others w)) (sched r2) (add_mset (Awaiting hs a (replica d)) (others w2))"
      by (rule runs_frame1) (rule interleavesD[OF assms(1) up])
    finally have "runs (sched r) (add_mset (Deciding hs a) (others w)) (sched r2) (add_mset (Awaiting hs a (replica d)) (others w2))" .
    moreover have "runs (sched r2) (add_mset (Awaiting hs a (replica d)) (others w2)) (sched r')
        (add_mset (after_call hs a (replica d) e) (others w'))" for e
      unfolding c(2) by (rule runs_task) (rule task_step.completed[OF router_complete_sched[OF c(1)]])
    ultimately show ?thesis by (auto simp: c(3) intro: runs_trans)
  qed
qed

lemma mark_runs:
  assumes "router_mark_unhealthy r i = Some r'"
  shows "runs (sched r) (add_mset (Marking hs a i) M) (sched r') (add_mset (after_mark hs a) M)"
  by (rule runs_task) (rule task_step.marked[OF router_mark_unhealthy_sched[OF assms]])

lemma last_attempt_runs:
  assumes up: "interleaves others up" and run: "last_attempt code_text up req hs (r, w) = Some ((r', w'), out)"
  shows "runs (sched r) (add_mset (Deciding hs 1) (others w)) (sched r') (add_mset Finished (others w'))"
proof -
  obtain r1 w1 second where a1: "attempt up req hs (r, w) = Some ((r1, w1), second)"
    using run by (auto simp: last_attempt_def bind_eq_Some_conv)
  note 1 = attempt_runs[OF up a1, of 1]
  show ?thesis
  proof (cases "\<exists>d st. second = Inr (d, Inl st) \<and> is_transport_failure st")
    case False
    with run a1 have same: "sched r' = sched r1" "w' = w1"
      by (auto simp: last_attempt_def split: sum.splits prod.splits if_splits)
    show ?thesis
    proof (cases second)
      case (Inr x)
      with 1 same show ?thesis by (cases x) (auto dest: spec[of _ Done])
    qed (use 1 same in simp)
  next
    case True
    then obtain d st where second: "second = Inr (d, Inl st)" "is_transport_failure st" by blast
    with run a1 have m: "router_mark_unhealthy r1 (replica d) = Some r'" "w' = w1"
      by (auto simp: last_attempt_def bind_eq_Some_conv)
    from 1 second have "runs (sched r) (add_mset (Deciding hs 1) (others w)) (sched r1)
        (add_mset (Marking hs 1 (replica d)) (others w1))" by (auto dest: spec[of _ TransportFailure])
    from runs_trans[OF this mark_runs[OF m(1)]] show ?thesis by (simp add: m(2) after_mark_def)
  qed
qed

lemma model_infer_runs:
  assumes up: "interleaves others up" and run: "model_infer_attempts tok code_text up req (r, w) = Some ((r', w'), out)"
  shows "\<exists>n\<le>1. runs (sched r) (others w) (sched r') (replicate_mset n Finished + others w')"
proof (cases "request_hashes tok req")
  case (Inl st)
  with run have "r' = r" "w' = w" by (simp_all add: model_infer_attempts_hashes)
  then show ?thesis by (intro exI[of _ 0]) simp
next
  case (Inr hs)
  obtain r1 w1 first where a1: "attempt up req hs (r, w) = Some ((r1, w1), first)"
    using run Inr by (auto simp: model_infer_attempts_hashes bind_eq_Some_conv)
  note 1 = attempt_runs[OF up a1, of 0]
  have "runs (sched r) (add_mset (Deciding hs 0) (others w)) (sched r') (add_mset Finished (others w'))"
  proof (cases "\<exists>d st. first = Inr (d, Inl st) \<and> is_transport_failure st")
    case False
    with run Inr a1 have same: "sched r' = sched r1" "w' = w1"
      by (auto simp: model_infer_attempts_hashes split: sum.splits prod.splits if_splits)
    show ?thesis
    proof (cases first)
      case (Inr x)
      with 1 same show ?thesis by (cases x) (auto dest: spec[of _ Done])
    qed (use 1 same in simp)
  next
    case True
    then obtain d st where first: "first = Inr (d, Inl st)" "is_transport_failure st" by blast
    with run Inr a1 obtain r2 where m: "router_mark_unhealthy r1 (replica d) = Some r2"
      and last: "last_attempt code_text up req hs (r2, w1) = Some ((r', w'), out)"
      by (auto simp: model_infer_attempts_hashes bind_eq_Some_conv)
    from 1 first have "runs (sched r) (add_mset (Deciding hs 0) (others w)) (sched r1)
        (add_mset (Marking hs 0 (replica d)) (others w1))" by (auto dest: spec[of _ TransportFailure])
    also note mark_runs[OF m, of hs 0 "others w1"]
    finally show ?thesis using last_attempt_runs[OF up last] by (simp add: after_mark_def runs_trans)
  qed
  with runs_arrive[of "Deciding hs 0" hs "sched r" "others w"] show ?thesis
    by (intro exI[of _ 1]) (auto intro: runs_trans)
qed

text \<open>A client stream is one task after the other, one for each request that reaches a decision.\<close>

lemma stream_request_runs:
  assumes up: "interleaves others up" and run: "stream_request tok code_text up req (r, w) tx = Some ((r', w'), tx', stop)"
  shows "\<exists>n\<le>1. runs (sched r) (others w) (sched r') (replicate_mset n Finished + others w')"
proof (cases "request_hashes tok req")
  case (Inl st)
  with run have "r' = r" "w' = w" by (simp_all add: stream_request_hashes)
  then show ?thesis by (intro exI[of _ 0]) simp
next
  case (Inr hs)
  from run Inr obtain r1 picked where p: "pick_replica r hs = Some (r1, picked)"
    by (auto simp: stream_request_hashes bind_eq_Some_conv)
  from p have "runs (sched r) (add_mset (StreamDeciding hs) (others w)) (sched r') (add_mset Finished (others w'))"
  proof (cases rule: pick_replica_sched)
    case (error e)
    with p run Inr have "r' = r1" "w' = w" by (simp_all add: stream_request_hashes)
    with error show ?thesis by (auto intro: runs_task task_step.stream_no_replica)
  next
    case (routed d)
    let ?i = "replica d"
    obtain r2 w2 opened where u: "up ?i req (record_served r1 (length hs) d, w) = ((r2, w2), opened)" by (metis prod.exhaust)
    have "runs (sched r) (add_mset (StreamDeciding hs) (others w)) (sched r1) (add_mset (Streaming ?i) (others w))"
      by (rule runs_task) (rule task_step.stream_decided[OF routed(1)])
    also have "runs (sched r1) (add_mset (Streaming ?i) (others w)) (sched r2) (add_mset (Streaming ?i) (others w2))"
      using runs_frame1[OF interleavesD[OF up u], of "Streaming ?i"] by (simp add: record_served_def)
    finally have served: "runs (sched r) (add_mset (StreamDeciding hs) (others w)) (sched r2) (add_mset (Streaming ?i) (others w2))" .
    show ?thesis
    proof (cases "\<exists>st. opened = Inl st \<and> is_transport_failure st")
      case False
      with run Inr p routed u have c: "router_complete r2 ?i = Some r'" "w' = w2"
        by (auto simp: stream_request_hashes bind_eq_Some_conv split: sum.splits prod.splits if_splits)
      from served runs_task[OF task_step.stream_completed[OF router_complete_sched[OF c(1)]], of "others w2"]
      show ?thesis unfolding c(2) by (rule runs_trans)
    next
      case True
      with run Inr p routed u obtain r3 where m: "router_mark_unhealthy r2 ?i = Some r3"
        and c: "router_complete r3 ?i = Some r'" "w' = w2"
        by (auto simp: stream_request_hashes bind_eq_Some_conv)
      note served
      also note runs_task[OF task_step.stream_unopened, of "sched r2" ?i "others w2"]
      also note runs_task[OF task_step.stream_marked[OF router_mark_unhealthy_sched[OF m]], of "others w2"]
      also note runs_task[OF task_step.stream_closed[OF router_complete_sched[OF c(1)]], of "others w2"]
      finally show ?thesis unfolding c(2) .
    qed
  qed
  with runs_arrive[of "StreamDeciding hs" hs "sched r" "others w"] show ?thesis
    by (intro exI[of _ 1]) (auto intro: runs_trans)
qed

lemma stream_runs:
  assumes up: "interleaves others up"
  shows "model_stream_infer tok code_text up msgs (r, w) tx = Some ((r', w'), tx') \<Longrightarrow>
    \<exists>n\<le>length msgs. runs (sched r) (others w) (sched r') (replicate_mset n Finished + others w')"
proof (induction msgs arbitrary: r w tx)
  case Nil
  then show ?case by auto
next
  case (Cons msg msgs)
  show ?case
  proof (cases msg)
    case (Inl e)
    with Cons.prems show ?thesis by (intro exI[of _ 0]) simp
  next
    case (Inr req)
    with Cons.prems obtain r1 w1 tx1 stop where 1: "stream_request tok code_text up req (r, w) tx = Some ((r1, w1), tx1, stop)"
      and rest: "(if stop then Some ((r1, w1), tx1) else model_stream_infer tok code_text up msgs (r1, w1) tx1) = Some ((r', w'), tx')"
      by (auto simp: bind_eq_Some_conv)
    from stream_request_runs[OF up 1] obtain m where m: "m \<le> 1"
      "runs (sched r) (others w) (sched r1) (replicate_mset m Finished + others w1)" by blast
    have "\<exists>n\<le>length msgs. runs (sched r1) (others w1) (sched r') (replicate_mset n Finished + others w')"
      using rest Cons.IH[of r1 w1 tx1] by (cases stop) auto
    then obtain n where n: "n \<le> length msgs"
      "runs (sched r1) (others w1) (sched r') (replicate_mset n Finished + others w')" by blast
    have "replicate_mset m Finished + (replicate_mset n Finished + M) = replicate_mset (m + n) Finished + M" for M
      by (induction m) simp_all
    with runs_trans[OF m(2) runs_frame[OF n(2)]]
    have "runs (sched r) (others w) (sched r') (replicate_mset (m + n) Finished + others w')" by metis
    with m(1) n(1) show ?thesis by (intro exI[of _ "m + n"]) simp
  qed
qed

lemma probe_pass_runs: "probe_pass results r = Some r' \<Longrightarrow> runs (sched r) M (sched r') M"
  by (auto simp: probe_pass_def bind_eq_Some_conv intro: runs_probe)

subsection \<open>Refinement\<close>

text \<open>The scheduler and the tasks of a state the system can be in.\<close>

definition can_reach :: "usize \<Rightarrow> policy \<Rightarrow> scheduler_config \<Rightarrow> scheduler \<Rightarrow> task multiset \<Rightarrow> bool" where
  "can_reach n pol c s M = (\<exists>ts. mset ts = M \<and> reachable n pol c (s, ts))"

lemma reachable_steps: "sys_step\<^sup>*\<^sup>* x y \<Longrightarrow> reachable n pol c x \<Longrightarrow> reachable n pol c y"
  by (induction rule: rtranclp_induct) (auto intro: reachable.step)

lemma can_reach_runs:
  assumes "can_reach n pol c s M" and "runs s M s' M'"
  shows "can_reach n pol c s' M'"
proof -
  from assms(1) obtain ts where ts: "mset ts = M" "reachable n pol c (s, ts)" unfolding can_reach_def by blast
  from assms(2) obtain us us' where us: "mset us = M" "mset us' = M'" "sys_step\<^sup>*\<^sup>* (s, us) (s', us')"
    unfolding runs_def by blast
  from sys_steps_permuted[OF us(3), of ts] ts(1) us(1,2)
  obtain vs where "sys_step\<^sup>*\<^sup>* (s, ts) (s', vs)" "mset vs = M'" by auto
  with reachable_steps ts(2) show ?thesis unfolding can_reach_def by blast
qed

lemma can_reach_new: "can_reach n pol c (scheduler_new n pol c) {#}"
  unfolding can_reach_def by (intro exI[of _ "[]"]) (simp add: reachable.start)


text \<open>A call during which the prober passes, and a client stream without messages.\<close>

definition probed_call :: "usize \<Rightarrow> model_infer_request \<Rightarrow> router_inner \<times> unit \<Rightarrow> (router_inner \<times> unit) \<times> (status + 'a)" where
  "probed_call i req rw = ((case probe_pass [(0, False)] (fst rw) of None \<Rightarrow> fst rw | Some r \<Rightarrow> r, ()), Inl (status_of Unavailable []))"

lemma probed_call_interleaves: "interleaves (\<lambda>_. {#}) probed_call"
  by (auto simp: interleaves_def probed_call_def intro: probe_pass_runs split: option.splits)

lemma probed_call_keeps: "keeps_router probed_call"
proof -
  have "router_inv r' \<and> fleet_size r' = fleet_size r" if "router_inv r" "probe_pass results r = Some r'" for r r' results
    using that apply_probes_inv[of "sched r" results 0]
    by (auto simp: probe_pass_def bind_eq_Some_conv router_inv_def fleet_size_def num_replicas_def)
  then show ?thesis by (auto simp: keeps_router_def probed_call_def split: option.splits)
qed


end
