(* ===== verification/Health_Prober.thy ===== *)
theory Health_Prober
  imports Router_System
begin

text \<open>
  \<open>spawn_health_prober\<close> of \<open>router/src/server.rs\<close> in full: the ticker, the concurrent probes with their
  timeout, the collection of their results and the pass over the scheduler, with the requests
  that go on in the meantime. Time is a number of milliseconds; code takes no time, only waiting
  does. When the next tick is due belongs to tokio and is the parameter \<open>next_deadline\<close>.
\<close>

subsection \<open>One probe\<close>

text \<open>How the \<open>server_live\<close> call of a probe would go without a timeout: it returns after some time, never
  ends, or panics after some time.\<close>

datatype live_call = Returns nat "status + server_live_response" | Hangs | Panics nat

definition PROBE_TIMEOUT :: nat where
  "PROBE_TIMEOUT = 1000"

text \<open>\<open>timeout(1s, call).await\<close>: \<open>None\<close> is an elapsed timeout. A call that is ready at the deadline wins.\<close>

fun timed_out :: "live_call \<Rightarrow> bool" where
  "timed_out (Returns d res) = (PROBE_TIMEOUT < d)"
| "timed_out Hangs = True"
| "timed_out (Panics d) = (PROBE_TIMEOUT < d)"

fun probe_time :: "live_call \<Rightarrow> nat" where
  "probe_time (Returns d res) = min d PROBE_TIMEOUT"
| "probe_time Hangs = PROBE_TIMEOUT"
| "probe_time (Panics d) = min d PROBE_TIMEOUT"

text \<open>What joining the task of a probe gives: the pair it returns, or \<open>None\<close> for a \<open>JoinError\<close>.\<close>

definition probe_task :: "usize \<Rightarrow> live_call \<Rightarrow> (usize \<times> bool) option" where
  "probe_task i call =
     (if timed_out call then Some (i, False)
      else case call of
        Returns d (Inr resp) \<Rightarrow> Some (i, is_live resp)
      | Returns d (Inl st) \<Rightarrow> Some (i, False)
      | Hangs \<Rightarrow> Some (i, False)
      | Panics d \<Rightarrow> None)"

lemma probe_time_le: "probe_time call \<le> PROBE_TIMEOUT"
  by (cases call) simp_all

lemma probe_task_index: "probe_task i call = Some (j, alive) \<Longrightarrow> j = i"
  by (auto simp: probe_task_def split: if_splits live_call.splits sum.splits)

subsection \<open>One pass\<close>

text \<open>The tasks spawned for \<open>n\<close> replicas at time \<open>t\<close>, and the time until the last of them is joined.\<close>

definition pass_probes :: "(usize \<Rightarrow> nat \<Rightarrow> live_call) \<Rightarrow> usize \<Rightarrow> nat \<Rightarrow> (usize \<times> bool) option list" where
  "pass_probes calls n t = map (\<lambda>i. probe_task i (calls i t)) [0..<n]"

definition pass_time :: "(usize \<Rightarrow> nat \<Rightarrow> live_call) \<Rightarrow> usize \<Rightarrow> nat \<Rightarrow> nat" where
  "pass_time calls n t = foldr max (map (\<lambda>i. probe_time (calls i t)) [0..<n]) 0"

text \<open>The loop over \<open>join_next\<close>: panicked probes are skipped.\<close>

fun join_all :: "(usize \<times> bool) option list \<Rightarrow> (usize \<times> bool) list \<Rightarrow> (usize \<times> bool) list" where
  "join_all [] results = results"
| "join_all (joined # rest) results =
     join_all rest (case joined of Some pair \<Rightarrow> results @ [pair] | None \<Rightarrow> results)"

lemma pass_time_le: "pass_time calls n t \<le> PROBE_TIMEOUT"
proof -
  have "foldr max xs 0 \<le> b" if "\<forall>x\<in>set xs. x \<le> b" for xs :: "nat list" and b
    using that by (induction xs) auto
  then show ?thesis unfolding pass_time_def by (simp add: probe_time_le)
qed

lemma join_all_eq: "join_all joined results = results @ map the (filter (\<lambda>j. j \<noteq> None) joined)"
  by (induction joined arbitrary: results) (auto split: option.splits)

lemma pass_results:
  assumes "mset joined = mset (pass_probes calls n t)"
  shows "distinct (map fst (join_all joined []))" and "\<forall>j\<in>fst ` set (join_all joined []). j < n"
    and "(i, alive) \<in> set (join_all joined []) \<longleftrightarrow> i < n \<and> probe_task i (calls i t) = Some (i, alive)"
proof -
  let ?f = "filter (\<lambda>j. j \<noteq> None)" and ?p = "pass_probes calls n t"
  have index: "fst (the (probe_task i (calls i t))) = i" if "probe_task i (calls i t) \<noteq> None" for i
    using that probe_task_index by fastforce
  have "map (fst \<circ> the) (?f ?p) = filter (\<lambda>i. probe_task i (calls i t) \<noteq> None) [0..<n]"
    by (simp add: pass_probes_def filter_map o_def) (rule map_idI, simp add: index)
  then have "distinct (map (fst \<circ> the) (?f ?p))" by simp
  moreover have "mset (map (fst \<circ> the) (?f joined)) = mset (map (fst \<circ> the) (?f ?p))" by (simp add: assms)
  ultimately show "distinct (map fst (join_all joined []))"
    unfolding join_all_eq by (metis append_Nil map_map mset_eq_imp_distinct_iff)
  have "set joined = set ?p" using assms by (rule mset_eq_setD)
  then have mem: "(i, alive) \<in> set (join_all joined []) \<longleftrightarrow> Some (i, alive) \<in> set ?p" for i alive
    unfolding join_all_eq by force
  have in_probes: "Some (i, alive) \<in> set ?p \<longleftrightarrow> (\<exists>x<n. probe_task x (calls x t) = Some (i, alive))" for i alive
    unfolding in_set_conv_nth by (auto simp: pass_probes_def)
  show "(i, alive) \<in> set (join_all joined []) \<longleftrightarrow> i < n \<and> probe_task i (calls i t) = Some (i, alive)"
    unfolding mem in_probes by (blast dest: probe_task_index)
  show "\<forall>j\<in>fst ` set (join_all joined []). j < n"
    using mem in_probes by (auto dest: probe_task_index)
qed

subsection \<open>The prober among the requests\<close>

text \<open>
  The prober is between two passes, waiting for the next tick, or in a pass that started at some
  time; the gauge is the one it sets. A step is a tick, the passing of time as far as the prober
  lets it, the end of a pass, or a step of a request.
\<close>

record prober =
  now :: nat
  deadline :: nat
  pass_start :: "nat option"
  system :: system
  healthy_gauge :: int

definition spawn_prober :: "system \<Rightarrow> prober" where
  "spawn_prober sys = \<lparr>now = 0, deadline = 0, pass_start = None, system = sys, healthy_gauge = 0\<rparr>"

definition PROBE_INTERVAL :: nat where
  "PROBE_INTERVAL = 2000"

inductive prober_step :: "(usize \<Rightarrow> nat \<Rightarrow> live_call) \<Rightarrow> (nat \<Rightarrow> nat \<Rightarrow> nat) \<Rightarrow> prober \<Rightarrow> prober \<Rightarrow> bool"
  for calls next_deadline where
  tick: "pass_start x = None \<Longrightarrow> deadline x \<le> now x \<Longrightarrow>
    prober_step calls next_deadline x (x\<lparr>pass_start := Some (now x), deadline := next_deadline (deadline x) (now x)\<rparr>)"
| idle: "pass_start x = None \<Longrightarrow> now x + d \<le> deadline x \<Longrightarrow>
    prober_step calls next_deadline x (x\<lparr>now := now x + d\<rparr>)"
| probing: "pass_start x = Some t \<Longrightarrow> now x + d \<le> t + pass_time calls (num_replicas (fst (system x))) t \<Longrightarrow>
    prober_step calls next_deadline x (x\<lparr>now := now x + d\<rparr>)"
| finish: "pass_start x = Some t \<Longrightarrow> now x = t + pass_time calls (num_replicas (fst (system x))) t \<Longrightarrow>
    mset joined = mset (pass_probes calls (num_replicas (fst (system x))) t) \<Longrightarrow>
    apply_probes (join_all joined []) (fst (system x)) 0 = Some (s', healthy_count) \<Longrightarrow>
    prober_step calls next_deadline x
      (x\<lparr>pass_start := None, system := (s', snd (system x)), healthy_gauge := healthy_count\<rparr>)"
| request: "q = Deciding hs 0 \<or> q = StreamDeciding hs \<Longrightarrow>
    prober_step calls next_deadline x (x\<lparr>system := (fst (system x), snd (system x) @ [q])\<rparr>)"
| serve: "k < length (snd (system x)) \<Longrightarrow> task_step (fst (system x)) (snd (system x) ! k) s' q' \<Longrightarrow>
    prober_step calls next_deadline x (x\<lparr>system := (s', (snd (system x))[k := q'])\<rparr>)"

inductive prober_run :: "(usize \<Rightarrow> nat \<Rightarrow> live_call) \<Rightarrow> (nat \<Rightarrow> nat \<Rightarrow> nat) \<Rightarrow> prober \<Rightarrow> prober \<Rightarrow> bool"
  for calls next_deadline x where
  none: "prober_run calls next_deadline x x"
| further: "prober_run calls next_deadline x y \<Longrightarrow> prober_step calls next_deadline y z \<Longrightarrow> prober_run calls next_deadline x z"

text \<open>What tokio documents of \<open>MissedTickBehavior::Delay\<close>: the next tick is due one period after the last
  one was due if that was in time, and one period after it fired if it was late.\<close>

definition delays_ticks :: "nat \<Rightarrow> (nat \<Rightarrow> nat \<Rightarrow> nat) \<Rightarrow> bool" where
  "delays_ticks period next_deadline =
     (\<forall>due fired. due \<le> fired \<longrightarrow> due + period \<le> next_deadline due fired \<and> next_deadline due fired \<le> fired + period)"

subsection \<open>Every timed run is a run of the system\<close>

definition prober_start :: "usize \<Rightarrow> policy \<Rightarrow> scheduler_config \<Rightarrow> prober" where
  "prober_start n pol c = spawn_prober (scheduler_new n pol c, [])"

lemma prober_reachable:
  "prober_run calls next_deadline (prober_start n pol c) x \<Longrightarrow> reachable n pol c (system x)"
proof (induction rule: prober_run.induct)
  case none
  then show ?case by (simp add: prober_start_def spawn_prober_def reachable.start)
next
  case (further y z)
  obtain s ts where sys: "system y = (s, ts)" by (cases "system y")
  from further(2) have "system z = system y \<or> sys_step (system y) (system z)"
    by cases (auto simp: sys intro: sys_step.intros)
  with further(3) show ?case by (auto intro: reachable.step)
qed

lemma prober_fleet:
  "prober_run calls next_deadline (prober_start n pol c) x \<Longrightarrow>
    sched_inv (fst (system x)) \<and> num_replicas (fst (system x)) = n"
  using reachable_inv[OF prober_reachable] by (auto simp: sys_inv_def num_replicas_def)

subsection \<open>How long a dead replica stays in routing\<close>

definition out_of_routing :: "scheduler \<Rightarrow> usize \<Rightarrow> bool" where
  "out_of_routing s i = (\<not> healthy (replicas s ! i))"

text \<open>Only the prober puts a replica back.\<close>

lemma task_step_out:
  assumes "task_step s q s' q'" and "out_of_routing s i"
  shows "out_of_routing s' i"
  using assms
proof cases
  case (decided hs d a)
  with assms(2) show ?thesis
    using pick_decision(2)[of s hs s' d] decides_available[OF pick_decision(1)[of s hs s' d]]
    by (auto simp: out_of_routing_def available_def nth_list_update)
next
  case (stream_decided hs d)
  with assms(2) show ?thesis
    using pick_decision(2)[of s hs s' d] decides_available[OF pick_decision(1)[of s hs s' d]]
    by (auto simp: out_of_routing_def available_def nth_list_update)
qed (auto simp: out_of_routing_def complete_def mark_unhealthy_def bind_eq_Some_conv vec_get_def nth_list_update
    dest: pick_error_same split: if_splits)

lemma finished_pass:
  assumes "mset joined = mset (pass_probes calls (num_replicas s) t)"
    and "apply_probes (join_all joined []) s 0 = Some (s', m)" and "i < num_replicas s"
  shows "healthy (replicas s' ! i) =
    (case probe_task i (calls i t) of None \<Rightarrow> healthy (replicas s ! i) | Some (j, alive) \<Rightarrow> alive)"
proof -
  note res = pass_results[OF assms(1)]
  from apply_probes_eq[OF res(1), of s 0] res(2) assms(2,3)
  have "replicas s' ! i = probed (join_all joined []) i (replicas s ! i)" by (auto simp: num_replicas_def)
  moreover have "map_of (join_all joined []) i = map_option snd (probe_task i (calls i t))"
  proof (cases "probe_task i (calls i t)")
    case None
    then have "i \<notin> fst ` set (join_all joined [])" using res(3) by force
    with None show ?thesis by (simp add: map_of_eq_None_iff)
  next
    case (Some p)
    moreover from this have "p = (i, snd p)" using probe_task_index[of i "calls i t" "fst p" "snd p"] by (cases p) simp
    ultimately show ?thesis using res(1) res(3)[of i "snd p"] assms(3) by simp
  qed
  ultimately show ?thesis by (auto simp: probed_def dead_replica_def split: option.splits)
qed

text \<open>The invariant for a replica that is dead from \<open>since\<close> on: between two passes it is out of routing, or it is
  still early; a pass that started too late to see it alive finds it out of routing, or was the first one.\<close>

definition detects :: "(usize \<Rightarrow> nat \<Rightarrow> live_call) \<Rightarrow> nat \<Rightarrow> nat \<Rightarrow> usize \<Rightarrow> prober \<Rightarrow> bool" where
  "detects calls period since i x =
     (let latest = since + max period PROBE_TIMEOUT; out = out_of_routing (fst (system x)) i
      in case pass_start x of
           None \<Rightarrow> out \<or> now x < latest \<and> deadline x < latest
         | Some t \<Rightarrow> t \<le> now x \<and> now x \<le> t + PROBE_TIMEOUT \<and> deadline x \<le> t + period \<and> (out \<or> t < latest))"

lemma detects_step:
  assumes delay: "delays_ticks period next_deadline" and dead: "\<forall>t\<ge>since. probe_task i (calls i t) = Some (i, False)"
    and i: "i < num_replicas (fst (system x))"
    and step: "prober_step calls next_deadline x y" and inv: "detects calls period since i x"
  shows "detects calls period since i y"
  using step
proof cases
  case tick
  with delay inv show ?thesis by (auto simp: detects_def delays_ticks_def Let_def)
next
  case (idle d)
  with inv show ?thesis by (auto simp: detects_def Let_def)
next
  case (probing t d)
  with inv pass_time_le[of calls "num_replicas (fst (system x))" t] show ?thesis by (auto simp: detects_def Let_def)
next
  case (finish t joined s' m)
  show ?thesis
  proof (cases "since \<le> t")
    case True
    with dead finished_pass[OF finish(4,5) i] have "out_of_routing s' i" by (simp add: out_of_routing_def)
    with finish(1) show ?thesis by (simp add: detects_def)
  next
    case False
    with finish inv show ?thesis by (auto simp: detects_def Let_def)
  qed
next
  case (request q hs)
  with inv show ?thesis by (auto simp: detects_def Let_def split: option.splits)
next
  case (serve k s' q')
  with inv task_step_out[OF serve(3), of i] show ?thesis by (auto simp: detects_def Let_def split: option.splits)
qed

lemma detects_run:
  assumes "delays_ticks period next_deadline" and "\<forall>t\<ge>since. probe_task i (calls i t) = Some (i, False)" and "i < n"
    and "prober_run calls next_deadline (prober_start n pol c) x"
  shows "detects calls period since i x"
  using assms(4)
proof (induction rule: prober_run.induct)
  case none
  show ?case by (simp add: detects_def prober_start_def spawn_prober_def PROBE_TIMEOUT_def less_max_iff_disj)
next
  case (further y z)
  from detects_step[OF assms(1,2) _ further(2,3)] prober_fleet[OF further(1)] assms(3) show ?case by simp
qed

text \<open>The timed system never gets stuck: a pass can always end, and time can go past any bound.\<close>

lemma prober_run_trans:
  "prober_run calls next_deadline y z \<Longrightarrow> prober_run calls next_deadline x y \<Longrightarrow> prober_run calls next_deadline x z"
  by (induction rule: prober_run.induct) (auto intro: prober_run.further)

definition on_time :: "(usize \<Rightarrow> nat \<Rightarrow> live_call) \<Rightarrow> prober \<Rightarrow> bool" where
  "on_time calls x =
     (case pass_start x of None \<Rightarrow> True | Some t \<Rightarrow> now x \<le> t + pass_time calls (num_replicas (fst (system x))) t)"

lemma task_step_fleet: "task_step s q s' q' \<Longrightarrow> num_replicas s' = num_replicas s"
  by (induction rule: task_step.induct)
    (auto simp: num_replicas_def dest: pick_frame complete_counts(2) mark_unhealthy_counts(2))

lemma on_time_run:
  assumes "prober_run calls next_deadline (prober_start n pol c) x"
  shows "on_time calls x"
  using assms
proof (induction rule: prober_run.induct)
  case none
  show ?case by (simp add: on_time_def prober_start_def spawn_prober_def)
next
  case (further y z)
  from further(2,3) show ?case
    by cases (auto simp: on_time_def dest: task_step_fleet split: option.splits)
qed

lemma pass_ends:
  assumes "pass_start x = Some t" and "on_time calls x"
  shows "\<exists>y. prober_run calls next_deadline x y \<and> pass_start y = None \<and> deadline y = deadline x \<and> now x \<le> now y"
proof -
  let ?n = "num_replicas (fst (system x))"
  let ?x = "x\<lparr>now := t + pass_time calls ?n t\<rparr>" and ?joined = "pass_probes calls ?n t"
  note res = pass_results[OF refl, where calls = calls and n = "?n" and t = t]
  from apply_probes_eq[OF res(1), of "fst (system x)" 0] res(2) obtain s' m where
    s': "apply_probes (join_all ?joined []) (fst (system x)) 0 = Some (s', m)" by (auto simp: num_replicas_def)
  have le: "now x \<le> t + pass_time calls ?n t" using assms by (simp add: on_time_def)
  have "prober_step calls next_deadline x ?x"
    using prober_step.probing[OF assms(1), of "t + pass_time calls ?n t - now x" calls next_deadline] le by simp
  moreover have "prober_step calls next_deadline ?x (?x\<lparr>pass_start := None, system := (s', snd (system ?x)), healthy_gauge := m\<rparr>)"
    by (rule prober_step.finish[where t = t and joined = ?joined]) (use assms(1) s' in simp_all)
  ultimately have "prober_run calls next_deadline x (?x\<lparr>pass_start := None, system := (s', snd (system ?x)), healthy_gauge := m\<rparr>)"
    by (blast intro: prober_run.intros)
  with le show ?thesis by (intro exI[of _ "?x\<lparr>pass_start := None, system := (s', snd (system ?x)), healthy_gauge := m\<rparr>"]) simp
qed

lemma next_wait:
  assumes delay: "delays_ticks period next_deadline" and "0 < period" and "pass_start x = None"
  shows "\<exists>y. prober_run calls next_deadline x y \<and> pass_start y = None \<and> now x < now y"
  using assms(3)
proof (induction "Suc (now x) - deadline x" arbitrary: x rule: less_induct)
  case less
  show ?case
  proof (cases "now x < deadline x")
    case True
    then have "prober_step calls next_deadline x (x\<lparr>now := deadline x\<rparr>)"
      using prober_step.idle[OF less.prems, of "deadline x - now x" calls next_deadline] by simp
    with True less.prems show ?thesis by (intro exI[of _ "x\<lparr>now := deadline x\<rparr>"]) (auto intro: prober_run.intros)
  next
    case False
    let ?y = "x\<lparr>pass_start := Some (now x), deadline := next_deadline (deadline x) (now x)\<rparr>"
    have tick: "prober_step calls next_deadline x ?y"
      using False less.prems by (intro prober_step.tick) simp_all
    from pass_ends[of ?y "now x" calls next_deadline] obtain z where
      z: "prober_run calls next_deadline ?y z" "pass_start z = None" "deadline z = next_deadline (deadline x) (now x)" "now x \<le> now z"
      by (auto simp: on_time_def)
    have xz: "prober_run calls next_deadline x z"
      by (rule prober_run_trans[OF z(1)]) (use tick in \<open>blast intro: prober_run.intros\<close>)
    show ?thesis
    proof (cases "now x < now z")
      case True
      with xz z(2) show ?thesis by blast
    next
      case same: False
      have "deadline x + period \<le> deadline z" using delay False z(3) by (simp add: delays_ticks_def)
      then have "Suc (now z) - deadline z < Suc (now x) - deadline x" using same z(4) False \<open>0 < period\<close> by simp
      from less.hyps[OF this z(2)] xz z(4) show ?thesis by (meson le_less_trans prober_run_trans)
    qed
  qed
qed

lemma time_passes:
  assumes "delays_ticks period next_deadline" and "0 < period" and "prober_run calls next_deadline (prober_start n pol c) x"
  shows "\<exists>y. prober_run calls next_deadline x y \<and> pass_start y = None \<and> b \<le> now y"
proof (induction b)
  case 0
  show ?case
    using pass_ends[of x _ calls next_deadline] on_time_run[OF assms(3)] prober_run.none[of calls next_deadline x]
    by (cases "pass_start x") blast+
next
  case (Suc b)
  then obtain y where y: "prober_run calls next_deadline x y" "pass_start y = None" "b \<le> now y" by blast
  from next_wait[OF assms(1,2) y(2), of calls] obtain z where
    "prober_run calls next_deadline y z" "pass_start z = None" "now y < now z" by blast
  with y show ?case by (meson Suc_leI le_less_trans prober_run_trans)
qed

text \<open>C9. Detection. If no probe of a replica started at \<open>since\<close> or later finds it alive, whether by
  an error, an answer that says no, or silence, then from \<open>since\<close> plus the longer of the period and the
  timeout, plus one timeout, on (three seconds with the router's settings) it is out of routing:
  no decision goes to it, its count is zero and its picture empty, whatever
  the requests do in the meantime and however many replicas are probed.\<close>

theorem dead_replica_leaves_routing:
  assumes "delays_ticks period next_deadline" and "\<forall>t\<ge>since. probe_task i (calls i t) = Some (i, False)" and "i < n"
    and "prober_run calls next_deadline (prober_start n pol c) x"
    and "since + max period PROBE_TIMEOUT + PROBE_TIMEOUT \<le> now x"
  shows "replicas (fst (system x)) ! i = \<lparr>cache = prefix_cache_new, inflight = 0, healthy = False\<rparr> \<and>
    (\<forall>hs s' d. pick (fst (system x)) hs = Some (s', Inr d) \<longrightarrow> replica d \<noteq> i)"
proof -
  let ?rep = "replicas (fst (system x)) ! i"
  have out: "\<not> healthy ?rep"
    using detects_run[OF assms(1-4)] assms(5) by (auto simp: detects_def out_of_routing_def Let_def split: option.splits)
  have "replica_inv (cfg (fst (system x))) ?rep"
    using prober_fleet[OF assms(4)] assms(3) by (auto simp: sched_inv_def num_replicas_def)
  with out have "?rep = \<lparr>cache = prefix_cache_new, inflight = 0, healthy = False\<rparr>" by (simp add: replica_inv_def)
  with out show ?thesis
    using decides_available[OF pick_decision(1)] by (fastforce simp: available_def)
qed

text \<open>Replica 0 falls silent at time 5; the other one answers at once.\<close>

definition silent_after_5 :: "usize \<Rightarrow> nat \<Rightarrow> live_call" where
  "silent_after_5 i t = (if i = 0 \<and> 5 \<le> t then Hangs else Returns 1 (Inr \<lparr>is_live = True\<rparr>))"

definition tokio_delay :: "nat \<Rightarrow> nat \<Rightarrow> nat" where
  "tokio_delay due fired = (if due + 5 < fired then fired + PROBE_INTERVAL else due + PROBE_INTERVAL)"

theorem dead_replica_leaves_routing_witness:
  "\<exists>x. prober_run silent_after_5 tokio_delay (prober_start 2 CacheAware default_config) x \<and> 3005 \<le> now x \<and>
    \<not> healthy (replicas (fst (system x)) ! 0)"
proof -
  have delay: "delays_ticks PROBE_INTERVAL tokio_delay"
    by (auto simp: delays_ticks_def tokio_delay_def)
  have dead: "\<forall>t\<ge>5. probe_task 0 (silent_after_5 0 t) = Some (0, False)"
    by (simp add: probe_task_def silent_after_5_def)
  from time_passes[OF delay _ prober_run.none, of silent_after_5 2 CacheAware default_config 3005] obtain x where
    x: "prober_run silent_after_5 tokio_delay (prober_start 2 CacheAware default_config) x" "3005 \<le> now x"
    by (auto simp: PROBE_INTERVAL_def)
  from dead_replica_leaves_routing[OF delay dead _ x(1)] x show ?thesis
    by (auto simp: PROBE_INTERVAL_def PROBE_TIMEOUT_def)
qed

end
