(* ===== verification/Router_Cancel.thy ===== *)
theory Router_Cancel
  imports Router_System
begin

text \<open>
  Clients that leave. \<open>model_infer\<close> of \<open>router/src/server.rs\<close> runs inside the future of its request,
  and the server drops that future when the client cancels or disconnects; the only point where a
  unary request is suspended is the awaited call, between \<open>pick_replica\<close> and \<open>complete\<close>. So a
  cancellation takes away a task that awaits a replica, with nothing run in its place. A client
  stream is served by a task of its own, which is not dropped. When the server drops a future is
  the server's behaviour, not the repository's: it is one more step of the environment here.
\<close>

inductive cancel_step :: "system \<Rightarrow> system \<Rightarrow> bool" where
  serve: "sys_step x y \<Longrightarrow> cancel_step x y"
| cancel: "k < length ts \<Longrightarrow> ts ! k = Awaiting hs a i \<Longrightarrow> cancel_step (s, ts) (s, ts[k := Finished])"

inductive cancel_reachable :: "usize \<Rightarrow> policy \<Rightarrow> scheduler_config \<Rightarrow> system \<Rightarrow> bool" for n pol c where
  start: "cancel_reachable n pol c (scheduler_new n pol c, [])"
| step: "cancel_reachable n pol c x \<Longrightarrow> cancel_step x y \<Longrightarrow> cancel_reachable n pol c y"

subsection \<open>One request that is cancelled\<close>

lemma cancelled_request:
  assumes "cancel_reachable n pol c (s, ts)" and "pick s hs = Some (s', Inr d)"
  shows "cancel_reachable n pol c (s', ts @ [Finished])"
proof -
  have "cancel_step (s, ts) (s, ts @ [Deciding hs 0])"
    by (rule cancel_step.serve, rule sys_step.arrive) simp
  with assms(1) have 1: "cancel_reachable n pol c (s, ts @ [Deciding hs 0])" by (rule cancel_reachable.step)
  have "sys_step (s, ts @ [Deciding hs 0]) (s', (ts @ [Deciding hs 0])[length ts := Awaiting hs 0 (replica d)])"
    by (rule sys_step.run) (use assms(2) in \<open>simp_all add: task_step.decided\<close>)
  with 1 have 2: "cancel_reachable n pol c (s', ts @ [Awaiting hs 0 (replica d)])"
    by (intro cancel_reachable.step[OF 1] cancel_step.serve) simp
  have "cancel_step (s', ts @ [Awaiting hs 0 (replica d)]) (s', (ts @ [Awaiting hs 0 (replica d)])[length ts := Finished])"
    by (rule cancel_step.cancel) simp_all
  with 2 show ?thesis by (intro cancel_reachable.step[OF 2]) simp
qed

text \<open>The room that is left in a scheduler whose replicas are all in routing.\<close>

definition all_up :: "scheduler \<Rightarrow> bool" where
  "all_up s = list_all healthy (replicas s)"

definition room_left :: "scheduler \<Rightarrow> nat" where
  "room_left s = sum_list (map (\<lambda>r. max_inflight (cfg s) - inflight r) (replicas s))"

lemma pick_takes_room:
  assumes "pick s hs = Some (s', Inr d)" and "all_up s"
  shows "all_up s'" and "room_left s' < room_left s"
proof -
  note p = pick_decision(2)[OF assms(1)]
  from decides_available[OF pick_decision(1)[OF assms(1)]]
  have i: "replica d < length (replicas s)" "inflight (replicas s ! replica d) < max_inflight (cfg s)"
    by (simp_all add: available_def)
  let ?r = "routed s hs (replicas s ! replica d)"
  have r: "healthy ?r = healthy (replicas s ! replica d)" "inflight ?r = inflight (replicas s ! replica d) + 1"
    by (simp_all add: routed_def)
  show "all_up s'"
    using assms(2) i(1) r(1) set_update_subset_insert[of "replicas s" "replica d" ?r]
    by (auto simp: p all_up_def list_all_iff sched_simps)
  show "room_left s' < room_left s"
    using i r(2) by (auto simp: p room_left_def sched_simps intro!: sum_list_update_less)
qed

lemma pick_up_cases:
  assumes "all_up s" and "replicas s \<noteq> []"
  obtains s' d where "pick s hs = Some (s', Inr d)"
  | "pick s hs = Some (s, Inl AllSaturated)" "\<forall>r\<in>set (replicas s). max_inflight (cfg s) \<le> inflight r"
proof (rule pick_cases[of s hs])
  fix e
  assume p: "pick s hs = Some (s, Inl e)" and none: "\<forall>r\<in>set (replicas s). \<not> available (cfg s) r"
    and e: "e = (if \<exists>r\<in>set (replicas s). healthy r then AllSaturated else NoHealthyReplicas)"
  have up: "\<forall>r\<in>set (replicas s). healthy r" using assms(1) by (simp add: all_up_def list_all_iff)
  with assms(2) e have "e = AllSaturated" by auto
  moreover from none up have "\<forall>r\<in>set (replicas s). max_inflight (cfg s) \<le> inflight r"
    by (auto simp: available_def not_less)
  ultimately show thesis using that(2) p by simp
qed (use that(1) in blast)

lemma cancelled_requests_saturate:
  assumes "cancel_reachable n pol c (s, ts)" and "all_up s" and "replicas s \<noteq> []" and "list_all (\<lambda>t. t = Finished) ts"
  shows "\<exists>s' ts'. cancel_reachable n pol c (s', ts') \<and> list_all (\<lambda>t. t = Finished) ts' \<and> all_up s' \<and>
    length (replicas s') = length (replicas s) \<and> cfg s' = cfg s \<and>
    (\<forall>r\<in>set (replicas s'). max_inflight (cfg s) \<le> inflight r)"
  using assms
proof (induction "room_left s" arbitrary: s ts rule: less_induct)
  case less
  show ?case
  proof (rule pick_up_cases[OF less.prems(2,3), of "[]"])
    fix s1 d
    assume p: "pick s [] = Some (s1, Inr d)"
    note f = pick_frame[OF p] and u = pick_takes_room[OF p less.prems(2)]
    have "replicas s1 \<noteq> []" using f(1) less.prems(3) by auto
    from less.hyps[OF u(2) cancelled_request[OF less.prems(1) p] u(1) this] less.prems(4) f show ?thesis by simp
  next
    assume "\<forall>r\<in>set (replicas s). max_inflight (cfg s) \<le> inflight r"
    with less.prems show ?thesis by blast
  qed
qed

subsection \<open>The prober does not help\<close>

text \<open>A pass that finds every replica of a fleet in routing alive changes nothing.\<close>

lemma alive_probes:
  assumes "all_up s"
  shows "list_all (\<lambda>(i, alive). alive \<and> i < length (replicas s)) results \<Longrightarrow>
    apply_probes results s m = Some (s, m + int (length results))"
proof (induction results arbitrary: m)
  case (Cons x results)
  obtain i alive where x: "x = (i, alive)" by (cases x)
  with Cons.prems have i: "alive" "i < length (replicas s)" by simp_all
  have "(replicas s ! i)\<lparr>healthy := True\<rparr> = replicas s ! i"
    using assms i(2) by (simp add: all_up_def list_all_length)
  then have "mark_healthy s i = Some s" using i(2) by (simp add: mark_healthy_def vec_get_def)
  with Cons i x show ?case by (simp add: is_healthy_def vec_get_def)
qed simp

subsection \<open>Caps\<close>

definition cancel_inv :: "usize \<Rightarrow> system \<Rightarrow> bool" where
  "cancel_inv n x =
     (sched_inv (fst x) \<and> length (replicas (fst x)) = n \<and> (\<forall>t\<in>set (snd x). \<forall>i. refers t = Some i \<longrightarrow> i < n))"

lemma cancel_inv_update:
  assumes "cancel_inv n (s, ts)" and "sched_inv s'" "length (replicas s') = n" "\<forall>i. refers t' = Some i \<longrightarrow> i < n"
  shows "cancel_inv n (s', ts[k := t'])"
  using assms set_update_subset_insert[of ts k t'] by (auto simp: cancel_inv_def)

lemma cancel_inv_step:
  assumes "cancel_inv n x" and "cancel_step x y"
  shows "cancel_inv n y"
  using assms(2)
proof cases
  case serve
  then show ?thesis
  proof cases
    case (arrive t hs s ts)
    with assms(1) show ?thesis by (auto simp: cancel_inv_def)
  next
    case (run k ts s s' t')
    have inv: "sched_inv s" "length (replicas s) = n" "\<forall>i. refers (ts ! k) = Some i \<longrightarrow> i < length (replicas s)"
      using assms(1) run(1,3) nth_mem[of k ts] by (auto simp: cancel_inv_def simp del: nth_mem)
    from task_step_ok[OF run(4) inv(1,3)] inv(2) assms(1) run(1,2) show ?thesis
      by (auto simp: step_ok_def intro: cancel_inv_update)
  next
    case (probe results s s' m ts)
    with assms(1) apply_probes_inv[of s results 0 s' m] show ?thesis by (simp add: cancel_inv_def)
  qed
next
  case (cancel k ts hs a i s)
  with assms(1) have inv: "cancel_inv n (s, ts)" by simp
  show ?thesis
    unfolding cancel by (rule cancel_inv_update[OF inv]) (use inv in \<open>simp_all add: cancel_inv_def\<close>)
qed

lemma cancel_reachable_inv: "cancel_reachable n pol c x \<Longrightarrow> cancel_inv n x \<and> cfg (fst x) = c"
proof (induction rule: cancel_reachable.induct)
  case start
  show ?case using sched_inv_new[of n pol c] by (simp add: cancel_inv_def) (simp add: scheduler_new_def)
next
  case (step x y)
  from step(2) have "cfg (fst y) = cfg (fst x)"
  proof cases
    case serve
    then show ?thesis by cases (auto dest: task_step_cfg apply_probes_cfg)
  qed simp
  with step cancel_inv_step show ?case by metis
qed

lemma cancel_reachable_caps:
  assumes "cancel_reachable n pol c (s, ts)" and "i < n"
  shows "inflight (replicas s ! i) \<le> max_inflight c \<and> num_blocks (cache (replicas s ! i)) \<le> block_budget c"
  using cancel_reachable_inv[OF assms(1)] assms(2) sched_inv_nth[of s i]
  by (auto simp: cancel_inv_def replica_inv_def)

text \<open>C12. A cancelled request is never completed. When clients may leave while their unary request is
  awaited, caps and budgets still hold; but from a fresh router of any size and configuration a
  state is reachable in which no request is left, every replica is in routing with its in-flight
  count at the cap, and every further request is refused as saturated; and no prober pass that
  finds the replicas alive changes that.\<close>

theorem cancelled_requests_leak:
  assumes "0 < n"
  shows "(cancel_reachable n pol c (s, ts) \<and> i < n \<longrightarrow>
      inflight (replicas s ! i) \<le> max_inflight c \<and> num_blocks (cache (replicas s ! i)) \<le> block_budget c) \<and>
    (\<exists>s ts. cancel_reachable n pol c (s, ts) \<and> list_all (\<lambda>t. t = Finished) ts \<and>
      (\<forall>i<n. healthy (replicas s ! i) \<and> inflight (replicas s ! i) = max_inflight c) \<and>
      (\<forall>hs. pick s hs = Some (s, Inl AllSaturated)) \<and>
      (\<forall>results. list_all (\<lambda>(i, alive). alive \<and> i < n) results \<longrightarrow>
         apply_probes results s 0 = Some (s, int (length results))))"
proof (intro conjI impI)
  show "inflight (replicas s ! i) \<le> max_inflight c" "num_blocks (cache (replicas s ! i)) \<le> block_budget c"
    if "cancel_reachable n pol c (s, ts) \<and> i < n"
    using cancel_reachable_caps that by blast+
  let ?s0 = "scheduler_new n pol c"
  have "all_up ?s0" "length (replicas ?s0) = n" "cfg ?s0 = c"
    by (simp_all add: all_up_def list_all_iff scheduler_new_def new_replica_def)
  with cancelled_requests_saturate[OF cancel_reachable.start, of n pol c] assms
  obtain s ts where r: "cancel_reachable n pol c (s, ts)" "list_all (\<lambda>t. t = Finished) ts" "all_up s"
    "length (replicas s) = n" "cfg s = c" "\<forall>r\<in>set (replicas s). max_inflight c \<le> inflight r"
    by fastforce
  have "healthy (replicas s ! i) \<and> inflight (replicas s ! i) = max_inflight c" if "i < n" for i
    using r(3,4,6) cancel_reachable_caps[OF r(1) that] that by (auto simp: all_up_def list_all_length intro!: antisym)
  moreover have "pick s hs = Some (s, Inl AllSaturated)" for hs
  proof (rule pick_unavailable[THEN trans])
    show "\<not> (\<exists>r\<in>set (replicas s). available (cfg s) r)" using r(5,6) by (auto simp: available_def not_less)
    show "Some (s, Inl (if \<exists>r\<in>set (replicas s). healthy r then AllSaturated else NoHealthyReplicas)) = Some (s, Inl AllSaturated)"
      using r(3,4) assms by (cases "replicas s") (simp_all add: all_up_def)
  qed
  moreover have "apply_probes results s 0 = Some (s, int (length results))"
    if "list_all (\<lambda>(i, alive). alive \<and> i < n) results" for results
    using alive_probes[OF r(3), of results 0] that r(4) by simp
  ultimately show "\<exists>s ts. cancel_reachable n pol c (s, ts) \<and> list_all (\<lambda>t. t = Finished) ts \<and>
      (\<forall>i<n. healthy (replicas s ! i) \<and> inflight (replicas s ! i) = max_inflight c) \<and>
      (\<forall>hs. pick s hs = Some (s, Inl AllSaturated)) \<and>
      (\<forall>results. list_all (\<lambda>(i, alive). alive \<and> i < n) results \<longrightarrow>
         apply_probes results s 0 = Some (s, int (length results)))"
    using r(1,2) by blast
qed

theorem cancelled_requests_leak_witness:
  "\<exists>s ts. cancel_reachable 2 CacheAware demo_config (s, ts) \<and> list_all (\<lambda>t. t = Finished) ts \<and>
    inflight (replicas s ! 0) = 2 \<and> pick s [7] = Some (s, Inl AllSaturated)"
proof -
  have "0 < (2 :: nat)" by simp
  from conjunct2[OF cancelled_requests_leak[where pol = CacheAware and c = demo_config, OF this]] obtain s ts where
    "cancel_reachable 2 CacheAware demo_config (s, ts)" "list_all (\<lambda>t. t = Finished) ts"
    "\<forall>i<2. healthy (replicas s ! i) \<and> inflight (replicas s ! i) = max_inflight demo_config"
    "\<forall>hs. pick s hs = Some (s, Inl AllSaturated)" by blast
  moreover from this(3) have "inflight (replicas s ! 0) = 2" by (simp add: demo_config_def)
  ultimately show ?thesis by blast
qed

end
