(* ===== verification/Process.thy ===== *)
theory Process
  imports Router_Cancel Startup
begin

text \<open>
  The life of the two binaries, \<open>router/src/main.rs\<close> and \<open>mock-triton/src/main.rs\<close>. Start-up runs from
  tracing over the listeners to the gRPC server; after that the router serves until a signal,
  drains what is in flight and flushes its spans. What the operating system and the libraries
  decide (whether a port can be bound, a file or an endpoint is good) is the record \<open>environment\<close>.
\<close>

subsection \<open>Start-up\<close>

datatype exit = Clean | Failed string | Panicked

fun exit_code :: "exit \<Rightarrow> nat" where
  "exit_code Clean = 0"
| "exit_code (Failed e) = 1"
| "exit_code Panicked = 101"

text \<open>\<open>bind_error\<close> is asked for a port while the process holds the ports in the list.\<close>

record environment =
  good_exporter :: "string \<Rightarrow> bool"
  filter_env :: "string option"
  otlp_endpoint :: "string option"
  bad_replica_url :: "string \<Rightarrow> bool"
  bad_tokenizer :: "string \<Rightarrow> string option"
  bind_error :: "16 word list \<Rightarrow> 16 word \<Rightarrow> string option"
  signal_handlers :: bool

datatype spawned = HealthProber nat | MetricsServer "16 word" | GrpcServer "16 word"

fun decimal :: "nat \<Rightarrow> string" where
  "decimal n = (if n < 10 then [char_of (48 + n)] else decimal (n div 10) @ [char_of (48 + n mod 10)])"

declare decimal.simps [simp del]

definition any_addr :: "16 word \<Rightarrow> string" where
  "any_addr port = ''0.0.0.0:'' @ decimal (unat port)"

text \<open>What was spawned, and the router that is up or the way in which the process ended.\<close>

definition router_start :: "environment \<Rightarrow> router_args \<Rightarrow> spawned list \<times> (exit + tracing_layer list \<times> router_inner)" where
  "router_start env args =
     (case init_tracing (good_exporter env) (filter_env env) (otlp_endpoint env) of
        None \<Rightarrow> ([], Inl Panicked)
      | Some layers \<Rightarrow>
          (case router_main (bad_replica_url env) (bad_tokenizer env) args of
             Inl e \<Rightarrow> ([], Inl (Failed e))
           | Inr r \<Rightarrow>
               let tasks = [HealthProber 2] in
               (case bind_error env [] (arg_metrics_port args) of
                  Some e \<Rightarrow> (tasks, Inl (Failed (''failed to bind metrics listener on '' @ any_addr (arg_metrics_port args))))
                | None \<Rightarrow>
                    let tasks = tasks @ [MetricsServer (arg_metrics_port args)] in
                    (case bind_error env [arg_metrics_port args] (arg_port args) of
                       Some e \<Rightarrow> (tasks, Inl (Failed ''transport error''))
                     | None \<Rightarrow>
                         let tasks = tasks @ [GrpcServer (arg_port args)] in
                         if signal_handlers env then (tasks, Inr (layers, r)) else (tasks, Inl Panicked)))))"

definition mock_start :: "environment \<Rightarrow> mock_args \<Rightarrow> spawned list \<times> (exit + mock_service)" where
  "mock_start env args =
     (case mock_main (bad_tokenizer env) args of
        Inl e \<Rightarrow> ([], Inl (Failed e))
      | Inr m \<Rightarrow>
          (case bind_error env [] (marg_metrics_port args) of
             Some e \<Rightarrow> ([], Inl (Failed (''failed to bind metrics listener on '' @ any_addr (marg_metrics_port args) @ '': '' @ e)))
           | None \<Rightarrow>
               let tasks = [MetricsServer (marg_metrics_port args)] in
               (case bind_error env [marg_metrics_port args] (marg_port args) of
                  Some e \<Rightarrow> (tasks, Inl (Failed ''transport error''))
                | None \<Rightarrow> (tasks @ [GrpcServer (marg_port args)], Inr m))))"

text \<open>The page of the metrics server: an encoder that fails gives an empty page, not an error.\<close>

definition metrics_page :: "('g \<Rightarrow> 'f) \<Rightarrow> ('f \<Rightarrow> string option) \<Rightarrow> 'g \<Rightarrow> string" where
  "metrics_page gather encode_to_string registry =
     (case encode_to_string (gather registry) of None \<Rightarrow> '''' | Some page \<Rightarrow> page)"

subsection \<open>Serving, draining, exit\<close>

datatype signal = Ctrl_C | SigTerm

datatype phase = Serving | Draining signal | Exited exit

text \<open>
  The tasks of \<open>Router_System\<close>, the client streams that are open, the tasks whose client stream is
  gone, and whether the spans were flushed. A unary request whose client leaves is dropped, as in
  \<open>Router_Cancel\<close>; the task of a client stream runs on, but the server does not wait for it.
\<close>

record process =
  psys :: system
  pstreams :: nat
  pgone :: "nat list"
  pphase :: phase
  pflushed :: bool

fun up :: "phase \<Rightarrow> bool" where
  "up (Exited x) = False"
| "up p = True"

fun draining :: "phase \<Rightarrow> bool" where
  "draining (Draining g) = True"
| "draining p = False"

fun of_stream :: "task \<Rightarrow> bool" where
  "of_stream (StreamDeciding hs) = True"
| "of_stream (Streaming i) = True"
| "of_stream (StreamMarking i) = True"
| "of_stream (StreamCompleting i) = True"
| "of_stream t = False"

definition drained :: "process \<Rightarrow> bool" where
  "drained p = (pstreams p = 0 \<and>
     list_all (\<lambda>k. k \<in> set (pgone p) \<or> snd (psys p) ! k = Finished) [0..<length (snd (psys p))])"

definition shutdown_tracing :: "process \<Rightarrow> process" where
  "shutdown_tracing p = p\<lparr>pflushed := True\<rparr>"

inductive proc_step :: "process \<Rightarrow> process \<Rightarrow> bool" where
  request: "pphase p = Serving \<Longrightarrow> psys p = (s, ts) \<Longrightarrow> proc_step p (p\<lparr>psys := (s, ts @ [Deciding hs 0])\<rparr>)"
| stream_opened: "pphase p = Serving \<Longrightarrow> proc_step p (p\<lparr>pstreams := pstreams p + 1\<rparr>)"
| stream_message: "up (pphase p) \<Longrightarrow> 0 < pstreams p \<Longrightarrow> psys p = (s, ts) \<Longrightarrow>
    proc_step p (p\<lparr>psys := (s, ts @ [StreamDeciding hs])\<rparr>)"
| stream_closed: "up (pphase p) \<Longrightarrow> 0 < pstreams p \<Longrightarrow> proc_step p (p\<lparr>pstreams := pstreams p - 1\<rparr>)"
| stream_gone: "up (pphase p) \<Longrightarrow> psys p = (s, ts) \<Longrightarrow> k < length ts \<Longrightarrow> of_stream (ts ! k) \<Longrightarrow>
    proc_step p (p\<lparr>pgone := k # pgone p\<rparr>)"
| request_dropped: "up (pphase p) \<Longrightarrow> psys p = (s, ts) \<Longrightarrow> k < length ts \<Longrightarrow> ts ! k = Awaiting hs a i \<Longrightarrow>
    proc_step p (p\<lparr>psys := (s, ts[k := Finished])\<rparr>)"
| task: "up (pphase p) \<Longrightarrow> psys p = (s, ts) \<Longrightarrow> k < length ts \<Longrightarrow> task_step s (ts ! k) s' t' \<Longrightarrow>
    proc_step p (p\<lparr>psys := (s', ts[k := t'])\<rparr>)"
| prober: "up (pphase p) \<Longrightarrow> psys p = (s, ts) \<Longrightarrow> apply_probes results s 0 = Some (s', m) \<Longrightarrow>
    proc_step p (p\<lparr>psys := (s', ts)\<rparr>)"
| signalled: "pphase p = Serving \<Longrightarrow> proc_step p (p\<lparr>pphase := Draining g\<rparr>)"
| shut_down: "pphase p = Draining g \<Longrightarrow> drained p \<Longrightarrow> proc_step p ((shutdown_tracing p)\<lparr>pphase := Exited Clean\<rparr>)"
| serve_failed: "up (pphase p) \<Longrightarrow> proc_step p (p\<lparr>pphase := Exited (Failed ''transport error'')\<rparr>)"
| metrics_failed: "up (pphase p) \<Longrightarrow> proc_step p (p\<lparr>pphase := Exited (Failed ''metrics server exited'')\<rparr>)"

definition serving :: "router_inner \<Rightarrow> process" where
  "serving r = \<lparr>psys = (sched r, []), pstreams = 0, pgone = [], pphase = Serving, pflushed = False\<rparr>"

inductive proc_reachable :: "environment \<Rightarrow> router_args \<Rightarrow> process \<Rightarrow> bool" for env args where
  started: "router_start env args = (tasks, Inr (layers, r)) \<Longrightarrow> proc_reachable env args (serving r)"
| step: "proc_reachable env args p \<Longrightarrow> proc_step p q \<Longrightarrow> proc_reachable env args q"

subsection \<open>How start-up ends\<close>

lemma router_start_parts:
  "snd (router_start env args) = Inr (layers, r) \<Longrightarrow>
    init_tracing (good_exporter env) (filter_env env) (otlp_endpoint env) = Some layers \<and>
    router_main (bad_replica_url env) (bad_tokenizer env) args = Inr r"
  by (auto simp: router_start_def Let_def split: option.splits sum.splits if_splits)

lemma router_main_iff:
  "(\<exists>r. router_main bad_url tokenizer_error args = Inr r) \<longleftrightarrow> args_valid bad_url tokenizer_error args"
  by (metis router_main_error router_main_valid sum.exhaust)

subsection \<open>The shutdown\<close>

definition proc_inv :: "nat \<Rightarrow> policy \<Rightarrow> scheduler_config \<Rightarrow> process \<Rightarrow> bool" where
  "proc_inv n pol c p =
     (cancel_reachable n pol c (psys p) \<and> (pflushed p = (pphase p = Exited Clean)) \<and>
      (pphase p = Exited Clean \<longrightarrow> drained p))"

lemma up_not_exited: "up ph \<Longrightarrow> ph \<noteq> Exited x"
  by auto

lemma cancel_serve: "cancel_reachable n pol c x \<Longrightarrow> sys_step x y \<Longrightarrow> cancel_reachable n pol c y"
  by (blast intro: cancel_reachable.step cancel_step.serve)

lemma proc_inv_step:
  assumes inv: "proc_inv n pol c p" and step: "proc_step p q"
  shows "proc_inv n pol c q"
  using step
proof cases
  case (request s ts hs)
  then have "sys_step (psys p) (s, ts @ [Deciding hs 0])" by (simp add: sys_step.arrive)
  with inv request show ?thesis by (auto simp: proc_inv_def intro: cancel_serve)
next
  case (stream_message s ts hs)
  then have "sys_step (psys p) (s, ts @ [StreamDeciding hs])" by (simp add: sys_step.arrive)
  with inv stream_message show ?thesis by (auto simp: proc_inv_def intro: cancel_serve)
next
  case (request_dropped s ts k hs a i)
  then have "cancel_step (psys p) (s, ts[k := Finished])" by (simp add: cancel_step.cancel)
  with inv request_dropped show ?thesis by (auto simp: proc_inv_def intro: cancel_reachable.step)
next
  case (task s ts k s' t')
  then have "sys_step (psys p) (s', ts[k := t'])" by (simp add: sys_step.run)
  with inv task show ?thesis by (auto simp: proc_inv_def intro: cancel_serve)
next
  case (prober s ts results s' m)
  then have "sys_step (psys p) (s', ts)" by (auto intro: sys_step.probe)
  with inv prober show ?thesis by (auto simp: proc_inv_def intro: cancel_serve)
qed (use inv in \<open>auto simp: proc_inv_def drained_def shutdown_tracing_def\<close>)

lemma proc_reachable_inv:
  "proc_reachable env args p \<Longrightarrow> \<exists>n pol c. proc_inv n pol c p"
proof (induction rule: proc_reachable.induct)
  case (started tasks layers r)
  then have "router_main (bad_replica_url env) (bad_tokenizer env) args = Inr r"
    using router_start_parts[of env args layers r] by simp
  then obtain n pol c where "r = router_inner_new (scheduler_new n pol c) n" by (auto elim: router_main_Inr)
  then have "proc_inv n pol c (serving r)"
    by (simp add: proc_inv_def serving_def router_inner_new_def cancel_reachable.start)
  then show ?case by blast
next
  case (step p q)
  then show ?case using proc_inv_step by blast
qed

text \<open>The steps that the tasks in flight can still take.\<close>

definition work :: "process \<Rightarrow> nat" where
  "work p = sum_list (map rank (snd (psys p)))"

lemma not_drained_task:
  assumes inv: "proc_inv n pol c p" and d: "pphase p = Draining g" "pstreams p = 0" "\<not> drained p"
  shows "\<exists>q. proc_step p q \<and> pphase q = pphase p \<and> pstreams q = pstreams p \<and> work q < work p"
proof -
  obtain s ts where p: "psys p = (s, ts)" by (cases "psys p")
  from d(2,3) obtain k where k: "k < length ts" "ts ! k \<noteq> Finished"
    by (auto simp: drained_def p list_all_iff)
  have "cancel_inv n (s, ts)" using inv cancel_reachable_inv[of n pol c "(s, ts)"] by (simp add: proc_inv_def p)
  moreover have "ts ! k \<in> set ts" using k(1) by simp
  ultimately have "\<forall>i. refers (ts ! k) = Some i \<longrightarrow> i < length (replicas s)" unfolding cancel_inv_def fst_conv snd_conv by blast
  from task_can_step[OF k(2) this] obtain s' t' where t: "task_step s (ts ! k) s' t'" by blast
  have "proc_step p (p\<lparr>psys := (s', ts[k := t'])\<rparr>)" by (rule proc_step.task[OF _ p k(1) t]) (simp add: d(1))
  moreover have "work (p\<lparr>psys := (s', ts[k := t'])\<rparr>) < work p"
    using sum_list_update_less[OF k(1) task_step_rank[OF t]] by (simp add: work_def p)
  ultimately show ?thesis by force
qed

lemma can_drain:
  "proc_inv n pol c p \<Longrightarrow> pphase p = Draining g \<Longrightarrow> \<exists>q. proc_step\<^sup>*\<^sup>* p q \<and> pphase q = Exited Clean"
proof (induction "pstreams p + work p" arbitrary: p rule: less_induct)
  case less
  have "\<exists>q. proc_step p q \<and> pphase q = Draining g \<and> pstreams q + work q < pstreams p + work p" if "\<not> drained p"
  proof (cases "pstreams p = 0")
    case True
    with not_drained_task[OF less.prems True that] less.prems(2) show ?thesis by fastforce
  next
    case False
    then have "proc_step p (p\<lparr>pstreams := pstreams p - 1\<rparr>)" by (intro proc_step.stream_closed) (simp_all add: less.prems(2))
    with False less.prems(2) show ?thesis by (force simp: work_def)
  qed
  then show ?case
  proof (cases "drained p")
    case True
    from proc_step.shut_down[OF less.prems(2) this] show ?thesis by (intro exI conjI, rule r_into_rtranclp) simp_all
  next
    case False
    with \<open>\<not> drained p \<Longrightarrow> _\<close> obtain q where q: "proc_step p q" "pphase q = Draining g" "pstreams q + work q < pstreams p + work p" by blast
    from less.hyps[OF q(3) proc_inv_step[OF less.prems(1) q(1)] q(2)] q(1) show ?thesis
      by (meson converse_rtranclp_into_rtranclp)
  qed
qed

lemma drain_step:
  assumes "proc_step p q" and "draining (pphase p)" and "pstreams p = 0"
  shows "work q \<le> work p \<and> length (snd (psys q)) = length (snd (psys p)) \<and> pstreams q = 0"
  using assms
proof cases
  case (task s ts k s' t')
  with sum_list_update_less[OF task(4) task_step_rank[OF task(5)]] assms(3) show ?thesis by (simp add: work_def)
next
  case (request_dropped s ts k hs a i)
  then have "sum_list (map rank (ts[k := Finished])) < sum_list (map rank ts)"
    by (intro sum_list_update_less) simp_all
  with request_dropped assms(3) show ?thesis by (simp add: work_def)
qed (use assms in \<open>auto simp: work_def shutdown_tracing_def\<close>)
subsection \<open>Properties\<close>


text \<open>An environment in which only the ports below 1024 and those the process holds are refused.\<close>

definition demo_env :: environment where
  "demo_env = \<lparr>good_exporter = (\<lambda>_. True), filter_env = None, otlp_endpoint = Some ''http://jaeger:4317'',
     bad_replica_url = (\<lambda>_. False), bad_tokenizer = (\<lambda>_. None),
     bind_error = (\<lambda>held port. if port < 1024 \<or> port \<in> set held then Some ''Address already in use'' else None),
     signal_handlers = True\<rparr>"

definition demo_args :: router_args where
  "demo_args = default_args [''http://mock1:8001'', ''http://mock2:8001'']"




end
