(* ===== verification/Replica_Concurrent.thy ===== *)
theory Replica_Concurrent
  imports Mock_Service "HOL-Library.Multiset"
begin

text \<open>
  The mock replica with many requests at a time. \<open>simulate_prefill\<close> of \<open>mock-triton/src/service.rs\<close>
  holds the mutex of the cache for the lookup only; the two counters are increased after that, one
  by one, and the sleep is the only point where the request is suspended. There the server drops
  a unary request whose client is gone. \<open>log\<close> records the prompts in the order of the mutex.
\<close>

datatype prefill =
  Tokenized "u32 list"
  | Looked "u32 list" usize
  | Half_Counted "u32 list" usize
  | Sleeping "u32 list" usize
  | Answered "u32 list" usize
  | Dropped "u32 list" usize

record replica_state_c =
  service :: mock_service
  prefills :: "prefill list"
  log :: "u64 list list"

definition replica_start :: "mock_config \<Rightarrow> replica_state_c" where
  "replica_start c = \<lparr>service = mock_service_new c, prefills = [], log = []\<rparr>"

text \<open>One step of a request, and the prompts it adds to the log.\<close>

fun prefill_step :: "prefill \<Rightarrow> mock_service \<Rightarrow> (mock_service \<times> prefill \<times> u64 list list) option" where
  "prefill_step (Tokenized ids) m =
     (let (kv, cached) = lookup_insert (kv_cache m) (block_hashes ids)
      in Some (m\<lparr>kv_cache := kv\<rparr>, Looked ids cached, [block_hashes ids]))"
| "prefill_step (Looked ids cached) m =
     Some (m\<lparr>cached_blocks_total := cached_blocks_total m + word_of_nat cached\<rparr>, Half_Counted ids cached, [])"
| "prefill_step (Half_Counted ids cached) m =
     Some (m\<lparr>total_blocks_total := total_blocks_total m + word_of_nat (length (block_hashes ids))\<rparr>, Sleeping ids cached, [])"
| "prefill_step (Sleeping ids cached) m =
     Some (m\<lparr>prefill_slept_us := prefill_slept_us m + unat (prefill_delay (mcfg m) ids cached)\<rparr>, Answered ids cached, [])"
| "prefill_step p m = None"

datatype replica_event = Receive "u32 list" | Proceed nat | Drop nat

fun replica_step :: "replica_event \<Rightarrow> replica_state_c \<Rightarrow> replica_state_c option" where
  "replica_step (Receive ids) x = Some (x\<lparr>prefills := prefills x @ [Tokenized ids]\<rparr>)"
| "replica_step (Proceed k) x = do {
     p \<leftarrow> vec_get (prefills x) k;
     (m, p, new) \<leftarrow> prefill_step p (service x);
     Some \<lparr>service = m, prefills = (prefills x)[k := p], log = log x @ new\<rparr>
   }"
| "replica_step (Drop k) x = do {
     p \<leftarrow> vec_get (prefills x) k;
     (case p of
        Sleeping ids cached \<Rightarrow> Some (x\<lparr>prefills := (prefills x)[k := Dropped ids cached]\<rparr>)
      | _ \<Rightarrow> None)
   }"

fun replica_run :: "replica_event list \<Rightarrow> replica_state_c \<Rightarrow> replica_state_c option" where
  "replica_run [] x = Some x"
| "replica_run (e # es) x = Option.bind (replica_step e x) (replica_run es)"

text \<open>Run through without interruption, the steps of a request are \<open>simulate_prefill\<close>.\<close>

lemma prefill_steps_sequential:
  assumes "encode txt = Inr ids"
  shows "map_option (\<lambda>x. (service x, prefills x)) (replica_run [Receive ids, Proceed 0, Proceed 0, Proceed 0, Proceed 0]
      \<lparr>service = m, prefills = [], log = []\<rparr>) =
    (case simulate_prefill encode txt m of
       (m', Inr (cached, tot)) \<Rightarrow> Some (m', [Answered ids cached])
     | (m', Inl st) \<Rightarrow> None)"
  using assms by (simp add: simulate_prefill_def vec_get_def Let_def case_prod_beta)

subsection \<open>The invariant\<close>

text \<open>What a request adds to the two counters so far, and the hits it was told.\<close>

fun counted_cached :: "prefill \<Rightarrow> u64" where
  "counted_cached (Tokenized ids) = 0"
| "counted_cached (Looked ids n) = 0"
| "counted_cached (Half_Counted ids n) = word_of_nat n"
| "counted_cached (Sleeping ids n) = word_of_nat n"
| "counted_cached (Answered ids n) = word_of_nat n"
| "counted_cached (Dropped ids n) = word_of_nat n"

fun counted_total :: "prefill \<Rightarrow> u64" where
  "counted_total (Tokenized ids) = 0"
| "counted_total (Looked ids n) = 0"
| "counted_total (Half_Counted ids n) = 0"
| "counted_total (Sleeping ids n) = word_of_nat (length (block_hashes ids))"
| "counted_total (Answered ids n) = word_of_nat (length (block_hashes ids))"
| "counted_total (Dropped ids n) = word_of_nat (length (block_hashes ids))"

fun told :: "prefill \<Rightarrow> (u64 list \<times> usize) list" where
  "told (Tokenized ids) = []"
| "told (Looked ids n) = [(block_hashes ids, n)]"
| "told (Half_Counted ids n) = [(block_hashes ids, n)]"
| "told (Sleeping ids n) = [(block_hashes ids, n)]"
| "told (Answered ids n) = [(block_hashes ids, n)]"
| "told (Dropped ids n) = [(block_hashes ids, n)]"

definition all_told :: "prefill list \<Rightarrow> (u64 list \<times> usize) multiset" where
  "all_told ps = (\<Sum>p\<leftarrow>ps. mset (told p))"

definition service_inv :: "usize \<Rightarrow> replica_state_c \<Rightarrow> bool" where
  "service_inv cap x =
     (fst (serve_all lookup_insert (log x) (kv_new cap)) = kv_cache (service x) \<and>
      all_told (prefills x) = mset (zip (log x) (snd (serve_all lookup_insert (log x) (kv_new cap)))) \<and>
      cached_blocks_total (service x) = sum_list (map counted_cached (prefills x)) \<and>
      total_blocks_total (service x) = sum_list (map counted_total (prefills x)))"

lemma serve_all_snoc:
  "serve_all f (hss @ [hs]) c =
     (fst (f (fst (serve_all f hss c)) hs), snd (serve_all f hss c) @ [snd (f (fst (serve_all f hss c)) hs)])"
  by (induction hss arbitrary: c) (simp_all add: case_prod_beta)

lemma length_serve_all: "length (snd (serve_all f hss c)) = length hss"
  by (induction hss arbitrary: c) (simp_all add: case_prod_beta)

lemma all_told_update:
  assumes "k < length ps"
  shows "all_told (ps[k := p]) + mset (told (ps ! k)) = all_told ps + mset (told p)"
  using assms unfolding all_told_def by (induction ps arbitrary: k) (auto simp: nth_Cons' add_ac split: nat.splits)


lemma all_told_snoc [simp]: "all_told (ps @ [p]) = all_told ps + mset (told p)"
  by (simp add: all_told_def)

lemma service_inv_start: "service_inv (cache_blocks c) (replica_start c)"
  by (simp add: service_inv_def replica_start_def mock_service_new_def all_told_def)

lemma prefill_step_counts:
  assumes "prefill_step p m = Some (m', q, new)"
  shows "cached_blocks_total m' = cached_blocks_total m + d1 \<Longrightarrow> counted_cached q = counted_cached p + d1"
    and "total_blocks_total m' = total_blocks_total m + d2 \<Longrightarrow> counted_total q = counted_total p + d2"
  using assms by (cases p; auto simp: Let_def split: prod.splits)+

lemma prefill_step_log:
  assumes "prefill_step p m = Some (m', q, new)"
  shows "(new = [] \<and> told q = told p \<and> kv_cache m' = kv_cache m) \<or>
    (\<exists>hs. new = [hs] \<and> told p = [] \<and> told q = [(hs, snd (lookup_insert (kv_cache m) hs))] \<and>
      kv_cache m' = fst (lookup_insert (kv_cache m) hs))"
  using assms by (cases p) (auto simp: Let_def case_prod_beta)

lemma service_inv_step:
  assumes inv: "service_inv cap x" and step: "replica_step e x = Some y"
  shows "service_inv cap y"
proof (cases e)
  case (Receive ids)
  with inv step show ?thesis by (auto simp: service_inv_def)
next
  case (Proceed k)
  with step obtain m q new where k: "k < length (prefills x)" and p: "prefill_step (prefills x ! k) (service x) = Some (m, q, new)"
    and y: "y = \<lparr>service = m, prefills = (prefills x)[k := q], log = log x @ new\<rparr>"
    by (auto simp: bind_eq_Some_conv vec_get_def split: if_splits)
  have counts: "cached_blocks_total m = sum_list (map counted_cached ((prefills x)[k := q]))"
    "total_blocks_total m = sum_list (map counted_total ((prefills x)[k := q]))"
    using inv sum_list_update_word[OF k prefill_step_counts(1)[OF p, of "cached_blocks_total m - cached_blocks_total (service x)"]]
      sum_list_update_word[OF k prefill_step_counts(2)[OF p, of "total_blocks_total m - total_blocks_total (service x)"]]
    by (simp_all add: service_inv_def)
  from prefill_step_log[OF p] show ?thesis
  proof (elim disjE exE conjE)
    assume "new = []" "told q = told (prefills x ! k)" "kv_cache m = kv_cache (service x)"
    with inv counts all_told_update[OF k, of q] show ?thesis by (simp add: service_inv_def y)
  next
    fix hs
    assume new: "new = [hs]" "told (prefills x ! k) = []" "told q = [(hs, snd (lookup_insert (kv_cache (service x)) hs))]"
      "kv_cache m = fst (lookup_insert (kv_cache (service x)) hs)"
    with inv counts all_told_update[OF k, of q] show ?thesis
      by (simp add: service_inv_def y serve_all_snoc length_serve_all)
  qed
next
  case (Drop k)
  with step obtain ids n where k: "k < length (prefills x)" and p: "prefills x ! k = Sleeping ids n"
    and y: "y = x\<lparr>prefills := (prefills x)[k := Dropped ids n]\<rparr>"
    by (auto simp: bind_eq_Some_conv vec_get_def split: if_splits prefill.splits)
  have "sum_list (map counted_cached ((prefills x)[k := Dropped ids n])) = sum_list (map counted_cached (prefills x))"
    "sum_list (map counted_total ((prefills x)[k := Dropped ids n])) = sum_list (map counted_total (prefills x))"
    using sum_list_update_word[OF k, of counted_cached "Dropped ids n" 0] sum_list_update_word[OF k, of counted_total "Dropped ids n" 0]
    by (simp_all add: p)
  with inv all_told_update[OF k, of "Dropped ids n"] show ?thesis by (simp add: service_inv_def y p)
qed

lemma service_inv_run: "service_inv cap x \<Longrightarrow> replica_run es x = Some y \<Longrightarrow> service_inv cap y"
  by (induction es arbitrary: x) (auto simp: bind_eq_Some_conv dest: service_inv_step)

subsection \<open>The requests are served one at a time\<close>

text \<open>Requests that have been counted, and what the clients of the answered ones were told.\<close>

fun settled :: "prefill \<Rightarrow> bool" where
  "settled (Sleeping ids n) = True"
| "settled (Answered ids n) = True"
| "settled (Dropped ids n) = True"
| "settled p = False"

lemma settled_told:
  "settled p \<Longrightarrow> counted_cached p = word_of_nat (sum_list (map snd (told p))) \<and>
    counted_total p = word_of_nat (sum_list (map (\<lambda>(hs, n). length hs) (told p)))"
  by (cases p) simp_all

lemma settled_sums:
  assumes "\<forall>p\<in>set ps. settled p"
  shows "sum_list (map counted_cached ps) = word_of_nat (sum_mset (image_mset snd (all_told ps))) \<and>
    sum_list (map counted_total ps) = word_of_nat (sum_mset (image_mset (\<lambda>(hs, n). length hs) (all_told ps)))"
  using assms
proof (induction ps)
  case (Cons p ps)
  then show ?case using settled_told[of p] by (simp add: all_told_def sum_mset_sum_list flip: mset_map)
qed (simp add: all_told_def)

text \<open>C28. Concurrent prefills are linearizable. Let any number of requests overlap on a replica, each of
  them interrupted between any two of its steps, some dropped in their sleep. The cache and the
  hits the requests are told are those of an LRU cache that serves the prompts one at a time, in
  the order in which they took the mutex; and once all requests have counted their blocks, the two
  counters are the sums of the hits and of the blocks of those prompts, dropped requests included,
  so each block is counted once and no increment is lost.\<close>

theorem concurrent_prefills_linearize:
  assumes run: "replica_run es (replica_start c) = Some x" and settled: "\<forall>p\<in>set (prefills x). settled p"
    and room: "sum_list (map (\<lambda>hs. Suc (length hs)) (log x)) < 2 ^ 64"
  shows "\<exists>hits. lru_serve (cache_blocks c) (log x) [] = (recency (kv_cache (service x)), hits) \<and>
    all_told (prefills x) = mset (zip (log x) hits) \<and>
    cached_blocks_total (service x) = word_of_nat (sum_list hits) \<and>
    total_blocks_total (service x) = word_of_nat (sum_list (map length (log x)))"
proof -
  let ?serve = "serve_all lookup_insert (log x) (kv_new (cache_blocks c))"
  have inv: "service_inv (cache_blocks c) x" by (rule service_inv_run[OF service_inv_start run])
  have len: "length (log x) = length (snd ?serve)" by (simp add: length_serve_all)
  have spec: "lru_serve (cache_blocks c) (log x) [] = (recency (fst ?serve), snd ?serve)"
    using kv.serve_refines[of "kv_new (cache_blocks c)" "log x"] room by (simp add: counters_below_def)
  have "map (\<lambda>(hs, n). length hs) ps = map length (map fst ps)" for ps :: "(u64 list \<times> usize) list"
    by (induction ps) auto
  then have proj: "map snd (zip (log x) (snd ?serve)) = snd ?serve" "map (\<lambda>(hs, n). length hs) (zip (log x) (snd ?serve)) = map length (log x)"
    using len by (simp_all only: map_snd_zip map_fst_zip)
  have "sum_mset (image_mset snd (mset (zip (log x) (snd ?serve)))) = sum_list (snd ?serve)"
    "sum_mset (image_mset (\<lambda>(hs, n). length hs) (mset (zip (log x) (snd ?serve)))) = sum_list (map length (log x))"
    by (simp_all only: mset_map[symmetric] proj sum_mset_sum_list)
  with inv settled_sums[OF settled] spec show ?thesis by (simp add: service_inv_def del: of_nat_sum_mset)
qed

text \<open>Two requests for the same prompt overlap, the second takes the mutex first, and its client leaves.\<close>

definition demo_overlap :: "replica_event list" where
  "demo_overlap = [Receive (replicate 20 7), Receive (replicate 20 7), Proceed 1, Proceed 0, Proceed 0, Proceed 1, Proceed 1,
     Drop 1, Proceed 0, Proceed 0]"

lemma one_block_twice:
  "lookup_insert (kv_new 4096) [h] = (\<lparr>bmap = [(h, 1, 1)], heap = [Entry 1 1 h], clock = 1, seq = 1, capacity = 4096\<rparr>, 0)"
  "snd (lookup_insert \<lparr>bmap = [(h, 1, 1)], heap = [Entry 1 1 h], clock = 1, seq = 1, capacity = 4096\<rparr> [h]) = 1"
  by code_simp+

theorem concurrent_prefills_linearize_witness:
  "\<exists>x. replica_run demo_overlap (replica_start mock_config_default) = Some x \<and>
    prefills x = [Answered (replicate 20 7) 1, Dropped (replicate 20 7) 0] \<and>
    total_blocks_total (service x) = 2"
proof -
  have "length (block_hashes (replicate 20 (7 :: u32))) = 1" by (simp add: length_block_hashes BLOCK_SIZE_def)
  then obtain h where h: "block_hashes (replicate 20 7) = [h]" by (auto simp: length_Suc_conv)
  have "map_option (\<lambda>x. (prefills x, map length (log x))) (replica_run demo_overlap (replica_start mock_config_default)) =
    Some ([Answered (replicate 20 7) 1, Dropped (replicate 20 7) 0], [1, 1])"
    by (simp add: demo_overlap_def replica_start_def mock_service_new_def mock_config_default_def vec_get_def h
        one_block_twice case_prod_beta Let_def del: replicate.simps)
  then obtain x where x: "replica_run demo_overlap (replica_start mock_config_default) = Some x"
    "prefills x = [Answered (replicate 20 7) 1, Dropped (replicate 20 7) 0]" "map length (log x) = [1, 1]"
    by auto
  have "map (\<lambda>hs. Suc (length hs)) (log x) = map Suc (map length (log x))" by simp
  then have "sum_list (map (\<lambda>hs. Suc (length hs)) (log x)) = 4" unfolding x(3) by simp
  then have "total_blocks_total (service x) = word_of_nat (sum_list (map length (log x)))"
    using concurrent_prefills_linearize[OF x(1)] x(2) by auto
  with x show ?thesis by simp
qed

end
