(* ===== verification/Router_Gauges.thy ===== *)
theory Router_Gauges
  imports Router_Props
begin

text \<open>
  The in-flight gauges under concurrency. \<open>pick_replica\<close> and \<open>complete\<close> of \<open>router/src/server.rs\<close> change
  the count under the scheduler's mutex, give the mutex back, and store the count into the gauge
  after that. Here the two halves are steps of their own, so other requests come in between.
\<close>

datatype gauge_task = Undecided "u64 list" | Decided usize usize | Calling usize | Ended usize usize | Stored

fun gauge_task_step :: "gauge_task \<Rightarrow> router_inner \<Rightarrow> (router_inner \<times> gauge_task) option" where
  "gauge_task_step (Undecided hs) r = do {
     (s, picked) \<leftarrow> pick (sched r) hs;
     let r = r\<lparr>sched := s, routing_observations := routing_observations r + 1\<rparr>;
     Some (r, case picked of Inl e \<Rightarrow> Stored | Inr d \<Rightarrow> Decided (replica d) (inflight_after d))
   }"
| "gauge_task_step (Decided i v) r = do {
     r \<leftarrow> set_gauge i (as_i64 v) r;
     Some (r, Calling i)
   }"
| "gauge_task_step (Calling i) r = do {
     s \<leftarrow> complete (sched r) i;
     n \<leftarrow> inflight_of s i;
     Some (r\<lparr>sched := s\<rparr>, Ended i n)
   }"
| "gauge_task_step (Ended i v) r = do {
     r \<leftarrow> set_gauge i (as_i64 v) r;
     Some (r, Stored)
   }"
| "gauge_task_step Stored r = None"

datatype gauge_event = Arrive "u64 list" | Continue nat

fun gauge_step :: "gauge_event \<Rightarrow> router_inner \<times> gauge_task list \<Rightarrow> (router_inner \<times> gauge_task list) option" where
  "gauge_step (Arrive hs) (r, ts) = Some (r, ts @ [Undecided hs])"
| "gauge_step (Continue k) (r, ts) = do {
     t \<leftarrow> vec_get ts k;
     (r, t) \<leftarrow> gauge_task_step t r;
     Some (r, ts[k := t])
   }"

fun gauge_run :: "gauge_event list \<Rightarrow> router_inner \<times> gauge_task list \<Rightarrow> (router_inner \<times> gauge_task list) option" where
  "gauge_run [] x = Some x"
| "gauge_run (e # es) x = Option.bind (gauge_step e x) (gauge_run es)"

text \<open>The two halves one after the other are the functions of \<open>Router_Server\<close>.\<close>

lemma pick_replica_halves:
  "pick_replica r hs = Some (r', Inr d) \<longleftrightarrow>
    (\<exists>r1. pick (sched r) hs = Some (sched r1, Inr d) \<and>
      gauge_task_step (Undecided hs) r = Some (r1, Decided (replica d) (inflight_after d)) \<and>
      gauge_task_step (Decided (replica d) (inflight_after d)) r1 = Some (r', Calling (replica d)))"
proof (cases "pick (sched r) hs")
  case (Some x)
  obtain s picked where "x = (s, picked)" by (cases x)
  with Some show ?thesis by (cases picked) (auto simp: pick_replica_def bind_eq_Some_conv Let_def)
qed (simp add: pick_replica_def)

lemma router_complete_halves:
  "router_complete r i = Some r' \<longleftrightarrow>
    (\<exists>r1 n. gauge_task_step (Calling i) r = Some (r1, Ended i n) \<and> gauge_task_step (Ended i n) r1 = Some (r', Stored))"
  by (auto simp: router_complete_def bind_eq_Some_conv)

subsection \<open>The gauges stay in range\<close>

fun value_ok :: "nat \<Rightarrow> usize \<Rightarrow> gauge_task \<Rightarrow> bool" where
  "value_ok n c (Decided i v) = (v \<le> c \<and> i < n)"
| "value_ok n c (Calling i) = (i < n)"
| "value_ok n c (Ended i v) = (v \<le> c \<and> i < n)"
| "value_ok n c t = True"

definition gauge_inv :: "nat \<Rightarrow> scheduler_config \<Rightarrow> router_inner \<times> gauge_task list \<Rightarrow> bool" where
  "gauge_inv n c x =
     (router_inv (fst x) \<and> fleet_size (fst x) = n \<and> cfg (sched (fst x)) = c \<and>
      (\<forall>v\<in>set (inflight_gauges (fst x)). 0 \<le> v \<and> v \<le> int (max_inflight c)) \<and>
      (\<forall>t\<in>set (snd x). value_ok n (max_inflight c) t))"

lemma set_gauge_ok:
  assumes "gauge_inv n c (r, ts)" and "i < n" and "v \<le> max_inflight c" and "max_inflight c < 2 ^ 63"
  shows "\<exists>r'. set_gauge i (as_i64 v) r = Some r' \<and> gauge_inv n c (r', ts)"
proof -
  have v: "as_i64 v = int v" using assms(3,4) by (intro as_i64_small) simp
  from assms(1,2) have i: "i < length (inflight_gauges r)" by (simp add: gauge_inv_def router_inv_def fleet_size_def)
  have "\<forall>w\<in>set ((inflight_gauges r)[i := int v]). 0 \<le> w \<and> w \<le> int (max_inflight c)"
    using assms(1,3) set_update_subset_insert[of "inflight_gauges r" i "int v"] by (auto simp: gauge_inv_def)
  with i v assms(1) show ?thesis by (simp add: set_gauge_def gauge_inv_def router_inv_def fleet_size_def)
qed

lemma gauge_task_ok:
  assumes inv: "gauge_inv n c (r, ts)" and t: "value_ok n (max_inflight c) t" "t \<noteq> Stored" and c: "max_inflight c < 2 ^ 63"
  shows "\<exists>r' t'. gauge_task_step t r = Some (r', t') \<and> gauge_inv n c (r', ts) \<and> value_ok n (max_inflight c) t'"
proof -
  from inv have s: "sched_inv (sched r)" "length (replicas (sched r)) = n" "cfg (sched r) = c"
    by (simp_all add: gauge_inv_def router_inv_def fleet_size_def num_replicas_def)
  show ?thesis
  proof (cases t)
    case (Undecided hs)
    show ?thesis
    proof (rule pick_cases[of "sched r" hs])
      fix e assume "pick (sched r) hs = Some (sched r, Inl e)"
      with Undecided inv show ?thesis by (simp add: gauge_inv_def router_inv_def fleet_size_def)
    next
      fix i m
      let ?s = "(rr_advance (sched r) i)\<lparr>replicas := (replicas (sched r))[i := routed (sched r) hs (replicas (sched r) ! i)]\<rparr>"
      assume d: "decides (sched r) hs i m" and p: "pick (sched r) hs =
        Some (?s, Inr \<lparr>replica = i, matched_blocks = m, inflight_after = inflight (replicas (sched r) ! i) + 1\<rparr>)"
      have "i < n" "inflight (replicas (sched r) ! i) + 1 \<le> max_inflight c"
        using decides_available[OF d] s by (auto simp: available_def)
      moreover have "sched_inv ?s" "length (replicas ?s) = n" "cfg ?s = c"
        using sched_inv_pick[OF s(1) p] pick_frame[OF p] s by simp_all
      ultimately show ?thesis using Undecided inv p by (simp add: gauge_inv_def router_inv_def fleet_size_def num_replicas_def)
    qed
  next
    case (Decided i v)
    with t set_gauge_ok[OF inv _ _ c, of i v] show ?thesis by auto
  next
    case (Ended i v)
    with t set_gauge_ok[OF inv _ _ c, of i v] show ?thesis by auto
  next
    case (Calling i)
    with t s(2) have i: "i < length (replicas (sched r))" by simp
    then obtain s' where c': "complete (sched r) i = Some s'" by (simp add: complete_def vec_get_def)
    have s': "sched_inv s'" "length (replicas s') = n" "cfg s' = c"
      using sched_inv_complete[OF s(1) c'] c' s by (auto simp: complete_def bind_eq_Some_conv)
    with i s(2) sched_inv_nth[of s' i] have "inflight (replicas s' ! i) \<le> max_inflight c" by (simp add: replica_inv_def)
    with Calling c' s' inv i s(2) show ?thesis
      by (simp add: inflight_of_def vec_get_def gauge_inv_def router_inv_def fleet_size_def num_replicas_def)
  qed (use t in simp)
qed

lemma gauge_run_inv:
  assumes "max_inflight c < 2 ^ 63"
  shows "gauge_run es x = Some y \<Longrightarrow> gauge_inv n c x \<Longrightarrow> gauge_inv n c y"
proof (induction es arbitrary: x)
  case (Cons e es)
  obtain r ts where x: "x = (r, ts)" by (cases x)
  from Cons.prems(1) obtain z where z: "gauge_step e x = Some z" "gauge_run es z = Some y" by (auto simp: bind_eq_Some_conv)
  have "gauge_inv n c z"
  proof (cases e)
    case (Arrive hs)
    with z(1) Cons.prems(2) x show ?thesis by (auto simp: gauge_inv_def)
  next
    case (Continue k)
    with z(1) x obtain r' t' where k: "k < length ts" "gauge_task_step (ts ! k) r = Some (r', t')" "z = (r', ts[k := t'])"
      by (auto simp: bind_eq_Some_conv)
    have "value_ok n (max_inflight c) (ts ! k)" using k(1) Cons.prems(2) x by (simp add: gauge_inv_def)
    moreover have "ts ! k \<noteq> Stored" using k(2) by auto
    ultimately have "gauge_inv n c (r', ts) \<and> value_ok n (max_inflight c) t'"
      using gauge_task_ok[of n c r ts "ts ! k"] Cons.prems(2) x k(2) assms by auto
    then show ?thesis using set_update_subset_insert[of ts k t'] by (auto simp: k(3) gauge_inv_def)
  qed
  with Cons.IH z(2) show ?case by blast
qed simp

lemma gauge_inv_new: "gauge_inv n c (router_inner_new (scheduler_new n pol c) n, [])"
  using router_inv_new[of n pol c] by (simp add: gauge_inv_def fleet_size_def num_replicas_def) (simp add: router_inner_new_def scheduler_new_def)

subsection \<open>The gauges can stay wrong\<close>

lemma single_pick:
  assumes "length (replicas s) = 1" "healthy (replicas s ! 0)" "inflight (replicas s ! 0) < max_inflight (cfg s)"
  obtains s' d where "pick s hs = Some (s', Inr d)" "replica d = 0" "inflight_after d = inflight (replicas s ! 0) + 1"
    "length (replicas s') = 1" "healthy (replicas s' ! 0)" "inflight (replicas s' ! 0) = inflight (replicas s ! 0) + 1" "cfg s' = cfg s"
proof (rule pick_cases[of s hs])
  fix e assume "\<forall>r\<in>set (replicas s). \<not> available (cfg s) r"
  moreover have "replicas s ! 0 \<in> set (replicas s)" using assms(1) by simp
  ultimately show thesis using assms(2,3) by (auto simp: available_def)
next
  fix i m
  assume d: "decides s hs i m" and p: "pick s hs = Some ((rr_advance s i)\<lparr>replicas := (replicas s)[i := routed s hs (replicas s ! i)]\<rparr>,
        Inr \<lparr>replica = i, matched_blocks = m, inflight_after = inflight (replicas s ! i) + 1\<rparr>)"
  have i: "i = 0" using decides_available[OF d] assms(1) by simp
  show thesis
    by (rule that[OF p]) (use assms i pick_frame(3)[OF p] in \<open>simp_all add: routed_def\<close>)
qed

text \<open>Two requests overlap; the one that completes first stores its count last.\<close>

definition race :: "gauge_event list" where
  "race = [Arrive [], Arrive [], Continue 0, Continue 0, Continue 1, Continue 1, Continue 0, Continue 1, Continue 1, Continue 0]"

lemma race_run:
  assumes "2 \<le> max_inflight c"
  shows "\<exists>r. gauge_run race (router_inner_new (scheduler_new 1 pol c) 1, []) = Some (r, [Stored, Stored]) \<and>
    inflight_of (sched r) 0 = Some 0 \<and> inflight_gauges r = [1]"
proof -
  let ?s0 = "scheduler_new 1 pol c"
  have s0: "length (replicas ?s0) = 1" "healthy (replicas ?s0 ! 0)" "inflight (replicas ?s0 ! 0) = 0" "cfg ?s0 = c"
    by (simp_all add: scheduler_new_def new_replica_def)
  with assms have "inflight (replicas ?s0 ! 0) < max_inflight (cfg ?s0)" by simp
  from single_pick[OF s0(1,2) this, of "[]"] s0(3,4) obtain s1 d1 where
    s1: "pick ?s0 [] = Some (s1, Inr d1)" "replica d1 = 0" "inflight_after d1 = 1" "length (replicas s1) = 1"
      "healthy (replicas s1 ! 0)" "inflight (replicas s1 ! 0) = 1" "cfg s1 = c" by auto
  with assms have "inflight (replicas s1 ! 0) < max_inflight (cfg s1)" by simp
  from this obtain s2 d2 where
    s2: "pick s1 [] = Some (s2, Inr d2)" "replica d2 = 0" "inflight_after d2 = 2" "length (replicas s2) = 1"
      "inflight (replicas s2 ! 0) = 2"
    by (rule single_pick[OF s1(4,5), of "[]"]) (rule that, simp_all add: s1 numeral_2_eq_2)
  moreover from s2(4) have "replicas s2 \<noteq> []" by auto
  moreover have "as_i64 0 = 0" "as_i64 1 = 1" "as_i64 2 = 2" by (simp_all add: as_i64_small)
  ultimately show ?thesis using s1(1-4)
    by (simp add: race_def router_inner_new_def vec_get_def set_gauge_def complete_def inflight_of_def)
qed

text \<open>C35. The in-flight gauges are not exact. Under any interleaving of requests a gauge shows a number
  between zero and the cap, but since the count is stored after the mutex is given back, an older
  count can overwrite a newer one: two overlapping requests on an idle replica, of any
  configuration that allows them, can leave the gauge at one when no request is left and the count
  is zero.\<close>

theorem gauges_can_go_stale:
  assumes "2 \<le> max_inflight c" and "max_inflight c < 2 ^ 63"
  shows "(gauge_run es (router_inner_new (scheduler_new n pol c) n, []) = Some (r, ts) \<and> i < n \<longrightarrow>
      0 \<le> inflight_gauges r ! i \<and> inflight_gauges r ! i \<le> int (max_inflight c)) \<and>
    (\<exists>es r. gauge_run es (router_inner_new (scheduler_new 1 pol c) 1, []) = Some (r, [Stored, Stored]) \<and>
      inflight_of (sched r) 0 = Some 0 \<and> inflight_gauges r = [1])"
proof (intro conjI impI)
  assume "gauge_run es (router_inner_new (scheduler_new n pol c) n, []) = Some (r, ts) \<and> i < n"
  then have "gauge_inv n c (r, ts)" "i < n" using gauge_run_inv[OF assms(2) _ gauge_inv_new] by blast+
  then have "inflight_gauges r ! i \<in> set (inflight_gauges r)" "gauge_inv n c (r, ts)"
    by (auto simp: gauge_inv_def router_inv_def fleet_size_def)
  then show "0 \<le> inflight_gauges r ! i" "inflight_gauges r ! i \<le> int (max_inflight c)" by (auto simp: gauge_inv_def)
qed (use race_run[OF assms(1)] in blast)

theorem gauges_can_go_stale_witness:
  "\<exists>r. gauge_run race (router_inner_new (scheduler_new 1 CacheAware demo_config) 1, []) = Some (r, [Stored, Stored]) \<and>
    inflight_gauges r ! 0 = 1 \<and> inflight_gauges r ! 0 \<le> 2"
proof -
  have c: "2 \<le> max_inflight demo_config" "max_inflight demo_config < 2 ^ 63" by (simp_all add: demo_config_def)
  from race_run[OF c(1), of CacheAware] obtain r where r: "gauge_run race (router_inner_new (scheduler_new 1 CacheAware demo_config) 1, []) =
    Some (r, [Stored, Stored])" "inflight_gauges r = [1]" by blast
  with gauges_can_go_stale[OF c, of race 1 CacheAware r "[Stored, Stored]" 0] show ?thesis by (simp add: demo_config_def)
qed

end
