(* ===== verification/Scheduler_Spec.thy ===== *)
theory Scheduler_Spec
  imports Fleet
begin

text \<open>
  The contract of the scheduler, with no clock, heap, hash map or floating-point number: a
  replica is the list of its blocks (the one evicted first stands last), its load and whether it
  is in routing. A decision is defined by what it optimises. The theory shows that the scheduler
  of the code, run from its constructor, gives the outputs of this contract and stays its
  abstraction.
\<close>

subsection \<open>The contract\<close>

record replica_spec =
  blocks :: "u64 list"
  load :: nat
  routable :: bool

record sched_spec =
  fleet_of :: "replica_spec list"
  cursor :: nat

definition spec_new :: "nat \<Rightarrow> sched_spec" where
  "spec_new n = \<lparr>fleet_of = replicate n \<lparr>blocks = [], load = 0, routable = True\<rparr>, cursor = 0\<rparr>"

text \<open>The first element of a list with the greatest value.\<close>

definition first_max :: "('a \<Rightarrow> int) \<Rightarrow> 'a list \<Rightarrow> 'a option" where
  "first_max f xs = find (\<lambda>x. \<forall>y\<in>set xs. f y \<le> f x) xs"

definition spec_free :: "scheduler_config \<Rightarrow> sched_spec \<Rightarrow> nat \<Rightarrow> bool" where
  "spec_free c S i = (routable (fleet_of S ! i) \<and> load (fleet_of S ! i) < max_inflight c)"

definition spec_hits :: "sched_spec \<Rightarrow> u64 list \<Rightarrow> nat \<Rightarrow> nat" where
  "spec_hits S hs i = lru_hits hs (blocks (fleet_of S ! i))"

text \<open>
  Cache-aware: the first replica with the greatest hits minus twice the load, unless that one has
  too few hits; then the first of the least loaded. Round robin: the first free replica from the
  cursor on.
\<close>

fun spec_choice :: "policy \<Rightarrow> scheduler_config \<Rightarrow> sched_spec \<Rightarrow> u64 list \<Rightarrow> (nat \<times> nat) option" where
  "spec_choice CacheAware c S hs =
     (let free = filter (spec_free c S) [0..<length (fleet_of S)]
      in case first_max (\<lambda>i. int (spec_hits S hs i) - 2 * int (load (fleet_of S ! i))) free of
           None \<Rightarrow> None
         | Some b \<Rightarrow>
             if min_match_blocks c \<le> spec_hits S hs b then Some (b, spec_hits S hs b)
             else map_option (\<lambda>l. (l, spec_hits S hs l)) (first_max (\<lambda>i. - int (load (fleet_of S ! i))) free))"
| "spec_choice RoundRobin c S hs =
     map_option (\<lambda>i. (i, 0)) (find (spec_free c S) (rotate (cursor S) [0..<length (fleet_of S)]))"

definition spec_route :: "policy \<Rightarrow> scheduler_config \<Rightarrow> sched_spec \<Rightarrow> u64 list \<Rightarrow> nat \<Rightarrow> sched_spec" where
  "spec_route pol c S hs i =
     (let r = fleet_of S ! i;
          xs = (if pol = CacheAware then lru_admit (block_budget c) hs (blocks r) else blocks r)
      in \<lparr>fleet_of = (fleet_of S)[i := r\<lparr>blocks := xs, load := load r + 1\<rparr>],
          cursor = (if pol = RoundRobin then (i + 1) mod length (fleet_of S) else cursor S)\<rparr>)"

definition spec_pick ::
  "policy \<Rightarrow> scheduler_config \<Rightarrow> sched_spec \<Rightarrow> u64 list \<Rightarrow> sched_spec \<times> (pick_error + route_decision)" where
  "spec_pick pol c S hs =
     (case spec_choice pol c S hs of
        Some (i, m) \<Rightarrow>
          (spec_route pol c S hs i,
           Inr \<lparr>replica = i, matched_blocks = m, inflight_after = load (fleet_of S ! i) + 1\<rparr>)
      | None \<Rightarrow> (S, Inl (if \<exists>r\<in>set (fleet_of S). routable r then AllSaturated else NoHealthyReplicas)))"

fun spec_step ::
  "policy \<Rightarrow> scheduler_config \<Rightarrow> sched_op \<Rightarrow> sched_spec \<Rightarrow> sched_spec \<times> (pick_error + route_decision) option" where
  "spec_step pol c (Pick hs) S = (let (S', res) = spec_pick pol c S hs in (S', Some res))"
| "spec_step pol c (Complete i) S =
     (let r = fleet_of S ! i in (S\<lparr>fleet_of := (fleet_of S)[i := r\<lparr>load := load r - 1\<rparr>]\<rparr>, None))"
| "spec_step pol c (MarkUnhealthy i) S =
     (S\<lparr>fleet_of := (fleet_of S)[i := \<lparr>blocks = [], load = 0, routable = False\<rparr>]\<rparr>, None)"
| "spec_step pol c (MarkHealthy i) S =
     (S\<lparr>fleet_of := (fleet_of S)[i := (fleet_of S ! i)\<lparr>routable := True\<rparr>]\<rparr>, None)"

fun spec_trace ::
  "policy \<Rightarrow> scheduler_config \<Rightarrow> sched_op list \<Rightarrow> sched_spec \<Rightarrow> sched_spec \<times> (pick_error + route_decision) option list" where
  "spec_trace pol c [] S = (S, [])"
| "spec_trace pol c (p # ps) S =
     (let (S1, res) = spec_step pol c p S; (S2, outs) = spec_trace pol c ps S1 in (S2, res # outs))"

text \<open>The same calls on the code, with the results of the picks.\<close>

fun sched_output :: "sched_op \<Rightarrow> scheduler \<Rightarrow> (pick_error + route_decision) option" where
  "sched_output (Pick hs) s = map_option snd (pick s hs)"
| "sched_output _ s = None"

fun sched_trace ::
  "sched_op list \<Rightarrow> scheduler \<Rightarrow> (scheduler \<times> (pick_error + route_decision) option list) panics" where
  "sched_trace [] s = Some (s, [])"
| "sched_trace (p # ps) s = do {
     s1 \<leftarrow> sched_step p s;
     (s2, outs) \<leftarrow> sched_trace ps s1;
     Some (s2, sched_output p s # outs)
   }"

subsection \<open>Abstraction\<close>

definition abs_replica :: "replica_state \<Rightarrow> replica_spec" where
  "abs_replica r = \<lparr>blocks = recency (cache r), load = inflight r, routable = healthy r\<rparr>"

definition abs_sched :: "scheduler \<Rightarrow> sched_spec" where
  "abs_sched s = \<lparr>fleet_of = map abs_replica (replicas s), cursor = rr_next s\<rparr>"

lemma abs_replica_fields [sched_simps]:
  "blocks (abs_replica r) = recency (cache r)" "load (abs_replica r) = inflight r" "routable (abs_replica r) = healthy r"
  by (simp_all add: abs_replica_def)

lemma abs_sched_fields [sched_simps]:
  "fleet_of (abs_sched s) = map abs_replica (replicas s)" "cursor (abs_sched s) = rr_next s"
  by (simp_all add: abs_sched_def)

lemma abs_sched_new: "abs_sched (scheduler_new n pol c) = spec_new n"
  by (simp add: abs_sched_def scheduler_new_def spec_new_def abs_replica_def new_replica_def lru_simps
      map_replicate_const comp_def)

lemma spec_free_abs: "i < length (replicas s) \<Longrightarrow> spec_free c (abs_sched s) i = available c (replicas s ! i)"
  by (simp add: spec_free_def available_def sched_simps)

lemma spec_hits_abs: "i < length (replicas s) \<Longrightarrow> spec_hits (abs_sched s) hs i = lookup (cache (replicas s ! i)) hs"
  by (simp add: spec_hits_def lookup_recency sched_simps)

lemma free_abs: "filter (spec_free c (abs_sched s)) [0..<length (replicas s)] = available_indices c (replicas s)"
  unfolding available_indices_def by (rule filter_cong) (auto simp: spec_free_abs)

text \<open>What the observers of the code return is in the abstraction.\<close>

lemma observers_abs:
  "is_healthy s i = (if i < num_replicas s then Some (routable (fleet_of (abs_sched s) ! i)) else None)"
  "inflight_of s i = (if i < num_replicas s then Some (load (fleet_of (abs_sched s) ! i)) else None)"
  "replica_blocks s i = (if i < num_replicas s then Some (length (blocks (fleet_of (abs_sched s) ! i))) else None)"
  by (simp_all add: is_healthy_def inflight_of_def replica_blocks_def num_replicas_def vec_get_def sched_simps
      num_blocks_recency)

subsection \<open>First maxima\<close>

lemma first_maxI:
  assumes "sorted xs" "distinct xs" and b: "b \<in> set xs" "\<forall>y\<in>set xs. f y \<le> f b"
    and first: "\<forall>y\<in>set xs. y < b \<longrightarrow> f y < f b"
  shows "first_max f xs = Some (b :: nat)"
proof -
  from b(1) obtain us vs where xs: "xs = us @ b # vs" by (meson split_list)
  with assms(1,2) have "\<forall>y\<in>set us. y < b"
    by (auto simp: sorted_append order_less_le)
  with first xs have "\<not> (\<forall>y\<in>set xs. f y \<le> f x)" if "x \<in> set us" for x
    using that b(1) by (auto simp: not_le)
  then have "find (\<lambda>x. \<forall>y\<in>set xs. f y \<le> f x) us = None" by (simp add: find_None_iff)
  moreover have "find P (us @ b # vs) = Some b" if "find P us = None" "P b" for P
    using that by (induction us) (auto split: if_splits)
  ultimately show ?thesis using b(2) unfolding first_max_def xs by blast
qed

lemma first_max_cong:
  "(\<And>x. x \<in> set xs \<Longrightarrow> f x = g x) \<Longrightarrow> first_max f xs = first_max g xs"
  unfolding first_max_def by (rule find_cong) auto

text \<open>\<open>min_by_key\<close> is the first maximum of the negated key.\<close>

lemma first_max_Cons:
  "first_max f (x # xs) =
    (case first_max f xs of None \<Rightarrow> Some x | Some m \<Rightarrow> if f m \<le> f x then Some x else Some m)"
proof (cases "first_max f xs")
  case None
  have "xs = []"
  proof (rule ccontr)
    assume "xs \<noteq> []"
    then have "Max (f ` set xs) \<in> f ` set xs" by (intro Max_in) auto
    then obtain m where "m \<in> set xs" "f m = Max (f ` set xs)" by auto
    then have "m \<in> set xs \<and> (\<forall>y\<in>set xs. f y \<le> f m)" by simp
    with None show False by (auto simp: first_max_def find_None_iff)
  qed
  then show ?thesis by (simp add: first_max_def)
next
  case (Some m)
  then have m: "m \<in> set xs" "\<forall>y\<in>set xs. f y \<le> f m"
    by (auto simp: first_max_def find_Some_iff)
  show ?thesis
  proof (cases "f m \<le> f x")
    case True
    with m(2) have "\<forall>y\<in>set xs. f y \<le> f x" by (meson order_trans)
    with True Some show ?thesis by (simp add: first_max_def)
  next
    case False
    have same: "(\<forall>z\<in>set (x # xs). f z \<le> f y) \<longleftrightarrow> (\<forall>z\<in>set xs. f z \<le> f y)" for y
      using False m(1) by (auto intro: order_trans[of "f x" "f m"])
    have "find (\<lambda>y. \<forall>z\<in>set (x # xs). f z \<le> f y) xs = find (\<lambda>y. \<forall>z\<in>set xs. f z \<le> f y) xs"
      by (rule find_cong[OF refl]) (simp only: same)
    moreover have "\<not> (\<forall>z\<in>set (x # xs). f z \<le> f x)" using False m(1) by auto
    ultimately show ?thesis using Some False unfolding first_max_def by (simp only: find.simps option.case if_False)
  qed
qed

lemma foldl_min_first_max:
  "first_max (\<lambda>y. - int (f y)) (x # xs) = Some (foldl (\<lambda>m y. if f y < f m then y else m) x xs)"
proof (induction xs arbitrary: x)
  case Nil
  show ?case by (simp add: first_max_def)
next
  case (Cons z zs)
  let ?g = "\<lambda>y. - int (f y)" and ?F = "\<lambda>x. foldl (\<lambda>m y. if f y < f m then y else m) x zs"
  show ?case
  proof (cases "first_max ?g zs")
    case None
    have "Some (?F y) = Some y" for y
      by (simp only: Cons.IH[symmetric] first_max_Cons None option.case)
    then have F: "?F y = y" for y by (rule option.inject[THEN iffD1])
    show ?thesis unfolding first_max_Cons[of _ _ "z # zs"] Cons.IH by (simp add: F)
  next
    case (Some m)
    have "Some (?F y) = (if f y \<le> f m then Some y else Some m)" for y
      by (simp only: Cons.IH[symmetric] first_max_Cons Some option.case neg_le_iff_le of_nat_le_iff)
    then have F: "?F y = (if f y \<le> f m then y else m)" for y by (simp only: if_distrib[of Some, symmetric] option.inject)
    show ?thesis unfolding first_max_Cons[of _ _ "z # zs"] Cons.IH by (simp add: F)
  qed
qed

lemma min_by_key_first_max: "min_by_key f xs = first_max (\<lambda>y. - int (f y)) xs"
proof (cases xs)
  case Nil
  then show ?thesis by (simp add: first_max_def)
next
  case (Cons x ys)
  then show ?thesis using foldl_min_first_max[of f x ys] by simp
qed

subsection \<open>A decision of the code is the decision of the contract\<close>

text \<open>The weights for which the scores are exact integers.\<close>

definition exact_config :: "policy \<Rightarrow> scheduler_config \<Rightarrow> bool" where
  "exact_config pol c =
     (pol = CacheAware \<longrightarrow>
        alpha c = F64 1 0 \<and> beta c = F64 2 0 \<and> 0 < min_match_blocks c \<and> max_inflight c \<le> 2 ^ 51)"

lemma exact_default_weights: "exact_config (policy s) (cfg s) \<Longrightarrow> policy s = CacheAware \<Longrightarrow> default_weights s"
  by (simp add: exact_config_def default_weights_def)

lemma rotate_upt: "rotate k [0..<n] = map (\<lambda>off. (k + off) mod n) [0..<n]"
  by (rule nth_equalityI) (auto simp: nth_rotate)

lemma find_map: "find P (map f xs) = map_option f (find (\<lambda>x. P (f x)) xs)"
  by (induction xs) auto

lemma rr_choice_abs:
  assumes "policy s = RoundRobin" and "decides s hs i m"
  shows "spec_choice RoundRobin (cfg s) (abs_sched s) hs = Some (i, m)"
proof -
  let ?n = "length (replicas s)"
  have "find (spec_free (cfg s) (abs_sched s)) (rotate (rr_next s) [0..<?n]) =
      find (\<lambda>i. map (available (cfg s)) (replicas s) ! i) (rotate (rr_next s) [0..<?n])"
    by (rule find_cong) (auto simp: spec_free_abs)
  also have "\<dots> = rr_scan (map (available (cfg s)) (replicas s)) (rr_next s) ?n [0..<?n]"
    unfolding rr_scan_eq rotate_upt by (simp add: find_map)
  finally show ?thesis
    using assms by (auto simp: decides_def sched_simps)
qed

lemma cache_choice_abs:
  assumes w: "default_weights s" "length hs < 2 ^ 51" and d: "decides s hs i m"
  shows "spec_choice CacheAware (cfg s) (abs_sched s) hs = Some (i, m)"
proof -
  let ?av = "available_indices (cfg s) (replicas s)"
  let ?worth = "\<lambda>i. int (spec_hits (abs_sched s) hs i) - 2 * int (load (fleet_of (abs_sched s) ! i))"
  have pol: "policy s = CacheAware" using w(1) by (simp add: default_weights_def)
  have ne: "?av \<noteq> []"
    using decides_available[OF d] set_available_indices[of "cfg s" "replicas s"]
    by (metis (mono_tags, lifting) empty_iff list.set(1) mem_Collect_eq)
  obtain b k where loop: "best_loop (cfg s) (replicas s) hs ?av (?av ! 0) f64_MIN 0 = (b, k)"
    by fastforce
  from default_best_loop[OF w loop ne]
  have b: "b < length (replicas s)" "available (cfg s) (replicas s ! b)" "first_best s hs b"
    "k = lookup (cache (replicas s ! b)) hs" by auto
  have worth: "?worth j = net_matches s hs j" if "j < length (replicas s)" for j
    using that by (simp add: spec_hits_abs net_matches_def sched_simps)
  have "first_max ?worth ?av = Some b"
    using b by (intro first_maxI) (auto simp: worth first_best_def available_indices_def sorted_wrt_filter)
  moreover have "first_max (\<lambda>i. - int (load (fleet_of (abs_sched s) ! i))) ?av =
      min_by_key (\<lambda>i. inflight (replicas s ! i)) ?av"
    unfolding min_by_key_first_max by (rule first_max_cong) (simp add: sched_simps)
  moreover have "spec_hits (abs_sched s) hs l = lookup (cache (replicas s ! l)) hs"
    if "min_by_key (\<lambda>i. inflight (replicas s ! i)) ?av = Some l" for l
    using min_by_key_Some(1)[OF that] by (simp add: spec_hits_abs)
  ultimately show ?thesis
    using d loop ne b
    by (auto simp: decides_def pol pick_cache_aware_eq sched_simps free_abs spec_hits_abs Let_def split: if_splits)
qed

lemma choice_abs:
  assumes "exact_config (policy s) (cfg s)" and "length hs < 2 ^ 51" and "decides s hs i m"
  shows "spec_choice (policy s) (cfg s) (abs_sched s) hs = Some (i, m)"
  using assms exact_default_weights[of s] rr_choice_abs[of s hs i m] cache_choice_abs[of s hs i m]
  by (cases "policy s") auto

lemma no_choice_abs:
  assumes "\<forall>r\<in>set (replicas s). \<not> available (cfg s) r"
  shows "spec_choice pol (cfg s) (abs_sched s) hs = None"
proof -
  have no: "\<not> spec_free (cfg s) (abs_sched s) i" if "i < length (replicas s)" for i
    using that assms by (simp add: spec_free_abs)
  then have "filter (spec_free (cfg s) (abs_sched s)) [0..<length (replicas s)] = []"
    by (simp add: filter_empty_conv)
  moreover have "find (spec_free (cfg s) (abs_sched s)) (rotate k [0..<length (replicas s)]) = None" for k
    using no by (simp add: find_None_iff)
  ultimately show ?thesis by (cases pol) (simp_all add: sched_simps first_max_def)
qed

subsection \<open>Steps and runs\<close>

lemma map_abs_update: "map abs_replica (rs[i := r]) = (map abs_replica rs)[i := abs_replica r]"
  by (rule map_update)

lemma abs_routed:
  assumes "sched_room (Suc (length hs) + n) s" and "i < length (replicas s)"
  shows "abs_replica (routed s hs (replicas s ! i)) =
    (let r = abs_replica (replicas s ! i)
     in r\<lparr>blocks := if policy s = CacheAware then lru_admit (block_budget (cfg s)) hs (blocks r) else blocks r,
          load := load r + 1\<rparr>)"
proof -
  let ?c = "cache (replicas s ! i)"
  from sched_room_nth[OF assms] have c: "lru_wf ?c" "lru_ordered ?c" "headroom (length hs) ?c"
    using counters_headroom[of hs n ?c] by auto
  have "recency (evict_to (insert_chain ?c hs) (block_budget (cfg s))) = lru_admit (block_budget (cfg s)) hs (recency ?c)"
    using c by (simp add: evict_to_correct insert_chain_refines lru_admit_def)
  then show ?thesis by (simp add: routed_def abs_replica_def Let_def)
qed

lemma spec_pick_abs:
  assumes ex: "exact_config (policy s) (cfg s)" "length hs < 2 ^ 51"
    and room: "sched_room (Suc (length hs) + n) s" and p: "pick s hs = Some (s', res)"
  shows "spec_pick (policy s) (cfg s) (abs_sched s) hs = (abs_sched s', res)"
proof (rule pick_cases[of s hs])
  fix e
  assume "pick s hs = Some (s, Inl e)" and none: "\<forall>r\<in>set (replicas s). \<not> available (cfg s) r"
    and e: "e = (if \<exists>r\<in>set (replicas s). healthy r then AllSaturated else NoHealthyReplicas)"
  with p have "s' = s" "res = Inl e" by auto
  with e no_choice_abs[OF none] show ?thesis by (simp add: spec_pick_def sched_simps)
next
  fix i m
  assume d: "decides s hs i m"
    and eq: "pick s hs = Some ((rr_advance s i)\<lparr>replicas := (replicas s)[i := routed s hs (replicas s ! i)]\<rparr>,
      Inr \<lparr>replica = i, matched_blocks = m, inflight_after = inflight (replicas s ! i) + 1\<rparr>)"
  have i: "i < length (replicas s)" using decides_available[OF d] by simp
  have s': "s' = (rr_advance s i)\<lparr>replicas := (replicas s)[i := routed s hs (replicas s ! i)]\<rparr>"
    and res: "res = Inr \<lparr>replica = i, matched_blocks = m, inflight_after = inflight (replicas s ! i) + 1\<rparr>"
    using p eq by auto
  have "spec_route (policy s) (cfg s) (abs_sched s) hs i = abs_sched s'"
    using i unfolding s' spec_route_def
    by (simp add: abs_sched_def map_abs_update abs_routed[OF room i] rr_advance_def Let_def)
  with choice_abs[OF ex d] i res show ?thesis
    by (simp add: spec_pick_def sched_simps)
qed

lemma sched_step_abs:
  assumes ex: "exact_config (policy s) (cfg s)" and short: "sched_cost p \<le> 2 ^ 51"
    and room: "sched_room (sched_cost p + n) s" and st: "sched_step p s = Some s'"
  shows "spec_step (policy s) (cfg s) p (abs_sched s) = (abs_sched s', sched_output p s)"
proof (cases p)
  case (Pick hs)
  with st obtain res where p: "pick s hs = Some (s', res)" by auto
  have "spec_pick (policy s) (cfg s) (abs_sched s) hs = (abs_sched s', res)"
    by (rule spec_pick_abs[OF ex _ _ p, of n]) (use room short Pick in simp_all)
  with Pick p show ?thesis by simp
next
  case (Complete i)
  with st show ?thesis
    by (auto simp: complete_def bind_eq_Some_conv abs_sched_def map_abs_update abs_replica_def)
next
  case (MarkUnhealthy i)
  with st show ?thesis
    by (auto simp: mark_unhealthy_def bind_eq_Some_conv abs_sched_def map_abs_update abs_replica_def lru_simps)
next
  case (MarkHealthy i)
  with st show ?thesis
    by (auto simp: mark_healthy_def bind_eq_Some_conv abs_sched_def map_abs_update abs_replica_def)
qed

lemma sched_trace_abs:
  assumes "exact_config (policy s) (cfg s)" and "\<forall>p\<in>set ps. sched_cost p \<le> 2 ^ 51"
    and "sched_room (sched_run_cost ps) s" and "sched_trace ps s = Some (s', outs)"
  shows "spec_trace (policy s) (cfg s) ps (abs_sched s) = (abs_sched s', outs)"
  using assms
proof (induction ps arbitrary: s outs)
  case Nil
  then show ?case by simp
next
  case (Cons p ps)
  from Cons.prems(4) obtain s1 outs1 where s1: "sched_step p s = Some s1" "sched_trace ps s1 = Some (s', outs1)"
    and outs: "outs = sched_output p s # outs1"
    by (auto simp: bind_eq_Some_conv)
  have room: "sched_room (sched_cost p + sched_run_cost ps) s"
    using Cons.prems(3) by (simp add: sched_run_cost_def)
  note f = sched_step_frame[OF s1(1)]
  have "spec_step (policy s) (cfg s) p (abs_sched s) = (abs_sched s1, sched_output p s)"
    by (rule sched_step_abs[OF Cons.prems(1) _ room s1(1)]) (use Cons.prems(2) in simp)
  moreover have "spec_trace (policy s) (cfg s) ps (abs_sched s1) = (abs_sched s', outs1)"
    using Cons.IH[of s1 outs1] Cons.prems(1,2) sched_step_room[OF room s1(1)] s1(2) f by simp
  ultimately show ?case using outs by simp
qed

lemma sched_trace_total:
  "in_range (length (replicas s)) ps \<Longrightarrow> \<exists>s' outs. sched_trace ps s = Some (s', outs)"
proof (induction ps arbitrary: s)
  case Nil
  then show ?case by simp
next
  case (Cons p ps)
  then obtain s1 where s1: "sched_step p s = Some s1"
    using sched_step_total[of s p] by (auto simp: in_range_def)
  with Cons.prems have "in_range (length (replicas s1)) ps"
    by (simp add: in_range_def sched_step_frame(1)[OF s1])
  with Cons.IH[of s1] s1 show ?case by auto
qed

text \<open>C2. The scheduler implements its contract. From \<open>new\<close>, with round robin or with the
  default weights, any sequence of picks, completions and health changes with indices in range
  runs without panic; every pick returns the replica, the match count, the in-flight count or the
  error of the contract, whose decision is an exact integer optimum over plain recency lists; and
  the blocks, loads, health and cursor at the end are those of the contract. The bounds only
  exclude runs that would wrap a 64-bit counter or lose a score to rounding.\<close>

theorem scheduler_refines_contract:
  assumes "exact_config pol c" and "in_range n ps" and "sched_run_cost ps < 2 ^ 64"
    and "\<forall>p\<in>set ps. sched_cost p \<le> 2 ^ 51"
  shows "\<exists>s' outs. sched_trace ps (scheduler_new n pol c) = Some (s', outs) \<and>
    spec_trace pol c ps (spec_new n) = (abs_sched s', outs)"
proof -
  let ?s = "scheduler_new n pol c"
  have s: "policy ?s = pol" "cfg ?s = c" "length (replicas ?s) = n" by (simp_all add: scheduler_new_def)
  from sched_trace_total[of ?s ps] assms(2) s obtain s' outs where t: "sched_trace ps ?s = Some (s', outs)"
    by auto
  with sched_trace_abs[of ?s ps s' outs] sched_room_new[OF assms(3), of n pol c] assms(1,4) s
  show ?thesis by (simp add: abs_sched_new)
qed

definition demo_trace :: "sched_op list" where
  "demo_trace = [Pick [1, 2, 3, 4], Complete 0, Pick [1, 2, 3, 5], Pick [9], MarkUnhealthy 0, Pick [1, 2, 3, 5], Pick [7]]"

theorem scheduler_refines_contract_witness:
  "\<exists>s'. sched_trace demo_trace (scheduler_new 2 CacheAware demo_config) =
    Some (s', [Some (Inr \<lparr>replica = 0, matched_blocks = 0, inflight_after = 1\<rparr>), None,
       Some (Inr \<lparr>replica = 0, matched_blocks = 3, inflight_after = 1\<rparr>),
       Some (Inr \<lparr>replica = 1, matched_blocks = 0, inflight_after = 1\<rparr>), None,
       Some (Inr \<lparr>replica = 1, matched_blocks = 0, inflight_after = 2\<rparr>),
       Some (Inl AllSaturated)])"
proof -
  have "exact_config CacheAware demo_config" "in_range 2 demo_trace" "sched_run_cost demo_trace < 2 ^ 64"
    "\<forall>p\<in>set demo_trace. sched_cost p \<le> 2 ^ 51"
    by (simp_all add: exact_config_def demo_config_def demo_trace_def in_range_def sched_run_cost_def)
  from scheduler_refines_contract[OF this] obtain s' outs
    where "sched_trace demo_trace (scheduler_new 2 CacheAware demo_config) = Some (s', outs)"
      and "outs = snd (spec_trace CacheAware demo_config demo_trace (spec_new 2))" by auto
  moreover have "snd (spec_trace CacheAware demo_config demo_trace (spec_new 2)) =
    [Some (Inr \<lparr>replica = 0, matched_blocks = 0, inflight_after = 1\<rparr>), None,
       Some (Inr \<lparr>replica = 0, matched_blocks = 3, inflight_after = 1\<rparr>),
       Some (Inr \<lparr>replica = 1, matched_blocks = 0, inflight_after = 1\<rparr>), None,
       Some (Inr \<lparr>replica = 1, matched_blocks = 0, inflight_after = 2\<rparr>),
       Some (Inl AllSaturated)]"
    by code_simp
  ultimately show ?thesis by auto
qed

end
