(* ===== verification/Tests_Cache.thy ===== *)
theory Tests_Cache
  imports Kv_Cache_Sim Blocks
begin

text \<open>
  The repository's own unit tests of \<open>router/src/prefix_cache.rs\<close>, \<open>mock-triton/src/cache.rs\<close> and
  \<open>protocol/src/blocks.rs\<close>, translated statement by statement. A test is a computation that may
  panic; it passes when it returns. That the model passes them is a check of the model against
  the behaviour the authors pinned down, independent of the theorems.
\<close>

definition assert_that :: "bool \<Rightarrow> unit panics" where
  "assert_that b = (if b then Some () else None)"

lemma assert_that_Some [simp]: "assert_that b = Some () \<longleftrightarrow> b"
  by (simp add: assert_that_def)

subsection \<open>prefix\_cache.rs\<close>

definition heap_len :: "'a lru_scheme \<Rightarrow> usize" where
  "heap_len c = bh_len (heap c)"

definition test_match_counts_shared_prefix :: "unit panics" where
  "test_match_counts_shared_prefix = do {
     let t = insert_chain prefix_cache_new [1, 2, 3, 4];
     let (t, n) = match_prefix t [1, 2, 3, 4];
     _ \<leftarrow> assert_that (n = 4);
     let (t, n) = match_prefix t [1, 2, 9, 9];
     _ \<leftarrow> assert_that (n = 2);
     let (t, n) = match_prefix t [9];
     _ \<leftarrow> assert_that (n = 0);
     assert_that (num_blocks t = 4)
   }"

definition test_insert_dedups_shared_prefix :: "unit panics" where
  "test_insert_dedups_shared_prefix = do {
     let t = insert_chain prefix_cache_new [1, 2, 3];
     let t = insert_chain t [1, 2, 4];
     assert_that (num_blocks t = 4)
   }"

definition test_evict_removes_lru_leaves_first :: "unit panics" where
  "test_evict_removes_lru_leaves_first = do {
     let t = insert_chain prefix_cache_new [1, 2];
     let t = insert_chain t [3, 4];
     let (t, _) = match_prefix t [1, 2];
     let t = evict_to t 2;
     _ \<leftarrow> assert_that (num_blocks t = 2);
     let (t, n) = match_prefix t [1, 2];
     _ \<leftarrow> assert_that (n = 2);
     let (t, n) = match_prefix t [3, 4];
     assert_that (n < 2)
   }"

definition test_evict_to_zero_empties_tree :: "unit panics" where
  "test_evict_to_zero_empties_tree = do {
     let t = insert_chain prefix_cache_new [1, 2, 3];
     let t = evict_to t 0;
     _ \<leftarrow> assert_that (num_blocks t = 0);
     let (t, n) = match_prefix t [1, 2, 3];
     assert_that (n = 0)
   }"

definition test_eviction_is_leaf_first_within_same_access_tick :: "unit panics" where
  "test_eviction_is_leaf_first_within_same_access_tick = do {
     let t = insert_chain prefix_cache_new [1, 2, 3, 4];
     let t = evict_to t 3;
     _ \<leftarrow> assert_that (num_blocks t = 3);
     _ \<leftarrow> assert_that (lookup t [1, 2, 3] = 3);
     let (t, n) = match_prefix t [1, 2, 3, 4];
     assert_that (n = 3)
   }"

definition test_missing_block_halts_match :: "unit panics" where
  "test_missing_block_halts_match = do {
     let t = insert_chain prefix_cache_new [1, 2, 3, 4];
     let t = insert_chain t [5, 6];
     let t = evict_to t 2;
     _ \<leftarrow> assert_that (num_blocks t = 2);
     _ \<leftarrow> assert_that (lookup t [5, 6] = 2);
     assert_that (lookup t [1, 2, 3, 4] = 0)
   }"

definition test_lookup_does_not_refresh_access :: "unit panics" where
  "test_lookup_does_not_refresh_access = do {
     let t = insert_chain prefix_cache_new [1, 2, 3, 4];
     let t = insert_chain t [5, 6];
     _ \<leftarrow> assert_that (lookup t [1, 2, 3, 4] = 4);
     let t = evict_to t 2;
     _ \<leftarrow> assert_that (num_blocks t = 2);
     _ \<leftarrow> assert_that (lookup t [5, 6] = 2);
     assert_that (lookup t [1, 2, 3, 4] = 0)
   }"

text \<open>The loop of the last test, over the number of rounds.\<close>

fun match_rounds :: "nat \<Rightarrow> u64 list \<Rightarrow> prefix_cache \<Rightarrow> prefix_cache panics" where
  "match_rounds 0 chain t = Some t"
| "match_rounds (Suc n) chain t = do {
     let (t, k) = match_prefix t chain;
     _ \<leftarrow> assert_that (k = 64);
     match_rounds n chain t
   }"

definition test_heap_stays_bounded_under_repeated_hit_workload :: "unit panics" where
  "test_heap_stays_bounded_under_repeated_hit_workload = do {
     let chain = map word_of_nat [0..<64];
     let t = insert_chain prefix_cache_new chain;
     t \<leftarrow> match_rounds 5000 chain t;
     assert_that (heap_len t \<le> 4 * max (num_blocks t) 1024)
   }"

definition prefix_cache_tests :: "unit panics list" where
  "prefix_cache_tests =
     [test_match_counts_shared_prefix, test_insert_dedups_shared_prefix, test_evict_removes_lru_leaves_first,
      test_evict_to_zero_empties_tree, test_eviction_is_leaf_first_within_same_access_tick,
      test_missing_block_halts_match, test_lookup_does_not_refresh_access,
      test_heap_stays_bounded_under_repeated_hit_workload]"

subsection \<open>cache.rs\<close>

definition test_cold_then_warm :: "unit panics" where
  "test_cold_then_warm = do {
     let c = kv_new 100;
     let (c, n) = lookup_insert c [1, 2, 3];
     _ \<leftarrow> assert_that (n = 0);
     let (c, n) = lookup_insert c [1, 2, 3];
     _ \<leftarrow> assert_that (n = 3);
     let (c, n) = lookup_insert c [1, 2, 9];
     assert_that (n = 2)
   }"

definition test_leading_only :: "unit panics" where
  "test_leading_only = do {
     let c = kv_new 100;
     let (c, _) = lookup_insert c [1, 2, 3];
     let (c, n) = lookup_insert c [9, 2, 3];
     assert_that (n = 0)
   }"

definition test_lru_eviction_over_capacity :: "unit panics" where
  "test_lru_eviction_over_capacity = do {
     let c = kv_new 4;
     let (c, _) = lookup_insert c [1, 2];
     let (c, _) = lookup_insert c [3, 4];
     let (c, _) = lookup_insert c [1, 2];
     let (c, _) = lookup_insert c [5, 6];
     _ \<leftarrow> assert_that (kv_len c = 4);
     let (c, n) = lookup_insert c [1, 2];
     _ \<leftarrow> assert_that (n = 2);
     let (c, n) = lookup_insert c [5, 6];
     assert_that (n = 2)
   }"

definition test_eviction_prefers_chain_tail_over_shallower_blocks :: "unit panics" where
  "test_eviction_prefers_chain_tail_over_shallower_blocks = do {
     let c = kv_new 3;
     let (c, n) = lookup_insert c [1, 2, 3, 4];
     _ \<leftarrow> assert_that (n = 0);
     _ \<leftarrow> assert_that (kv_len c = 3);
     let (c, n) = lookup_insert c [1, 2, 3];
     assert_that (n = 3)
   }"

definition kv_cache_tests :: "unit panics list" where
  "kv_cache_tests =
     [test_cold_then_warm, test_leading_only, test_lru_eviction_over_capacity,
      test_eviction_prefers_chain_tail_over_shallower_blocks]"

subsection \<open>blocks.rs\<close>

definition toks :: "nat \<Rightarrow> u32 \<Rightarrow> u32 list" where
  "toks n offset = map (\<lambda>i. word_of_nat i + offset) [0..<n]"

definition test_shared_prefix_shares_hashes :: "unit panics" where
  "test_shared_prefix_shares_hashes = do {
     let a = block_hashes (toks 64 0);
     let b = block_hashes (toks 48 0 @ toks 16 999);
     _ \<leftarrow> assert_that (length a = 4);
     _ \<leftarrow> assert_that (take 3 a = take 3 b);
     x \<leftarrow> vec_get a 3;
     y \<leftarrow> vec_get b 3;
     assert_that (x \<noteq> y)
   }"

definition test_position_matters :: "unit panics" where
  "test_position_matters = do {
     let hx = block_hashes (toks 16 0 @ toks 16 100);
     let hy = block_hashes (toks 16 50 @ toks 16 100);
     x \<leftarrow> vec_get hx 1;
     y \<leftarrow> vec_get hy 1;
     assert_that (x \<noteq> y)
   }"

definition test_partial_block_dropped :: "unit panics" where
  "test_partial_block_dropped = do {
     _ \<leftarrow> assert_that (length (block_hashes (toks 15 0)) = 0);
     assert_that (length (block_hashes (toks 17 0)) = 1)
   }"

definition block_tests :: "unit panics list" where
  "block_tests = [test_shared_prefix_shares_hashes, test_position_matters, test_partial_block_dropped]"

subsection \<open>The tests pass\<close>

lemma prefix_cache_small_tests:
  "test_match_counts_shared_prefix = Some ()" "test_insert_dedups_shared_prefix = Some ()"
  "test_evict_removes_lru_leaves_first = Some ()" "test_evict_to_zero_empties_tree = Some ()"
  "test_eviction_is_leaf_first_within_same_access_tick = Some ()" "test_missing_block_halts_match = Some ()"
  "test_lookup_does_not_refresh_access = Some ()"
  by code_simp+

lemma kv_cache_small_tests:
  "test_cold_then_warm = Some ()" "test_leading_only = Some ()" "test_lru_eviction_over_capacity = Some ()"
  "test_eviction_prefers_chain_tail_over_shallower_blocks = Some ()"
  by code_simp+

text \<open>The rounds of hits: the content stays, the heap is compacted.\<close>

lemma touch_content:
  assumes "lru_wf c" and "set hs \<subseteq> set (recency c)"
  shows "set (recency (fst (touch c hs only))) = set (recency c)" and "num_blocks (fst (touch c hs only)) = num_blocks c"
proof -
  have "recency (c\<lparr>clock := t\<rparr>) = recency c" for t by (simp add: recency_def live_def)
  then show same: "set (recency (fst (touch c hs only))) = set (recency c)"
    using assms(2) set_takeWhileD[of _ "hm_contains_key (bmap c)" hs]
    by (auto simp: touch_eq lru_simps set_recency_fold touched_part_def)
  have "length (recency (fst (touch c hs only))) = card (set (recency (fst (touch c hs only))))"
    by (rule distinct_card[symmetric]) (rule distinct_recency[OF lru_wf_touch[OF assms(1)]])
  also have "\<dots> = length (recency c)" unfolding same by (rule distinct_card) (rule distinct_recency[OF assms(1)])
  finally show "num_blocks (fst (touch c hs only)) = num_blocks c" by (simp add: num_blocks_recency)
qed

lemma match_rounds_ok:
  assumes "lru_wf t" "set chain \<subseteq> set (recency t)" "length chain = 64" "num_blocks t = 64" "heap_len t \<le> 2048"
  shows "\<exists>t'. match_rounds n chain t = Some t' \<and> heap_len t' \<le> 2048"
  using assms
proof (induction n arbitrary: t)
  case (Suc n)
  let ?t = "fst (match_prefix t chain)"
  have "takeWhile (\<lambda>h. h \<in> set (recency t)) chain = chain"
    using Suc.prems(2) by (simp add: takeWhile_eq_all_conv subset_iff)
  from arg_cong[OF this, of length] Suc.prems(3) have "snd (match_prefix t chain) = 64"
    by (simp only: match_prefix_count lru_hits_def)
  moreover have "bh_len (heap ?t) \<le> 2 * max (num_blocks ?t) COMPACT_FLOOR"
    unfolding match_prefix_def touch_eq fst_conv
    using compact_bounded[of "fold (touch_block (clock t + 1)) (touched_part t True chain) (t\<lparr>clock := clock t + 1\<rparr>)"]
    by (simp add: num_blocks_def lru_simps)
  moreover have "num_blocks ?t = 64" "set (recency ?t) = set (recency t)"
    using touch_content[OF Suc.prems(1,2)] Suc.prems(4) by (simp_all add: match_prefix_def)
  ultimately show ?case
    using Suc.IH[of ?t] Suc.prems(2,3) lru_wf_match_prefix[OF Suc.prems(1), of chain]
    by (cases "match_prefix t chain") (auto simp: heap_len_def COMPACT_FLOOR_def assert_that_def)
qed simp

lemma heap_test: "test_heap_stays_bounded_under_repeated_hit_workload = Some ()"
proof -
  define chain where "chain = (map word_of_nat [0..<64] :: u64 list)"
  define t where "t = insert_chain prefix_cache_new chain"
  have len: "length chain = 64" by (simp add: chain_def)
  have "distinct chain"
    unfolding chain_def distinct_map inj_on_def by (auto simp: word_of_nat_eq_iff take_bit_nat_eq_self)
  have "recency t = lru_touch chain (recency prefix_cache_new)"
    unfolding t_def by (rule insert_chain_refines) (simp_all add: headroom_def len lru_simps)
  then have rec: "recency t = chain"
    using \<open>distinct chain\<close> by (simp add: lru_touch_def lru_simps distinct_remdups_id)
  have "heap_len t \<le> 2048"
    using compact_bounded[of "fold (touch_block 1) chain (prefix_cache_new\<lparr>clock := 1\<rparr>)"] len rec
    by (simp add: t_def insert_chain_def touch_eq touched_part_def heap_len_def COMPACT_FLOOR_def num_blocks_def
        lru_simps num_blocks_recency length_recency[symmetric])
  then have "\<exists>t'. match_rounds 5000 chain t = Some t' \<and> heap_len t' \<le> 2048"
    using len rec by (intro match_rounds_ok) (simp_all add: t_def num_blocks_recency)
  then show ?thesis
    unfolding test_heap_stays_bounded_under_repeated_hit_workload_def Let_def chain_def[symmetric] t_def[symmetric]
    by auto
qed

lemma partial_block_test: "test_partial_block_dropped = Some ()"
  by (simp add: assert_that_def test_partial_block_dropped_def length_block_hashes toks_def BLOCK_SIZE_def)

lemma position_test: "test_position_matters = Some ()"
proof -
  have ne: "fnv1a (toks 16 0) \<noteq> fnv1a (toks 16 50)"
    by (simp add: fnv1a_def fnv_step_def toks_def FNV_OFFSET_def upt_rec)
  have t: "length (toks n k) = n" for n k by (simp add: toks_def)
  have "block_hashes (toks 16 x @ toks 16 100) ! 1 = fnv1a (toks 16 x @ toks 16 100)" for x
    using nth_block_hashes[of 1 "toks 16 x @ toks 16 100"] by (simp add: BLOCK_SIZE_def t)
  with ne show ?thesis
    by (simp add: test_position_matters_def vec_get_def length_block_hashes BLOCK_SIZE_def t fnv1a_append_inject)
qed

text \<open>The hashes of the first test, sixteen tokens at a time.\<close>

lemma toks16:
  "toks 16 k = [k, 1 + k, 2 + k, 3 + k, 4 + k, 5 + k, 6 + k, 7 + k, 8 + k, 9 + k, 10 + k, 11 + k, 12 + k, 13 + k, 14 + k, 15 + k]"
  by (simp add: toks_def upt_rec)

lemma fnv_blocks:
  "foldl fnv_step FNV_OFFSET (toks 16 0) = 8972538887847352181"
  "foldl fnv_step 8972538887847352181 (toks 16 16) = 16630484232385628869"
  "foldl fnv_step 16630484232385628869 (toks 16 32) = 15959172224672275349"
  "foldl fnv_step 15959172224672275349 (toks 16 48) = 9468854841739140837"
  "foldl fnv_step 15959172224672275349 (toks 16 999) = 10758304083611301285"
  by (simp add: toks16 fnv_step_def FNV_OFFSET_def)+

lemma toks_split: "toks (m + n) k = toks m k @ toks n (word_of_nat m + k)"
  by (rule nth_equalityI) (auto simp: toks_def nth_append)

lemma shared_prefix_test: "test_shared_prefix_shares_hashes = Some ()"
proof -
  let ?a = "toks 64 0" and ?b = "toks 48 0 @ toks 16 999"
  have t: "length (toks n k) = n" for n k by (simp add: toks_def)
  have pre: "take 48 ?a = take 48 ?b" by (simp add: t) (simp add: toks_def take_map)
  have "take 3 (block_hashes ?a) = take 3 (block_hashes ?b)"
    using shared_prefix_hashes[OF pre] by (simp add: BLOCK_SIZE_def)
  moreover have "fnv1a ?a \<noteq> fnv1a ?b"
    using toks_split[of 16 16 0] toks_split[of 32 16 0] toks_split[of 48 16 0]
    by (simp add: fnv1a_def fnv_blocks)
  moreover have "block_hashes ?a ! 3 = fnv1a ?a" "block_hashes ?b ! 3 = fnv1a ?b"
    using nth_block_hashes[of 3 ?a] nth_block_hashes[of 3 ?b] by (simp_all add: BLOCK_SIZE_def t)
  ultimately show ?thesis
    by (simp add: test_shared_prefix_shares_hashes_def assert_that_def vec_get_def length_block_hashes BLOCK_SIZE_def t)
qed

lemma cache_and_hash_tests_run:
  "list_all (\<lambda>t. t = Some ()) (prefix_cache_tests @ kv_cache_tests @ block_tests)"
  by (simp add: prefix_cache_tests_def kv_cache_tests_def block_tests_def prefix_cache_small_tests kv_cache_small_tests
      heap_test partial_block_test position_test shared_prefix_test)

end
