(* ===== verification/Tests_Service.thy ===== *)
theory Tests_Service
  imports Mock_Service Loadgen Tests_Cache
begin

text \<open>
  The unit tests of \<open>loadgen/src/trace.rs\<close> on their fixture file, of \<open>protocol/src/lib.rs\<close>, and of \<open>mock-triton/src/service.rs\<close>,
  where the tokenizer that the tests load from a file is the parameter \<open>encode\<close>.
\<close>

subsection \<open>trace.rs\<close>

text \<open>\<open>tests/fixtures/sharegpt_small.json\<close>, parsed.\<close>

definition FIXTURE :: "raw_conversation list" where
  "FIXTURE =
     [\<lparr>raw_id = ''conv1'', raw_conversations =
        [\<lparr>raw_from = ''human'', raw_value = ''What is Rust?''\<rparr>,
         \<lparr>raw_from = ''gpt'', raw_value = ''A systems programming language.''\<rparr>,
         \<lparr>raw_from = ''human'', raw_value = ''Why is it fast?''\<rparr>,
         \<lparr>raw_from = ''gpt'', raw_value = ''No GC, zero-cost abstractions.''\<rparr>]\<rparr>,
      \<lparr>raw_id = ''conv2'', raw_conversations =
        [\<lparr>raw_from = ''human'', raw_value = ''Hello''\<rparr>, \<lparr>raw_from = ''gpt'', raw_value = ''Hi there''\<rparr>]\<rparr>]"

definition test_parses_and_builds_growing_prompts :: "unit panics" where
  "test_parses_and_builds_growing_prompts = do {
     let convs = load_sharegpt FIXTURE 10;
     _ \<leftarrow> assert_that (length convs = 2);
     conv \<leftarrow> vec_get convs 0;
     _ \<leftarrow> assert_that (length (turns conv) = 2);
     t0 \<leftarrow> vec_get (turns conv) 0;
     t1 \<leftarrow> vec_get (turns conv) 1;
     _ \<leftarrow> assert_that (sublist ''What is Rust?'' t0);
     _ \<leftarrow> assert_that (prefix t0 t1);
     assert_that (sublist ''Why is it fast?'' t1)
   }"

definition test_cap_limits_conversations :: "unit panics" where
  "test_cap_limits_conversations = do {
     let convs = load_sharegpt FIXTURE 1;
     assert_that (length convs = 1)
   }"

subsection \<open>lib.rs of the protocol\<close>

definition test_proto_types_roundtrip :: "unit panics" where
  "test_proto_types_roundtrip = do {
     let req = infer_request_default\<lparr>req_model_name := ''m'',
       inputs := [input_tensor_default\<lparr>in_name := ''text_input'', in_datatype := ''BYTES'', in_shape := [1],
         in_contents := Some (tensor_contents_default\<lparr>bytes_contents := [''hello'']\<rparr>)\<rparr>]\<rparr>;
     i \<leftarrow> vec_get (inputs req) 0;
     c \<leftarrow> in_contents i;
     b \<leftarrow> vec_get (bytes_contents c) 0;
     assert_that (b = ''hello'')
   }"

subsection \<open>service.rs\<close>

definition long_prompt :: string where
  "long_prompt = concat (replicate 3 ''the quick brown fox jumps over the lazy dog '')"

definition test_config :: mock_config where
  "test_config = mock_config_default\<lparr>prefill_us_per_token := 1000\<rparr>"

text \<open>The tokens of the prompt; \<open>unwrap\<close> panics on an error.\<close>

definition encode_unwrap :: "(string \<Rightarrow> string + u32 list) \<Rightarrow> string \<Rightarrow> u32 list panics" where
  "encode_unwrap encode txt = (case encode txt of Inl e \<Rightarrow> None | Inr ids \<Rightarrow> Some ids)"

definition prefill_unwrap :: "(string \<Rightarrow> string + u32 list) \<Rightarrow> string \<Rightarrow> mock_service \<Rightarrow> (mock_service \<times> usize \<times> usize) panics" where
  "prefill_unwrap encode txt m =
     (case simulate_prefill encode txt m of (m, Inl e) \<Rightarrow> None | (m, Inr counts) \<Rightarrow> Some (m, counts))"

definition test_cold_prefill_sleeps_proportional_to_uncached_tokens :: "(string \<Rightarrow> string + u32 list) \<Rightarrow> unit panics" where
  "test_cold_prefill_sleeps_proportional_to_uncached_tokens encode = do {
     let m = mock_service_new test_config;
     ids \<leftarrow> encode_unwrap encode long_prompt;
     _ \<leftarrow> assert_that (ids \<noteq> []);
     (m', cached, tot) \<leftarrow> prefill_unwrap encode long_prompt m;
     let elapsed = prefill_slept_us m' - prefill_slept_us m;
     _ \<leftarrow> assert_that (cached = 0);
     _ \<leftarrow> assert_that (1 \<le> tot);
     assert_that (elapsed = unat (word_of_nat (length ids) * prefill_us_per_token test_config))
   }"

definition test_warm_prefill_only_sleeps_for_the_uncached_remainder :: "(string \<Rightarrow> string + u32 list) \<Rightarrow> unit panics" where
  "test_warm_prefill_only_sleeps_for_the_uncached_remainder encode = do {
     let m = mock_service_new test_config;
     ids \<leftarrow> encode_unwrap encode long_prompt;
     let hashes = block_hashes ids;
     _ \<leftarrow> assert_that (hashes \<noteq> []);
     let m = m\<lparr>kv_cache := fst (lookup_insert (kv_cache m) hashes)\<rparr>;
     (m', cached, tot) \<leftarrow> prefill_unwrap encode long_prompt m;
     let elapsed = prefill_slept_us m' - prefill_slept_us m;
     _ \<leftarrow> assert_that (cached = tot);
     let remainder_tokens = length ids - tot * BLOCK_SIZE;
     assert_that (elapsed = unat (word_of_nat remainder_tokens * prefill_us_per_token test_config))
   }"

definition service_tests :: "(string \<Rightarrow> string + u32 list) \<Rightarrow> unit panics list" where
  "service_tests encode =
     [test_proto_types_roundtrip, test_parses_and_builds_growing_prompts, test_cap_limits_conversations,
      test_cold_prefill_sleeps_proportional_to_uncached_tokens encode,
      test_warm_prefill_only_sleeps_for_the_uncached_remainder encode]"

subsection \<open>The tests pass\<close>

lemma fixture_turns:
  "load_sharegpt FIXTURE 10 =
     [\<lparr>conv_id = ''conv1'', turns =
        [''USER: What is Rust?'' @ newline,
         ''USER: What is Rust?'' @ newline @ ''ASSISTANT: A systems programming language.'' @ newline @ ''USER: Why is it fast?'' @ newline]\<rparr>,
      \<lparr>conv_id = ''conv2'', turns = [''USER: Hello'' @ newline]\<rparr>]"
  by (simp add: load_sharegpt_def FIXTURE_def Let_def)

lemma fixture_cap: "length (load_sharegpt FIXTURE 1) = 1"
  unfolding load_sharegpt_def FIXTURE_def by (simp add: Let_def)

lemma trace_tests_run: "test_parses_and_builds_growing_prompts = Some ()" "test_cap_limits_conversations = Some ()"
proof -
  have "sublist ''What is Rust?'' (''USER: '' @ ''What is Rust?'' @ newline)" by (rule sublist_appendI)
  moreover have "sublist ''Why is it fast?'' ((''USER: What is Rust?'' @ newline @ ''ASSISTANT: A systems programming language.''
      @ newline @ ''USER: '') @ ''Why is it fast?'' @ newline)" by (rule sublist_appendI)
  ultimately show "test_parses_and_builds_growing_prompts = Some ()"
    by (simp add: test_parses_and_builds_growing_prompts_def fixture_turns vec_get_def assert_that_def)
  show "test_cap_limits_conversations = Some ()"
    by (simp add: test_cap_limits_conversations_def fixture_cap del: One_nat_def)
qed

lemma proto_test_runs: "test_proto_types_roundtrip = Some ()"
  by (simp add: test_proto_types_roundtrip_def vec_get_def assert_that_def)

lemma replica_keeps_prompt:
  assumes "length ids \<le> 65536"
  shows "set (block_hashes ids) \<subseteq> set (recency (fst (lookup_insert (kv_new 4096) (block_hashes ids))))"
proof -
  let ?hs = "block_hashes ids" and ?c = "kv_new 4096"
  have "headroom (length ?hs) ?c" using assms by (simp add: headroom_def length_block_hashes BLOCK_SIZE_def)
  then have "recency (fst (lookup_insert ?c ?hs)) = lru_admit 4096 ?hs (recency ?c)"
    unfolding lookup_insert_eq fst_conv lru_admit_def
    using insert_chain_refines(1)[of ?c ?hs] evict_to_correct(2)[of "insert_chain ?c ?hs" 4096] by simp
  moreover have "length (remdups ?hs) \<le> 4096"
    using length_remdups_leq[of ?hs] assms by (simp add: length_block_hashes BLOCK_SIZE_def)
  ultimately show ?thesis by (metis lru_admit_keeps_chain)
qed

lemma kv_new_cold: "lookup (kv_new cap) hs = 0"
  by (cases hs) (simp_all add: lookup_recency lru_hits_def)

lemma service_tests_run:
  assumes "encode long_prompt = Inr ids" and "16 \<le> length ids" and "length ids \<le> 65536"
  shows "list_all (\<lambda>t. t = Some ()) (service_tests encode)"
proof -
  let ?hs = "block_hashes ids" and ?c = "kv_new 4096"
  note prefill = simulate_prefill_tokens[of encode long_prompt ids, OF assms(1)]
  have len: "1 \<le> length ids div BLOCK_SIZE" "length ?hs = length ids div BLOCK_SIZE"
    using assms(2) by (simp_all add: length_block_hashes BLOCK_SIZE_def)
  have cold: "lookup ?c ?hs = 0" by (rule kv_new_cold)
  from replica_keeps_prompt[OF assms(3)]
  have warm: "lookup (fst (lookup_insert ?c ?hs)) ?hs = length ids div BLOCK_SIZE"
    by (simp add: lookup_recency lru_hits_full[THEN iffD2] len(2))
  have m: "kv_cache (mock_service_new test_config) = ?c" "mcfg (mock_service_new test_config) = test_config"
    by (simp_all add: mock_service_new_def test_config_def mock_config_default_def)
  have "test_cold_prefill_sleeps_proportional_to_uncached_tokens encode = Some ()"
    using len assms(2)
    by (auto simp: test_cold_prefill_sleeps_proportional_to_uncached_tokens_def encode_unwrap_def assms(1)
        prefill_unwrap_def prefill m cold prefill_delay_def uncached_tokens_def assert_that_def)
  moreover have "test_warm_prefill_only_sleeps_for_the_uncached_remainder encode = Some ()"
    using len
    by (auto simp: test_warm_prefill_only_sleeps_for_the_uncached_remainder_def encode_unwrap_def assms(1)
        prefill_unwrap_def prefill m warm prefill_delay_def uncached_tokens_def assert_that_def)
  ultimately show ?thesis by (simp add: service_tests_def trace_tests_run proto_test_runs)
qed

end
