(* ===== verification/Tests_Integration.thy ===== *)
theory Tests_Integration
  imports Deployment Tests_Service
begin

text \<open>
  The tests of \<open>mock-triton/tests/service.rs\<close> and \<open>router/tests/integration.rs\<close>, which start the servers
  and call them through their clients. Here a client calls the handlers; the sockets in between
  are left out. The tokenizer that both servers load is the parameter \<open>encode\<close>. The address that
  accepts a connection and closes it answers every call with a status \<open>dead\<close>, and no probe of it
  finds it ready.
\<close>

subsection \<open>Helpers of both files\<close>

definition e2e_prompt :: "string \<Rightarrow> string" where
  "e2e_prompt ending = concat (replicate 30 ''The quick brown fox jumps over the lazy dog. '') @ '' '' @ ending"

definition int64_param :: "model_infer_response \<Rightarrow> string \<Rightarrow> int option" where
  "int64_param resp key = (case hm_get (parameters resp) key of Some (Some (Int64Param v)) \<Rightarrow> Some v | _ \<Rightarrow> None)"

definition e2e_mock :: mock_config where
  "e2e_mock = mock_config_default\<lparr>prefill_us_per_token := 0\<rparr>"

fun unwrap :: "status + 'a \<Rightarrow> 'a panics" where
  "unwrap (Inl st) = None"
| "unwrap (Inr x) = Some x"

fun unwrap_err :: "status + 'a \<Rightarrow> status panics" where
  "unwrap_err (Inl st) = Some st"
| "unwrap_err (Inr x) = None"

text \<open>The messages a client reads from a stream it does not leave.\<close>

definition client_channel :: client_tx where
  "client_channel = \<lparr>sent = [], gone_after = None\<rparr>"

fun unwrap_all :: "(status + 'a) list \<Rightarrow> 'a list panics" where
  "unwrap_all [] = Some []"
| "unwrap_all (x # xs) = do { y \<leftarrow> unwrap x; ys \<leftarrow> unwrap_all xs; Some (y # ys) }"

subsection \<open>mock-triton/tests/service.rs\<close>

definition test_server_live_reports_true :: "unit panics" where
  "test_server_live_reports_true = assert_that (is_live mock_server_live)"

definition test_model_infer_reports_cold_then_warm_cache :: "(string \<Rightarrow> string + u32 list) \<Rightarrow> unit panics" where
  "test_model_infer_reports_cold_then_warm_cache encode = do {
     let m = mock_service_new e2e_mock;
     let (m, res) = mock_model_infer encode (infer_request (e2e_prompt ''turn one'')) m;
     first \<leftarrow> unwrap res;
     _ \<leftarrow> assert_that (int64_param first ''cached_blocks'' = Some 0);
     tot \<leftarrow> int64_param first ''total_blocks'';
     _ \<leftarrow> assert_that (tot > 1);
     let (m, res) = mock_model_infer encode (infer_request (e2e_prompt ''turn one and then some more words'')) m;
     second \<leftarrow> unwrap res;
     cached_second \<leftarrow> int64_param second ''cached_blocks'';
     assert_that (cached_second > 0)
   }"

definition test_model_infer_missing_text_tensor :: "(string \<Rightarrow> string + u32 list) \<Rightarrow> unit panics" where
  "test_model_infer_missing_text_tensor encode = do {
     let req = infer_request_default\<lparr>req_model_name := ''mock''\<rparr>;
     err \<leftarrow> unwrap_err (snd (mock_model_infer encode req (mock_service_new e2e_mock)));
     assert_that (code err = InvalidArgument)
   }"

text \<open>The assertions on one chunk of the stream.\<close>

definition check_chunk :: "nat \<Rightarrow> nat \<Rightarrow> model_stream_infer_response \<Rightarrow> unit panics" where
  "check_chunk n i chunk = do {
     _ \<leftarrow> assert_that (error_message chunk = []);
     resp \<leftarrow> infer_response chunk;
     if i = n - 1 then do {
       tot \<leftarrow> int64_param resp ''total_blocks'';
       _ \<leftarrow> assert_that (tot > 0);
       assert_that (int64_param resp ''cached_blocks'' = Some 0)
     } else do {
       _ \<leftarrow> assert_that (int64_param resp ''cached_blocks'' = Some 0);
       assert_that (int64_param resp ''total_blocks'' = Some 0)
     }
   }"

fun check_chunks :: "nat \<Rightarrow> nat \<Rightarrow> model_stream_infer_response list \<Rightarrow> unit panics" where
  "check_chunks n i [] = Some ()"
| "check_chunks n i (chunk # chunks) = do { _ \<leftarrow> check_chunk n i chunk; check_chunks n (i + 1) chunks }"

definition test_model_stream_infer_emits_configured_chunk_count ::
  "(string \<Rightarrow> string + u32 list) \<Rightarrow> (status \<Rightarrow> string) \<Rightarrow> unit panics" where
  "test_model_stream_infer_emits_configured_chunk_count encode status_text = do {
     let m = mock_service_new (e2e_mock\<lparr>decode_chunks := 3, decode_interval_ms := 1\<rparr>);
     let (m, inbound) = mock_model_stream_infer encode status_text [Inr (infer_request (e2e_prompt ''stream me''))] m client_channel;
     chunks \<leftarrow> unwrap_all (sent inbound);
     _ \<leftarrow> assert_that (length chunks = 3);
     check_chunks (length chunks) 0 chunks
   }"

subsection \<open>router/tests/integration.rs\<close>

definition spawn_router_with_cfg :: "usize \<Rightarrow> policy \<Rightarrow> scheduler_config \<Rightarrow> router_inner" where
  "spawn_router_with_cfg n pol c = router_inner_new (scheduler_new n pol c) n"

definition spawn_router :: "usize \<Rightarrow> policy \<Rightarrow> router_inner" where
  "spawn_router n pol = spawn_router_with_cfg n pol default_config"

definition spawn_router_with_cap :: "usize \<Rightarrow> usize \<Rightarrow> router_inner" where
  "spawn_router_with_cap n cap = spawn_router_with_cfg n CacheAware (default_config\<lparr>max_inflight := cap\<rparr>)"

definition test_same_prefix_requests_hit_cache ::
  "(string \<Rightarrow> string + u32 list) \<Rightarrow> (status_code \<Rightarrow> string) \<Rightarrow> unit panics" where
  "test_same_prefix_requests_hit_cache encode code_text = do {
     let x = (spawn_router 2 CacheAware, [mock_service_new e2e_mock, mock_service_new e2e_mock]);
     (x, res) \<leftarrow> model_infer_attempts (tokenize encode) code_text (mock_upstream encode) (infer_request (e2e_prompt ''turn one'')) x;
     first \<leftarrow> unwrap res;
     cached \<leftarrow> int64_param first ''cached_blocks'';
     _ \<leftarrow> assert_that (cached = 0);
     (x, res) \<leftarrow> model_infer_attempts (tokenize encode) code_text (mock_upstream encode)
       (infer_request (e2e_prompt ''turn one and then some more words'')) x;
     second \<leftarrow> unwrap res;
     cached \<leftarrow> int64_param second ''cached_blocks'';
     assert_that (cached > 0)
   }"

definition test_saturated_replicas_reject_fast ::
  "(string \<Rightarrow> string + u32 list) \<Rightarrow> (status_code \<Rightarrow> string) \<Rightarrow> unit panics" where
  "test_saturated_replicas_reject_fast encode code_text = do {
     let x = (spawn_router_with_cap 1 0, [mock_service_new e2e_mock]);
     (x, res) \<leftarrow> model_infer_attempts (tokenize encode) code_text (mock_upstream encode) (infer_request ''hello'') x;
     err \<leftarrow> unwrap_err res;
     assert_that (code err = ResourceExhausted)
   }"

text \<open>The replicas as the streaming upstream of the router, which reads chunks until the end or an error.\<close>

fun read_stream :: "(status + 'a) list \<Rightarrow> 'a list \<times> status option" where
  "read_stream [] = ([], None)"
| "read_stream (Inl st # xs) = ([], Some st)"
| "read_stream (Inr c # xs) = (let (cs, fin) = read_stream xs in (c # cs, fin))"

definition mock_stream_upstream ::
  "(string \<Rightarrow> string + u32 list) \<Rightarrow> (status \<Rightarrow> string) \<Rightarrow> mock_service list stream_upstream" where
  "mock_stream_upstream encode status_text i req = (\<lambda>(r, ms).
     if i < length ms
     then (let (m, tx) = mock_model_stream_infer encode status_text [Inr req] (ms ! i) client_channel
           in ((r, ms[i := m]), Inr (read_stream (sent tx))))
     else ((r, ms), Inl (status_of Unavailable [])))"

definition test_streaming_forwards_chunks ::
  "(string \<Rightarrow> string + u32 list) \<Rightarrow> (status_code \<Rightarrow> string) \<Rightarrow> (status \<Rightarrow> string) \<Rightarrow> unit panics" where
  "test_streaming_forwards_chunks encode code_text status_text = do {
     let x = (spawn_router 1 CacheAware, [mock_service_new e2e_mock]);
     (x, inbound) \<leftarrow> model_stream_infer (tokenize encode) code_text (mock_stream_upstream encode status_text)
       [Inr (infer_request (e2e_prompt ''stream me''))] x client_channel;
     msgs \<leftarrow> unwrap_all (sent inbound);
     _ \<leftarrow> assert_that (list_all (\<lambda>msg. error_message msg = []) msgs);
     let chunks = List.map_filter infer_response msgs;
     _ \<leftarrow> assert_that (length msgs = length chunks);
     _ \<leftarrow> assert_that (length chunks = decode_chunks mock_config_default);
     assert_that (int64_param (last chunks) ''cached_blocks'' \<noteq> None)
   }"

text \<open>Replica 0 is the dead endpoint, replica 1 the mock.\<close>

definition half_dead :: "status \<Rightarrow> (string \<Rightarrow> string + u32 list) \<Rightarrow> mock_service upstream" where
  "half_dead dead encode i req = (\<lambda>(r, m).
     if i = 0 then ((r, m), Inl dead)
     else (let (m, res) = mock_model_infer encode req m in ((r, m), res)))"

definition test_failover_retries_on_dead_replica ::
  "(string \<Rightarrow> string + u32 list) \<Rightarrow> (status_code \<Rightarrow> string) \<Rightarrow> status \<Rightarrow> unit panics" where
  "test_failover_retries_on_dead_replica encode code_text dead = do {
     let x = (spawn_router 2 RoundRobin, mock_service_new e2e_mock);
     (x, resp) \<leftarrow> model_infer_attempts (tokenize encode) code_text (half_dead dead encode) (infer_request (e2e_prompt ''failover'')) x;
     assert_that (\<not> isl resp)
   }"

text \<open>The passes of the prober in 300 ms, each with the results of the two probes in either order.\<close>

fun probe_passes :: "(usize \<times> bool) list list \<Rightarrow> router_inner \<Rightarrow> router_inner panics" where
  "probe_passes [] r = Some r"
| "probe_passes (found # passes) r = do { r \<leftarrow> probe_pass found r; probe_passes passes r }"

definition test_health_prober_marks_dead_replica :: "(usize \<times> bool) list list \<Rightarrow> unit panics" where
  "test_health_prober_marks_dead_replica passes = do {
     let inner = spawn_router 2 RoundRobin;
     inner \<leftarrow> probe_passes passes inner;
     h0 \<leftarrow> is_healthy (sched inner) 0;
     _ \<leftarrow> assert_that (\<not> h0);
     h1 \<leftarrow> is_healthy (sched inner) 1;
     _ \<leftarrow> assert_that h1;
     assert_that (healthy_replicas inner = 1)
   }"

subsection \<open>The tests of the replica pass\<close>

lemma unwrap_all_Inr: "unwrap_all (map Inr xs) = Some xs"
  by (induction xs) simp_all

lemma read_stream_Inr: "read_stream (map Inr xs) = (xs, None)"
  by (induction xs) simp_all

lemma int64_make_response:
  "int64_param (make_response req n k txt) ''cached_blocks'' = Some (as_i64 n)"
  "int64_param (make_response req n k txt) ''total_blocks'' = Some (as_i64 k)"
  by (simp_all add: int64_param_def make_response_def hm_insert_def hm_get_def)

lemma e2e_prompt_text: "list_all (\<lambda>c. of_char c < (128 :: nat)) ending \<Longrightarrow> extract_text (infer_request (e2e_prompt ending)) = Inr (e2e_prompt ending)"
proof -
  assume "list_all (\<lambda>c. of_char c < (128 :: nat)) ending"
  then have "utf8_valid (e2e_prompt ending)"
    by (intro utf8_valid_ascii) (simp add: e2e_prompt_def list_all_iff)
  then show ?thesis
    by (simp add: extract_text_def text_input_tensor_def infer_request_def first_bytes_def first_of_def from_utf8_def)
qed


text \<open>What the prompts of the tests are supposed to tokenize to.\<close>

definition e2e_tokens :: "(string \<Rightarrow> string + u32 list) \<Rightarrow> string \<Rightarrow> u32 list \<Rightarrow> bool" where
  "e2e_tokens encode ending ids =
     (encode (e2e_prompt ending) = Inr ids \<and> 32 \<le> length ids \<and> length ids \<le> 65536)"

lemma e2e_tokens_hashes:
  assumes "e2e_tokens encode ending ids"
  shows "2 \<le> length (block_hashes ids)" and "length (block_hashes ids) \<le> 4096"
    and "as_i64 (length (block_hashes ids)) = int (length (block_hashes ids))"
proof -
  show le: "2 \<le> length (block_hashes ids)" "length (block_hashes ids) \<le> 4096"
    using assms div_le_mono[of 32 "length ids" 16] div_le_mono[of "length ids" 65536 16]
    by (simp_all add: e2e_tokens_def length_block_hashes BLOCK_SIZE_def)
  show "as_i64 (length (block_hashes ids)) = int (length (block_hashes ids))"
    by (rule as_i64_small) (use le(2) in simp)
qed

lemma warm_after_cold:
  assumes "e2e_tokens encode a ids" and "e2e_tokens encode b jds" and "take 16 jds = take 16 ids"
  shows "0 < lookup (fst (lookup_insert (kv_new 4096) (block_hashes ids))) (block_hashes jds)"
proof -
  have "block_hashes jds ! 0 = block_hashes ids ! 0"
    using assms e2e_tokens_hashes(1)[OF assms(1)] e2e_tokens_hashes(1)[OF assms(2)]
    by (simp add: nth_block_hashes length_block_hashes BLOCK_SIZE_def)
  moreover have "block_hashes ids \<noteq> []" "block_hashes jds \<noteq> []"
    using e2e_tokens_hashes(1)[OF assms(1)] e2e_tokens_hashes(1)[OF assms(2)] by auto
  moreover have "set (block_hashes ids) \<subseteq> set (recency (fst (lookup_insert (kv_new 4096) (block_hashes ids))))"
    using assms(1) by (intro replica_keeps_prompt) (simp add: e2e_tokens_def)
  ultimately show ?thesis by (cases "block_hashes ids"; cases "block_hashes jds") (auto simp: lookup_recency lru_hits_def)
qed

lemma lookup_i64: "length hs \<le> 4096 \<Longrightarrow> as_i64 (lookup c hs) = int (lookup c hs)"
  using lookup_le[of c hs] by (intro as_i64_small) simp

lemma e2e_mock_infer:
  assumes "e2e_tokens encode ending ids" and "list_all (\<lambda>c. of_char c < (128 :: nat)) ending"
  obtains m' where "mock_model_infer encode (infer_request (e2e_prompt ending)) m =
      (m', Inr (make_response (infer_request (e2e_prompt ending)) (lookup (kv_cache m) (block_hashes ids)) (length (block_hashes ids)) ''mock-completion''))"
    "kv_cache m' = fst (lookup_insert (kv_cache m) (block_hashes ids))"
  using mock_infer_tokens[of "infer_request (e2e_prompt ending)" "e2e_prompt ending" encode ids m]
    mock_extract_text_first[OF first_is_text_infer_request] e2e_prompt_text[OF assms(2)] assms(1)
  by (auto simp: e2e_tokens_def)

lemma cold_then_warm_passes:
  assumes t: "e2e_tokens encode ''turn one'' ids" "e2e_tokens encode ''turn one and then some more words'' jds" "take 16 jds = take 16 ids"
  shows "test_model_infer_reports_cold_then_warm_cache encode = Some ()"
proof -
  let ?m = "mock_service_new e2e_mock"
  have m: "kv_cache ?m = kv_new 4096" by (simp add: mock_service_new_def e2e_mock_def mock_config_default_def)
  show ?thesis
  proof (rule e2e_mock_infer[OF t(1), of ?m])
    show "list_all (\<lambda>c. of_char c < (128 :: nat)) ''turn one''" by simp
    fix m1 assume 1: "mock_model_infer encode (infer_request (e2e_prompt ''turn one'')) ?m =
        (m1, Inr (make_response (infer_request (e2e_prompt ''turn one'')) (lookup (kv_cache ?m) (block_hashes ids)) (length (block_hashes ids)) ''mock-completion''))"
      "kv_cache m1 = fst (lookup_insert (kv_cache ?m) (block_hashes ids))"
    show ?thesis
    proof (rule e2e_mock_infer[OF t(2), of m1])
      show "list_all (\<lambda>c. of_char c < (128 :: nat)) ''turn one and then some more words''" by simp
      fix m2 assume "mock_model_infer encode (infer_request (e2e_prompt ''turn one and then some more words'')) m1 =
        (m2, Inr (make_response (infer_request (e2e_prompt ''turn one and then some more words'')) (lookup (kv_cache m1) (block_hashes jds)) (length (block_hashes jds)) ''mock-completion''))"
      with 1 e2e_tokens_hashes[OF t(1)] e2e_tokens_hashes[OF t(2)] warm_after_cold[OF t] show ?thesis
        by (simp add: test_model_infer_reports_cold_then_warm_cache_def m int64_make_response kv_new_cold lookup_i64 assert_that_def as_i64_small)
    qed
  qed
qed

lemma live_and_missing_pass:
  "test_server_live_reports_true = Some ()" "test_model_infer_missing_text_tensor encode = Some ()"
  by (simp_all add: test_server_live_reports_true_def mock_server_live_def assert_that_def test_model_infer_missing_text_tensor_def
      mock_model_infer_def mock_extract_text_def status_of_def
      infer_request_default_def)

text \<open>A prompt streamed by the mock, to the client or to the router.\<close>

lemma e2e_mock_stream:
  assumes "e2e_tokens encode ending ids" and "list_all (\<lambda>c. of_char c < (128 :: nat)) ending"
  obtains m' where "mock_model_stream_infer encode status_text [Inr (infer_request (e2e_prompt ending))] m client_channel =
    (m', \<lparr>sent = map Inr (map (decode_chunk (mcfg m) (infer_request (e2e_prompt ending)) (lookup (kv_cache m) (block_hashes ids))
        (length (block_hashes ids))) [0..<decode_chunks (mcfg m)]), gone_after = None\<rparr>)"
proof -
  let ?req = "infer_request (e2e_prompt ending)"
  have "mock_extract_text ?req = Inr (e2e_prompt ending)" "encode (e2e_prompt ending) = Inr ids"
    using mock_extract_text_first[OF first_is_text_infer_request] e2e_prompt_text[OF assms(2)] assms(1) by (simp_all add: e2e_tokens_def)
  note one = stream_one_request[where encode = encode and prompt = "e2e_prompt ending" and req = ?req and tx = client_channel
      and status_text = status_text and m = m, OF this]
  show thesis
  proof (rule one)
    show "gone_after client_channel = None" by (simp add: client_channel_def)
    fix m' tx' assume "mock_model_stream_infer encode status_text [Inr ?req] m client_channel = (m', tx')"
      "sent tx' = sent client_channel @ map Inr (map (decode_chunk (mcfg m) ?req (lookup (kv_cache m) (block_hashes ids))
        (length ids div BLOCK_SIZE)) [0..<decode_chunks (mcfg m)])" "gone_after tx' = gone_after client_channel"
    then show thesis by (intro that[of m']) (simp add: client_channel_def length_block_hashes)
  qed
qed

lemma stream_test_passes:
  assumes "e2e_tokens encode ''stream me'' ids"
  shows "test_model_stream_infer_emits_configured_chunk_count encode status_text = Some ()"
proof (rule e2e_mock_stream[OF assms, of status_text "mock_service_new (e2e_mock\<lparr>decode_chunks := 3, decode_interval_ms := 1\<rparr>)"])
  show "list_all (\<lambda>c. of_char c < (128 :: nat)) ''stream me''" by simp
  let ?m = "mock_service_new (e2e_mock\<lparr>decode_chunks := 3, decode_interval_ms := 1\<rparr>)"
  have m: "kv_cache ?m = kv_new 4096" "decode_chunks (mcfg ?m) = 3"
    by (simp_all add: mock_service_new_def e2e_mock_def mock_config_default_def)
  have upt: "[0..<3] = [0, 1, 2 :: nat]" by (simp add: upt_rec)
  fix m' assume run: "mock_model_stream_infer encode status_text [Inr (infer_request (e2e_prompt ''stream me''))] ?m client_channel =
    (m', \<lparr>sent = map Inr (map (decode_chunk (mcfg ?m) (infer_request (e2e_prompt ''stream me'')) (lookup (kv_cache ?m) (block_hashes ids))
        (length (block_hashes ids))) [0..<decode_chunks (mcfg ?m)]), gone_after = None\<rparr>)"
  have "block_hashes ids \<noteq> []" using e2e_tokens_hashes(1)[OF assms] by auto
  with e2e_tokens_hashes[OF assms] show ?thesis
    unfolding test_model_stream_infer_emits_configured_chunk_count_def Let_def run case_prod_conv
    by (simp add: m upt kv_new_cold check_chunk_def decode_chunk_def Let_def stream_chunk_def int64_make_response assert_that_def as_i64_small)
qed
subsection \<open>The tests of the router pass\<close>

text \<open>Between two idle replicas, of which the second knows nothing of the prompt, the first is chosen.\<close>

lemma two_idle:
  assumes d: "decides s hs i m" and pol: "policy s = CacheAware" and n: "length (replicas s) = 2"
    and idle: "\<forall>j<2. available (cfg s) (replicas s ! j) \<and> inflight (replicas s ! j) = 0"
    and cold: "lookup (cache (replicas s ! 1)) hs = 0" and min: "0 < min_match_blocks (cfg s)"
  shows "i = 0"
proof -
  have two: "available_indices (cfg s) (replicas s) = [0, 1]"
    using idle by (simp add: available_indices_def n upt_rec numeral_2_eq_2)
  show ?thesis
  proof (rule cache_aware_choice[OF pol d])
    assume warm: "min_match_blocks (cfg s) \<le> m" "best_loop (cfg s) (replicas s) hs (available_indices (cfg s) (replicas s))
        (available_indices (cfg s) (replicas s) ! 0) f64_MIN 0 = (i, m)"
    from best_loop_result[OF best_ok_start warm(2)[unfolded two]]
    have "m = 0 \<or> m = lookup (cache (replicas s ! i)) hs" by (auto simp: best_ok_def)
    moreover have "i = 0 \<or> i \<in> set [0, 1]"
      using best_loop_mem[of "cfg s" "replicas s" hs "[0, 1]" "[0, 1] ! 0" f64_MIN 0] warm(2)[unfolded two] by simp
    ultimately show ?thesis using warm(1) min cold by auto
  next
    assume "min_by_key (\<lambda>i. inflight (replicas s ! i)) (available_indices (cfg s) (replicas s)) = Some i"
    then show ?thesis using idle by (simp add: two)
  qed
qed

lemma spawned_router:
  "router_inv (spawn_router_with_cfg n pol c)" "sched (spawn_router_with_cfg n pol c) = scheduler_new n pol c"
  "fleet_size (spawn_router_with_cfg n pol c) = n"
  using router_inv_new[of n pol c]
  by (simp_all add: spawn_router_with_cfg_def router_inner_new_def fleet_size_def num_replicas_def scheduler_new_def)

lemma new_fleet:
  "replicas (scheduler_new n pol c) = replicate n new_replica" "cfg (scheduler_new n pol c) = c" "policy (scheduler_new n pol c) = pol"
  "inflight new_replica = 0" "healthy new_replica" "lookup (cache new_replica) hs = 0"
  by (cases hs; simp add: scheduler_new_def new_replica_def lookup_recency pc.order_new lru_hits_def map_replicate_const)+

lemma same_prefix_passes:
  assumes t: "e2e_tokens encode ''turn one'' ids" "e2e_tokens encode ''turn one and then some more words'' jds" "take 16 jds = take 16 ids"
  shows "test_same_prefix_requests_hit_cache encode code_text = Some ()"
proof -
  let ?r = "spawn_router 2 CacheAware" and ?ms = "[mock_service_new e2e_mock, mock_service_new e2e_mock]"
  let ?hs = "block_hashes ids" and ?gs = "block_hashes jds"
  let ?req = "infer_request (e2e_prompt ''turn one'')" and ?req2 = "infer_request (e2e_prompt ''turn one and then some more words'')"
  have r: "router_inv ?r" "sched ?r = scheduler_new 2 CacheAware default_config" "fleet_size ?r = 2"
    by (simp_all add: spawn_router_def spawned_router)
  have enc: "encode (e2e_prompt ''turn one'') = Inr ids" "encode (e2e_prompt ''turn one and then some more words'') = Inr jds"
    using t by (simp_all add: e2e_tokens_def)
  have texts: "extract_text ?req = Inr (e2e_prompt ''turn one'')" "extract_text ?req2 = Inr (e2e_prompt ''turn one and then some more words'')"
    by (simp_all add: e2e_prompt_text)
  have m: "kv_cache (mock_service_new e2e_mock) = kv_new 4096" by (simp add: mock_service_new_def e2e_mock_def mock_config_default_def)
  have pair: "replicas (sched ?r) = [new_replica, new_replica]" unfolding r new_fleet by (simp add: numeral_2_eq_2)
  have "new_replica \<in> set (replicas (sched ?r)) \<and> available (cfg (sched ?r)) new_replica"
    by (simp add: r new_fleet available_def default_config_def)
  then obtain i k where "decides (sched ?r) ?hs i k" using decides_exists by blast
  moreover from this have "i = 0" by (rule two_idle) (simp_all add: r new_fleet available_def default_config_def less_2_cases_iff)
  ultimately have d: "decides (sched ?r) ?hs 0 k" by simp
  note p = pick_replica_decides(2)[OF r(1) d]
  show ?thesis
  proof (rule picked_request[where encode = encode and s = "e2e_prompt ''turn one''" and code_text = code_text and ms = ?ms,
        OF r(1) first_is_text_infer_request texts(1) enc(1) _ _ refl p])
    show "0 < length ?ms" "0 < fleet_size ?r" by (simp_all add: r)
    fix r2 m' assume run: "model_infer_attempts (tokenize encode) code_text (mock_upstream encode) ?req (?r, ?ms) =
        Some ((record_served r2 (length ?hs) (picked_decision ?r 0 k), ?ms[0 := m']),
          Inr (make_response ?req (lookup (kv_cache (?ms ! 0)) ?hs) (length ?hs) ''mock-completion''))"
      and s2: "complete (sched (after_pick ?r ?hs 0)) 0 = Some (sched r2)" and r2: "router_inv r2"
      and m': "kv_cache m' = fst (lookup_insert (kv_cache (?ms ! 0)) ?hs)"
    let ?r3 = "record_served r2 (length ?hs) (picked_decision ?r 0 k)"
    have s3: "sched ?r3 = sched r2" "router_inv ?r3" using r2 by (simp_all add: record_served_def router_inv_def)
    have "sched r2 = (scheduler_new 2 CacheAware default_config)
        \<lparr>replicas := [(routed (sched ?r) ?hs new_replica)\<lparr>inflight := 0\<rparr>, new_replica]\<rparr>"
      using s2 pair by (simp add: complete_def vec_get_def rr_advance_def routed_def r new_fleet del: One_nat_def)
    then have fields: "replicas (sched r2) = [(routed (sched ?r) ?hs new_replica)\<lparr>inflight := 0\<rparr>, new_replica]"
      "cfg (sched r2) = default_config" "policy (sched r2) = CacheAware"
      by (simp_all add: new_fleet)
    have up: "\<forall>j<2. available (cfg (sched r2)) (replicas (sched r2) ! j) \<and> inflight (replicas (sched r2) ! j) = 0"
      by (auto simp: fields new_fleet available_def default_config_def routed_def less_2_cases_iff)
    then obtain j l where d2: "decides (sched ?r3) ?gs j l"
      using decides_exists[of "replicas (sched r2) ! 0" "sched r2"] by (fastforce simp: s3 fields)
    have "j = 0"
      using two_idle[OF d2[unfolded s3(1)]] up by (simp add: fields new_fleet default_config_def)
    note p2 = pick_replica_decides[OF s3(2) d2[unfolded \<open>j = 0\<close>]]
    show ?thesis
    proof (rule picked_request[where encode = encode and s = "e2e_prompt ''turn one and then some more words''" and code_text = code_text and ms = "?ms[0 := m']",
          OF s3(2) first_is_text_infer_request texts(2) enc(2) _ p2(1) refl p2(2)])
      show "0 < length (?ms[0 := m'])" by simp
      fix r4 m2 assume run2: "model_infer_attempts (tokenize encode) code_text (mock_upstream encode) ?req2 (?r3, ?ms[0 := m']) =
          Some ((record_served r4 (length ?gs) (picked_decision ?r3 0 l), ?ms[0 := m', 0 := m2]),
            Inr (make_response ?req2 (lookup (kv_cache (?ms[0 := m'] ! 0)) ?gs) (length ?gs) ''mock-completion''))"
      have "kv_cache (?ms[0 := m'] ! 0) = fst (lookup_insert (kv_new 4096) ?hs)" using m' by (simp add: m)
      then show ?thesis
        unfolding test_same_prefix_requests_hit_cache_def Let_def run
        using run2 warm_after_cold[OF t] e2e_tokens_hashes[OF t(2)]
        by (simp add: int64_make_response m kv_new_cold lookup_i64 as_i64_small assert_that_def)
    qed
  qed
qed
lemma saturated_passes:
  assumes "encode ''hello'' = Inr ids"
  shows "test_saturated_replicas_reject_fast encode code_text = Some ()"
proof -
  let ?r = "spawn_router_with_cap 1 0"
  have r: "sched ?r = scheduler_new 1 CacheAware (default_config\<lparr>max_inflight := 0\<rparr>)"
    by (simp add: spawn_router_with_cap_def spawned_router)
  have "pick (sched ?r) hs = Some (sched ?r, Inl AllSaturated)" for hs
    unfolding r using pick_unavailable[of "scheduler_new 1 CacheAware (default_config\<lparr>max_inflight := 0\<rparr>)" hs]
    by (simp add: new_fleet available_def)
  then have "pick_replica ?r hs = Some (?r\<lparr>routing_observations := routing_observations ?r + 1\<rparr>, Inl (pick_status AllSaturated))" for hs
    by (simp add: pick_replica_def Let_def)
  moreover have "request_hashes (tokenize encode) (infer_request ''hello'') = Inr (block_hashes ids)"
    using assms utf8_valid_ascii[of "''hello''"]
    by (simp add: request_hashes_def hash_prompt_def tokenize_def extract_text_def text_input_tensor_def infer_request_def
        first_bytes_def first_of_def from_utf8_def)
  ultimately show ?thesis
    by (simp add: test_saturated_replicas_reject_fast_def model_infer_attempts_hashes attempt_def status_of_def assert_that_def)
qed

lemma prober_passes:
  assumes "passes \<noteq> []" and "\<forall>found\<in>set passes. found = [(0, False), (1, True)] \<or> found = [(1, True), (0, False)]"
  shows "test_health_prober_marks_dead_replica passes = Some ()"
proof -
  have run: "\<exists>r'. probe_passes passes r = Some r' \<and> (passes \<noteq> [] \<or> \<not> healthy (replicas (sched r) ! 0) \<and> healthy_replicas r = 1 \<longrightarrow>
      \<not> healthy (replicas (sched r') ! 0) \<and> healthy (replicas (sched r') ! 1) \<and> healthy_replicas r' = 1 \<and> length (replicas (sched r')) = 2)"
    if "length (replicas (sched r)) = 2" "healthy (replicas (sched r) ! 1)"
      "\<forall>found\<in>set passes. found = [(0, False), (1, True)] \<or> found = [(1, True), (0, False)]" for passes r
    using that
  proof (induction passes arbitrary: r)
    case (Cons found passes)
    have "\<exists>r1. probe_pass found r = Some r1 \<and> length (replicas (sched r1)) = 2 \<and> \<not> healthy (replicas (sched r1) ! 0) \<and>
        healthy (replicas (sched r1) ! 1) \<and> healthy_replicas r1 = 1"
      using Cons.prems by (auto simp: probe_pass_def is_healthy_def mark_healthy_def mark_unhealthy_def vec_get_def)
    then obtain r1 where r1: "probe_pass found r = Some r1" "length (replicas (sched r1)) = 2" "\<not> healthy (replicas (sched r1) ! 0)"
        "healthy (replicas (sched r1) ! 1)" "healthy_replicas r1 = 1" by blast
    from Cons.IH[OF r1(2,4)] Cons.prems(3) r1 show ?case by fastforce
  qed auto
  have "length (replicas (sched (spawn_router 2 RoundRobin))) = 2" "healthy (replicas (sched (spawn_router 2 RoundRobin)) ! 1)"
    by (simp_all add: spawn_router_def spawned_router new_fleet)
  from run[OF this assms(2)] assms(1) show ?thesis
    by (auto simp: test_health_prober_marks_dead_replica_def is_healthy_def vec_get_def assert_that_def)
qed
lemma streaming_passes:
  assumes "e2e_tokens encode ''stream me'' ids"
  shows "test_streaming_forwards_chunks encode code_text status_text = Some ()"
proof -
  define r where "r = spawn_router 1 CacheAware"
  let ?m = "mock_service_new e2e_mock" and ?req = "infer_request (e2e_prompt ''stream me'')"
  let ?hs = "block_hashes ids"
  let ?chunks = "map (decode_chunk (mcfg ?m) ?req (lookup (kv_cache ?m) ?hs) (length ?hs)) [0..<decode_chunks (mcfg ?m)]"
  have rr: "router_inv r" "sched r = scheduler_new 1 CacheAware default_config" "fleet_size r = 1"
    by (simp_all add: r_def spawn_router_def spawned_router)
  have "new_replica \<in> set (replicas (sched r)) \<and> available (cfg (sched r)) new_replica"
    by (simp add: rr new_fleet available_def default_config_def)
  then obtain i k where d: "decides (sched r) ?hs i k" using decides_exists by blast
  then have "i < 1" using decides_available[OF d] unfolding rr new_fleet by simp
  then have "i = 0" by simp
  note p = pick_replica_decides[OF rr(1) d[unfolded this]]
  let ?r1 = "record_served (after_pick r ?hs 0) (length ?hs) (picked_decision r 0 k)"
  have "router_inv (after_pick r ?hs 0)" "fleet_size (after_pick r ?hs 0) = 1"
    using pick_replica_ok[OF rr(1), of ?hs] p by (simp_all add: rr(3))
  then have r1: "router_inv ?r1" "0 < fleet_size ?r1"
    by (simp_all add: record_served_def router_inv_def fleet_size_def num_replicas_def)
  have hs: "extract_text ?req = Inr (e2e_prompt ''stream me'')" "hash_prompt (tokenize encode) (e2e_prompt ''stream me'') = Inr ?hs"
    using assms by (simp_all add: e2e_prompt_text hash_prompt_def tokenize_def e2e_tokens_def)
  show ?thesis
  proof (rule e2e_mock_stream[OF assms, of status_text ?m])
    show "list_all (\<lambda>c. of_char c < (128 :: nat)) ''stream me''" by simp
    fix m' assume run: "mock_model_stream_infer encode status_text [Inr ?req] ?m client_channel = (m', \<lparr>sent = map Inr ?chunks, gone_after = None\<rparr>)"
    have up: "mock_stream_upstream encode status_text 0 ?req (?r1, [?m]) = ((?r1, [m']), Inr (?chunks, None))"
      unfolding mock_stream_upstream_def by (simp add: run read_stream_Inr del: map_map mock_model_stream_infer.simps)
    obtain tx gone where fwd: "forward_chunks code_text ?chunks None client_channel = (tx, gone)" by fastforce
    with forward_chunks_sends[of client_channel code_text ?chunks None]
    have tx: "sent tx = map Inr ?chunks" by (simp add: sends_def delivered_def client_channel_def stream_reply_def)
    show ?thesis
    proof (rule router_complete_eq[OF r1])
      fix r2 assume "router_complete ?r1 0 = Some r2"
      with p up fwd hs have exec: "model_stream_infer (tokenize encode) code_text (mock_stream_upstream encode status_text) [Inr ?req] (r, [?m]) client_channel =
          Some ((r2, [m']), tx)"
        by (simp add: stream_request_def)
      have "[0..<4] = [0, 1, 2, 3 :: nat]" "decode_chunks (mcfg ?m) = 4"
        by (simp_all add: upt_rec mock_service_new_def e2e_mock_def mock_config_default_def)
      then show ?thesis
        unfolding test_streaming_forwards_chunks_def r_def[symmetric] Let_def exec bind.bind_lunit case_prod_conv tx unwrap_all_Inr
        by (simp add: decode_chunk_def Let_def stream_chunk_def int64_make_response assert_that_def map_filter_simps mock_config_default_def)
    qed
  qed
qed
lemma failover_passes:
  assumes t: "e2e_tokens encode ''failover'' ids" and dead: "is_transport_failure dead"
  shows "test_failover_retries_on_dead_replica encode code_text dead = Some ()"
proof -
  define r where "r = spawn_router 2 RoundRobin"
  let ?m = "mock_service_new e2e_mock" and ?req = "infer_request (e2e_prompt ''failover'')" and ?hs = "block_hashes ids"
  have rr: "router_inv r" "sched r = scheduler_new 2 RoundRobin default_config" "fleet_size r = 2"
    by (simp_all add: r_def spawn_router_def spawned_router)
  have hs: "request_hashes (tokenize encode) ?req = Inr ?hs"
    using t by (simp add: request_hashes_def e2e_prompt_text hash_prompt_def tokenize_def e2e_tokens_def)
  have "decides (sched r) ?hs (rr_next (sched r)) 0"
    by (rule rr_decides_next) (simp_all add: rr new_fleet available_def default_config_def, simp_all add: scheduler_new_def new_replica_def)
  then have d: "decides (sched r) ?hs 0 0" by (simp add: rr) (simp add: scheduler_new_def)
  note p = pick_replica_decides[OF rr(1) d]
  let ?r1 = "after_pick r ?hs 0"
  have r1: "router_inv ?r1" "0 < fleet_size ?r1" using pick_replica_ok[OF rr(1), of ?hs] p by (simp_all add: rr(3))
  show ?thesis
  proof (rule router_complete_eq[OF r1])
    fix r2 assume r2: "router_complete ?r1 0 = Some r2" "router_inv r2" "fleet_size r2 = fleet_size ?r1"
      "replicas (sched r2) = (replicas (sched ?r1))[0 := (replicas (sched ?r1) ! 0)\<lparr>inflight := inflight (replicas (sched ?r1) ! 0) - 1\<rparr>]"
    then have cfg2: "cfg (sched r2) = default_config"
      by (auto simp: router_complete_def complete_def set_gauge_def bind_eq_Some_conv rr rr_advance_def new_fleet split: if_splits)
    have first: "attempt (half_dead dead encode) ?req ?hs (r, ?m) = Some ((r2, ?m), Inr (picked_decision r 0 0, Inl dead))"
      using p r2(1) by (simp add: attempt_def half_dead_def)
    have "0 < fleet_size r2" using r2(3) r1(2) by simp
    from router_mark_unhealthy_cases[OF r2(2) this] obtain r3 where r3: "router_mark_unhealthy r2 0 = Some r3"
      "replicas (sched r3) = (replicas (sched r2))[0 := dead_replica]" "cfg (sched r3) = cfg (sched r2)" "router_inv r3" by blast
    have reps: "replicas (sched r3) ! 1 = new_replica" "length (replicas (sched r3)) = 2" "replicas (sched r3) ! 0 = dead_replica"
      by (simp_all add: r3 r2 rr new_fleet)
    have "new_replica \<in> set (replicas (sched r3))" using nth_mem[of 1 "replicas (sched r3)"] unfolding reps by simp
    moreover have "available (cfg (sched r3)) new_replica" by (simp add: available_def new_fleet r3 cfg2 default_config_def)
    ultimately obtain i k where d3: "decides (sched r3) ?hs i k" using decides_exists by blast
    have "\<not> healthy dead_replica" by (simp add: dead_replica_def)
    then have "i = 1" using decides_available[OF d3] reps less_2_cases[of i] by (auto simp: available_def)
    note p3 = pick_replica_decides[OF r3(4) d3[unfolded this]]
    let ?r4 = "after_pick r3 ?hs 1"
    have r4: "router_inv ?r4" "1 < fleet_size ?r4" using pick_replica_ok[OF r3(4), of ?hs] p3 by simp_all
    show ?thesis
    proof (rule router_complete_eq[OF r4], rule e2e_mock_infer[OF t, of ?m])
      show "list_all (\<lambda>c. of_char c < (128 :: nat)) ''failover''" by simp
      fix r5 m' assume r5: "router_complete ?r4 1 = Some r5"
        and m': "mock_model_infer encode ?req ?m =
          (m', Inr (make_response ?req (lookup (kv_cache ?m) ?hs) (length ?hs) ''mock-completion''))"
      define resp where "resp = make_response ?req (lookup (kv_cache ?m) ?hs) (length ?hs) ''mock-completion''"
      have "attempt (half_dead dead encode) ?req ?hs (r3, ?m) = Some ((r5, m'), Inr (picked_decision r3 1 k, Inr resp))"
        using p3 r5 m' by (simp add: attempt_def half_dead_def flip: resp_def)
      with first r3(1) dead hs have "\<exists>x. model_infer_attempts (tokenize encode) code_text (half_dead dead encode) ?req (r, ?m) = Some (x, Inr resp)"
        by (simp add: model_infer_attempts_hashes last_attempt_def)
      then show ?thesis
        unfolding test_failover_retries_on_dead_replica_def Let_def r_def[symmetric] by (auto simp: assert_that_def)
    qed
  qed
qed
subsection \<open>Both test files\<close>

definition service_e2e_tests :: "(string \<Rightarrow> string + u32 list) \<Rightarrow> (status \<Rightarrow> string) \<Rightarrow> unit panics list" where
  "service_e2e_tests encode status_text =
     [test_server_live_reports_true, test_model_infer_reports_cold_then_warm_cache encode,
      test_model_infer_missing_text_tensor encode, test_model_stream_infer_emits_configured_chunk_count encode status_text]"

definition router_e2e_tests ::
  "(string \<Rightarrow> string + u32 list) \<Rightarrow> (status_code \<Rightarrow> string) \<Rightarrow> (status \<Rightarrow> string) \<Rightarrow> status \<Rightarrow> (usize \<times> bool) list list \<Rightarrow> unit panics list" where
  "router_e2e_tests encode code_text status_text dead passes =
     [test_same_prefix_requests_hit_cache encode code_text, test_saturated_replicas_reject_fast encode code_text,
      test_streaming_forwards_chunks encode code_text status_text,
      test_failover_retries_on_dead_replica encode code_text dead, test_health_prober_marks_dead_replica passes]"

text \<open>C40. The tests of the two services, end to end over the handlers, pass: for every tokenizer that
  gives the long prompts two blocks at least and 4096 at most, the first block in common for the two
  turns of one conversation, for every status of a dead endpoint that counts as a transport failure,
  and for every number of probe passes with the results in either order.\<close>

theorem integration_tests_pass:
  assumes "e2e_tokens encode ''turn one'' ids" and "e2e_tokens encode ''turn one and then some more words'' jds"
    and "take 16 jds = take 16 ids" and "e2e_tokens encode ''stream me'' kds" and "e2e_tokens encode ''failover'' lds"
    and "encode ''hello'' = Inr hello" and "is_transport_failure dead" and "passes \<noteq> []"
    and "\<forall>found\<in>set passes. found = [(0, False), (1, True)] \<or> found = [(1, True), (0, False)]"
  shows "list_all (\<lambda>t. t = Some ()) (service_e2e_tests encode status_text @ router_e2e_tests encode code_text status_text dead passes)"
  using live_and_missing_pass cold_then_warm_passes[OF assms(1-3)] stream_test_passes[OF assms(4)] same_prefix_passes[OF assms(1-3)]
    saturated_passes[where encode = encode, OF assms(6)] streaming_passes[OF assms(4)] failover_passes[OF assms(5,7)] prober_passes[OF assms(8,9)]
  by (simp add: service_e2e_tests_def router_e2e_tests_def)

theorem integration_tests_pass_witness:
  "test_same_prefix_requests_hit_cache zero_tokens (\<lambda>_. ''c'') = Some () \<and>
   test_failover_retries_on_dead_replica zero_tokens (\<lambda>_. ''c'') (status_of Unavailable ''connection closed'') = Some () \<and>
   test_health_prober_marks_dead_replica [[(1, True), (0, False)], [(0, False), (1, True)]] = Some ()"
proof -
  have len: "length (e2e_prompt s) = 1351 + length s" for s
    by (simp add: e2e_prompt_def length_concat map_replicate_const sum_list_replicate)
  have tokens: "e2e_tokens zero_tokens s (replicate (1351 + length s) 0)" if "length s \<le> 100" for s
    using that by (simp add: e2e_tokens_def zero_tokens_def len)
  have "list_all (\<lambda>t. t = Some ()) (service_e2e_tests zero_tokens message @
      router_e2e_tests zero_tokens (\<lambda>_. ''c'') message (status_of Unavailable ''connection closed'') [[(1, True), (0, False)], [(0, False), (1, True)]])"
    by (rule integration_tests_pass[OF tokens tokens _ tokens tokens, where hello = "[0, 0, 0, 0, 0]"])
      (simp_all add: is_transport_failure_def status_of_def zero_tokens_def)
  then show ?thesis by (simp add: router_e2e_tests_def)
qed

end
