(* ===== verification/Tests_Scheduler.thy ===== *)
theory Tests_Scheduler
  imports Fleet Tests_Cache
begin

text \<open>
  The unit tests of \<open>router/src/scheduler.rs\<close>, translated statement by statement, with the default
  configuration and its floating-point weights. They are evaluated by rewriting with the
  definitions, one call after the other.
\<close>

definition sched_default :: "usize \<Rightarrow> policy \<Rightarrow> scheduler" where
  "sched_default n pol = scheduler_new n pol default_config"

text \<open>\<open>s.pick(..).unwrap()\<close> and \<open>unwrap_err()\<close>.\<close>

definition pick_unwrap :: "scheduler \<Rightarrow> u64 list \<Rightarrow> (scheduler \<times> route_decision) panics" where
  "pick_unwrap s hashes = do {
     (s, res) \<leftarrow> pick s hashes;
     (case res of Inl e \<Rightarrow> None | Inr d \<Rightarrow> Some (s, d))
   }"

definition pick_unwrap_err :: "scheduler \<Rightarrow> u64 list \<Rightarrow> (scheduler \<times> pick_error) panics" where
  "pick_unwrap_err s hashes = do {
     (s, res) \<leftarrow> pick s hashes;
     (case res of Inl e \<Rightarrow> Some (s, e) | Inr d \<Rightarrow> None)
   }"

text \<open>The closure that picks, completes and returns the replica, \<open>n\<close> times.\<close>

fun pick_and_complete :: "nat \<Rightarrow> u64 list \<Rightarrow> scheduler \<Rightarrow> usize list panics" where
  "pick_and_complete 0 hashes s = Some []"
| "pick_and_complete (Suc n) hashes s = do {
     (s, d) \<leftarrow> pick_unwrap s hashes;
     s \<leftarrow> complete s (replica d);
     picks \<leftarrow> pick_and_complete n hashes s;
     Some (replica d # picks)
   }"

definition test_same_prefix_pins_to_same_replica :: "unit panics" where
  "test_same_prefix_pins_to_same_replica = do {
     let s = sched_default 4 CacheAware;
     let hashes = [1, 2, 3, 4, 5, 6, 7, 8];
     (s, d1) \<leftarrow> pick_unwrap s hashes;
     s \<leftarrow> complete s (replica d1);
     (s, d2) \<leftarrow> pick_unwrap s hashes;
     _ \<leftarrow> assert_that (replica d1 = replica d2);
     assert_that (matched_blocks d2 = 8)
   }"

definition test_cold_traffic_goes_least_loaded :: "unit panics" where
  "test_cold_traffic_goes_least_loaded = do {
     let s = sched_default 3 CacheAware;
     (s, a) \<leftarrow> pick_unwrap s [100, 101];
     (s, b) \<leftarrow> pick_unwrap s [200, 201];
     (s, c) \<leftarrow> pick_unwrap s [300, 301];
     assert_that (sort [replica a, replica b, replica c] = [0, 1, 2])
   }"

definition test_round_robin_cycles_and_ignores_cache :: "unit panics" where
  "test_round_robin_cycles_and_ignores_cache = do {
     picks \<leftarrow> pick_and_complete 6 [1, 2, 3, 4] (sched_default 3 RoundRobin);
     assert_that (picks = [0, 1, 2, 0, 1, 2])
   }"

definition test_unhealthy_replica_skipped_and_cache_dropped :: "unit panics" where
  "test_unhealthy_replica_skipped_and_cache_dropped = do {
     let s = sched_default 2 CacheAware;
     let hashes = [1, 2, 3, 4, 5, 6, 7, 8];
     (s, d) \<leftarrow> pick_unwrap s hashes;
     s \<leftarrow> complete s (replica d);
     s \<leftarrow> mark_unhealthy s (replica d);
     (s, d2) \<leftarrow> pick_unwrap s hashes;
     _ \<leftarrow> assert_that (replica d2 \<noteq> replica d);
     s \<leftarrow> complete s (replica d2);
     s \<leftarrow> mark_healthy s (replica d);
     (s, d3) \<leftarrow> pick_unwrap s hashes;
     assert_that (replica d3 = replica d2)
   }"

definition test_all_replicas_at_cap_returns_all_saturated :: "unit panics" where
  "test_all_replicas_at_cap_returns_all_saturated = do {
     let c = default_config\<lparr>max_inflight := 1\<rparr>;
     let s = scheduler_new 2 CacheAware c;
     (s, _) \<leftarrow> pick_unwrap s [1, 2];
     (s, _) \<leftarrow> pick_unwrap s [3, 4];
     (s, e) \<leftarrow> pick_unwrap_err s [5, 6];
     assert_that (e = AllSaturated)
   }"

definition test_no_healthy_replicas_error :: "unit panics" where
  "test_no_healthy_replicas_error = do {
     let s = sched_default 2 CacheAware;
     s \<leftarrow> mark_unhealthy s 0;
     s \<leftarrow> mark_unhealthy s 1;
     (s, e) \<leftarrow> pick_unwrap_err s [1, 2];
     assert_that (e = NoHealthyReplicas)
   }"

text \<open>The loop \<open>for i in 0..10u64\<close> of the eviction test, from \<open>i\<close> on.\<close>

fun seed_rounds :: "nat \<Rightarrow> u64 \<Rightarrow> scheduler \<Rightarrow> scheduler panics" where
  "seed_rounds 0 i s = Some s"
| "seed_rounds (Suc n) i s = do {
     (s, d) \<leftarrow> pick_unwrap s [i * 10, i * 10 + 1];
     s \<leftarrow> complete s (replica d);
     seed_rounds n (i + 1) s
   }"

definition test_eviction_respects_block_budget :: "unit panics" where
  "test_eviction_respects_block_budget = do {
     let c = default_config\<lparr>block_budget := 4\<rparr>;
     s \<leftarrow> seed_rounds 10 0 (scheduler_new 1 CacheAware c);
     n \<leftarrow> replica_blocks s 0;
     assert_that (n \<le> 4)
   }"

definition test_fallback_reports_actual_matched_blocks :: "unit panics" where
  "test_fallback_reports_actual_matched_blocks = do {
     let c = default_config\<lparr>min_match_blocks := 5\<rparr>;
     let s = scheduler_new 2 CacheAware c;
     (s, seed) \<leftarrow> pick_unwrap s [1, 2, 3];
     _ \<leftarrow> assert_that (replica seed = 0);
     s \<leftarrow> complete s (replica seed);
     (s, d) \<leftarrow> pick_unwrap s [1, 2, 3];
     _ \<leftarrow> assert_that (replica d = 0);
     assert_that (matched_blocks d = 3)
   }"

definition test_matched_equal_to_min_match_blocks :: "unit panics" where
  "test_matched_equal_to_min_match_blocks = do {
     let s = sched_default 2 CacheAware;
     let hashes = [1, 2];
     (s, warm) \<leftarrow> pick_unwrap s [999, 998];
     _ \<leftarrow> assert_that (replica warm = 0);
     (s, seed) \<leftarrow> pick_unwrap s hashes;
     _ \<leftarrow> assert_that (replica seed = 1);
     s \<leftarrow> complete s (replica warm);
     s \<leftarrow> complete s (replica seed);
     (s, d) \<leftarrow> pick_unwrap s hashes;
     _ \<leftarrow> assert_that (replica d = 1);
     assert_that (matched_blocks d = 2)
   }"

definition test_empty_hashes_routes_least_loaded :: "unit panics" where
  "test_empty_hashes_routes_least_loaded = do {
     let s = sched_default 3 CacheAware;
     (s, d) \<leftarrow> pick_unwrap s [];
     _ \<leftarrow> assert_that (matched_blocks d = 0);
     assert_that (replica d < 3)
   }"

definition test_round_robin_skips_unhealthy_replica :: "unit panics" where
  "test_round_robin_skips_unhealthy_replica = do {
     let s = sched_default 3 RoundRobin;
     s \<leftarrow> mark_unhealthy s 1;
     picks \<leftarrow> pick_and_complete 4 [1, 2] s;
     assert_that (picks = [0, 2, 0, 2])
   }"

definition scheduler_tests :: "unit panics list" where
  "scheduler_tests =
     [test_same_prefix_pins_to_same_replica, test_cold_traffic_goes_least_loaded,
      test_round_robin_cycles_and_ignores_cache, test_unhealthy_replica_skipped_and_cache_dropped,
      test_all_replicas_at_cap_returns_all_saturated, test_no_healthy_replicas_error,
      test_eviction_respects_block_budget, test_fallback_reports_actual_matched_blocks,
      test_matched_equal_to_min_match_blocks, test_empty_hashes_routes_least_loaded,
      test_round_robin_skips_unhealthy_replica]"

subsection \<open>Evaluation\<close>

text \<open>
  A cache within its budget is not evicted from, a short heap is not rebuilt, small scores are exact;
  the continuation of a call is rewritten only after the call.
\<close>

named_theorems run_simps

lemma evict_to_fits: "hm_len (bmap c) \<le> b \<Longrightarrow> evict_to c b = c"
  by (simp add: evict_to_def evict_loop.simps)

lemma compact_small: "bh_len (heap c) \<le> 2048 \<Longrightarrow> compact_if_bloated c = c"
  by (simp add: compact_if_bloated_def COMPACT_FLOOR_def)

lemma bind_weak: "m = m' \<Longrightarrow> Option.bind m f = Option.bind m' f"
  by simp

lemmas [run_simps] = sched_default_def scheduler_new_def new_replica_def pick_unwrap_def pick_unwrap_err_def pick_def
  pick_cache_aware_def pick_round_robin_def route_to_def score_def default_config_def complete_def mark_unhealthy_def
  mark_healthy_def vec_get_def assert_that_def evict_to_fits compact_small insert_chain_def touch_def touch_block_def
  lookup_def hm_len_def hm_insert_def hm_contains_key_def bh_push_def bh_len_def prefix_cache_new_def
  f64_of_usize_exact f64_round_exact f64_sub_def f64_gt_MIN upt_rec

lemma pick_and_complete_numeral:
  "pick_and_complete (numeral k) hashes s = do {
     (s, d) \<leftarrow> pick_unwrap s hashes;
     s \<leftarrow> complete s (replica d);
     picks \<leftarrow> pick_and_complete (pred_numeral k) hashes s;
     Some (replica d # picks)
   }"
  by (simp add: numeral_eq_Suc)

lemma run_same_prefix_pins_to_same_replica: "test_same_prefix_pins_to_same_replica = Some ()"
  by (simp add: test_same_prefix_pins_to_same_replica_def run_simps del: f64_gt.simps cong: bind_weak let_weak_cong)

lemma run_cold_traffic_goes_least_loaded: "test_cold_traffic_goes_least_loaded = Some ()"
  by (simp add: test_cold_traffic_goes_least_loaded_def run_simps del: f64_gt.simps cong: bind_weak let_weak_cong)

lemma run_unhealthy_replica_skipped_and_cache_dropped: "test_unhealthy_replica_skipped_and_cache_dropped = Some ()"
  by (simp add: test_unhealthy_replica_skipped_and_cache_dropped_def run_simps del: f64_gt.simps cong: bind_weak let_weak_cong)

lemma run_all_replicas_at_cap_returns_all_saturated: "test_all_replicas_at_cap_returns_all_saturated = Some ()"
  by (simp add: test_all_replicas_at_cap_returns_all_saturated_def run_simps del: f64_gt.simps cong: bind_weak let_weak_cong)

lemma run_no_healthy_replicas_error: "test_no_healthy_replicas_error = Some ()"
  by (simp add: test_no_healthy_replicas_error_def run_simps del: f64_gt.simps cong: bind_weak let_weak_cong)

lemma run_fallback_reports_actual_matched_blocks: "test_fallback_reports_actual_matched_blocks = Some ()"
  by (simp add: test_fallback_reports_actual_matched_blocks_def run_simps del: f64_gt.simps cong: bind_weak let_weak_cong)

lemma run_matched_equal_to_min_match_blocks: "test_matched_equal_to_min_match_blocks = Some ()"
  by (simp add: test_matched_equal_to_min_match_blocks_def run_simps del: f64_gt.simps cong: bind_weak let_weak_cong)

lemma run_empty_hashes_routes_least_loaded: "test_empty_hashes_routes_least_loaded = Some ()"
  by (simp add: test_empty_hashes_routes_least_loaded_def run_simps del: f64_gt.simps cong: bind_weak let_weak_cong)

lemma run_round_robin_cycles_and_ignores_cache: "test_round_robin_cycles_and_ignores_cache = Some ()"
  by (simp add: test_round_robin_cycles_and_ignores_cache_def run_simps pick_and_complete_numeral Let_def del: f64_gt.simps cong: bind_weak let_weak_cong)

lemma run_round_robin_skips_unhealthy_replica: "test_round_robin_skips_unhealthy_replica = Some ()"
  by (simp add: test_round_robin_skips_unhealthy_replica_def run_simps pick_and_complete_numeral Let_def del: f64_gt.simps cong: bind_weak let_weak_cong)

text \<open>The rounds of the eviction test: no round fails, and the invariant keeps the budget.\<close>

definition idle :: "scheduler \<Rightarrow> bool" where
  "idle s = (sched_inv s \<and> replicas s \<noteq> [] \<and> list_all (\<lambda>r. healthy r \<and> inflight r = 0) (replicas s))"

lemma idle_round:
  assumes "idle s" and "0 < max_inflight (cfg s)"
  shows "\<exists>s1 d s2. pick_unwrap s hs = Some (s1, d) \<and> complete s1 (replica d) = Some s2 \<and>
    idle s2 \<and> cfg s2 = cfg s \<and> length (replicas s2) = length (replicas s)"
proof -
  from assms have "hd (replicas s) \<in> set (replicas s)" "available (cfg s) (hd (replicas s))"
    by (cases "replicas s"; simp add: idle_def available_def)+
  then obtain i m where d: "decides s hs i m" using decides_exists by blast
  obtain s1 d where p: "pick s hs = Some (s1, Inr d)" using pick_decides[OF d] by blast
  from pick_decision(2)[OF p] decides_available[OF pick_decision(1)[OF p]]
  have "replica d < length (replicas s1)" by simp
  then obtain s2 where c: "complete s1 (replica d) = Some s2" by (auto simp: complete_def vec_get_def)
  note f = pick_then_complete[OF p c]
  have "sched_inv s2" using sched_inv_complete[OF sched_inv_pick[OF _ p] c] assms(1) by (simp add: idle_def)
  moreover have "healthy (replicas s2 ! j) \<and> inflight (replicas s2 ! j) = 0" if "j < length (replicas s)" for j
    using f(4)[of j] f(6) that assms(1)
    by (cases "j = replica d") (simp_all add: idle_def list_all_length routed_def)
  ultimately have "idle s2" using f(1) assms(1) by (auto simp: idle_def list_all_length)
  with p c f(1,2) show ?thesis by (auto simp: pick_unwrap_def)
qed

lemma seed_rounds_ok:
  "idle s \<Longrightarrow> 0 < max_inflight (cfg s) \<Longrightarrow>
    \<exists>s'. seed_rounds n i s = Some s' \<and> idle s' \<and> cfg s' = cfg s \<and> length (replicas s') = length (replicas s)"
proof (induction n arbitrary: i s)
  case (Suc n)
  from idle_round[OF Suc.prems, of "[i * 10, i * 10 + 1]"] obtain s1 d s2 where
    "pick_unwrap s [i * 10, i * 10 + 1] = Some (s1, d)" "complete s1 (replica d) = Some s2"
    "idle s2" "cfg s2 = cfg s" "length (replicas s2) = length (replicas s)" by blast
  with Suc.IH[of s2 "i + 1"] Suc.prems(2) show ?case by simp
qed simp

lemma run_eviction_respects_block_budget: "test_eviction_respects_block_budget = Some ()"
proof -
  let ?c = "default_config\<lparr>block_budget := 4\<rparr>"
  let ?s = "scheduler_new 1 CacheAware ?c"
  have "idle ?s" using sched_inv_new[of 1 CacheAware ?c] by (simp add: idle_def) (simp add: scheduler_new_def new_replica_def)
  moreover have "0 < max_inflight (cfg ?s)" by (simp add: scheduler_new_def default_config_def)
  ultimately obtain s where s: "seed_rounds 10 0 ?s = Some s" "idle s" "cfg s = ?c" "length (replicas s) = 1"
    using seed_rounds_ok[of ?s 10 0] by (auto simp: scheduler_new_def)
  from s(2-4) have "num_blocks (cache (replicas s ! 0)) \<le> 4"
    using sched_inv_nth[of s 0] by (simp add: idle_def replica_inv_def)
  with s(1,4) show ?thesis
    by (simp add: test_eviction_respects_block_budget_def replica_blocks_def vec_get_def del: length_greater_0_conv)
qed

lemma scheduler_tests_run: "list_all (\<lambda>t. t = Some ()) scheduler_tests"
  by (simp add: scheduler_tests_def run_same_prefix_pins_to_same_replica run_cold_traffic_goes_least_loaded
      run_round_robin_cycles_and_ignores_cache run_unhealthy_replica_skipped_and_cache_dropped
      run_all_replicas_at_cap_returns_all_saturated run_no_healthy_replicas_error run_eviction_respects_block_budget
      run_fallback_reports_actual_matched_blocks run_matched_equal_to_min_match_blocks
      run_empty_hashes_routes_least_loaded run_round_robin_skips_unhealthy_replica)

end
