(* ===== verification/Tests_Tokenizer.thy ===== *)
theory Tests_Tokenizer
  imports Router_Main Tests_Cache
begin

text \<open>
  The unit tests of \<open>router/src/tokenizer.rs\<close>. They are about a tokenizer file that the repository does
  not hold, so they do not pass for every parameter: \<open>tokenizer_tests_iff\<close> says for which ones they do,
  and \<open>tokenizer_tests_share_blocks\<close> what a router with such a tokenizer makes of the two prompts.
\<close>

text \<open>\<open>Result::unwrap\<close>, and the slice \<open>v[..n]\<close>, which panics when \<open>n\<close> is past the end.\<close>

fun result_unwrap :: "'e + 'a \<Rightarrow> 'a panics" where
  "result_unwrap (Inl e) = None"
| "result_unwrap (Inr x) = Some x"

definition slice_to :: "'a list \<Rightarrow> usize \<Rightarrow> 'a list panics" where
  "slice_to xs n = (if n \<le> length xs then Some (take n xs) else None)"

definition FOX :: string where
  "FOX = ''The quick brown fox jumps over the lazy dog.''"

definition test_tokenize_is_deterministic_and_prefix_stable ::
  "(string \<Rightarrow> string option) \<Rightarrow> (string \<Rightarrow> string + u32 list) \<Rightarrow> unit panics" where
  "test_tokenize_is_deterministic_and_prefix_stable tokenizer_error encode = do {
     _ \<leftarrow> result_unwrap (from_file tokenizer_error ''../../data/tokenizer.json'');
     a \<leftarrow> result_unwrap (tokenize encode FOX);
     b \<leftarrow> result_unwrap (tokenize encode (FOX @ '' And more text.''));
     _ \<leftarrow> assert_that (a \<noteq> []);
     again \<leftarrow> result_unwrap (tokenize encode FOX);
     _ \<leftarrow> assert_that (a = again);
     b_front \<leftarrow> slice_to b (length a);
     a_front \<leftarrow> slice_to a (length a);
     assert_that (b_front = a_front)
   }"

definition test_empty_prompt_tokenizes_to_empty ::
  "(string \<Rightarrow> string option) \<Rightarrow> (string \<Rightarrow> string + u32 list) \<Rightarrow> unit panics" where
  "test_empty_prompt_tokenizes_to_empty tokenizer_error encode = do {
     _ \<leftarrow> result_unwrap (from_file tokenizer_error ''../../data/tokenizer.json'');
     ids \<leftarrow> result_unwrap (tokenize encode []);
     assert_that (ids = [])
   }"

lemma result_unwrap_Some: "result_unwrap res = Some x \<longleftrightarrow> res = Inr x"
  by (cases res) auto

lemma from_file_loads: "from_file tokenizer_error path = Inr u \<longleftrightarrow> tokenizer_error path = None"
  by (simp add: from_file_def split: option.splits)

lemma tokenize_Inr: "tokenize encode s = Inr ids \<longleftrightarrow> encode s = Inr ids"
  by (simp add: tokenize_def split: sum.splits)

lemma slices_agree:
  "(\<exists>front. slice_to b (length a) = Some front \<and> slice_to a (length a) = Some front) \<longleftrightarrow> prefix a b"
  by (auto simp: slice_to_def prefix_def) (metis append_take_drop_id)

lemma tokenizer_tests_iff:
  "test_tokenize_is_deterministic_and_prefix_stable tokenizer_error encode = Some () \<longleftrightarrow>
    tokenizer_error ''../../data/tokenizer.json'' = None \<and>
    (\<exists>a b. encode FOX = Inr a \<and> encode (FOX @ '' And more text.'') = Inr b \<and> a \<noteq> [] \<and> prefix a b)"
  "test_empty_prompt_tokenizes_to_empty tokenizer_error encode = Some () \<longleftrightarrow>
    tokenizer_error ''../../data/tokenizer.json'' = None \<and> encode [] = Inr []"
  unfolding test_tokenize_is_deterministic_and_prefix_stable_def test_empty_prompt_tokenizes_to_empty_def
  by (auto simp: bind_eq_Some_conv result_unwrap_Some from_file_loads tokenize_Inr simp flip: slices_agree)

text \<open>What the tests promise of the tokenizer reaches the hashes: the blocks of the shorter prompt
  begin those of the longer one, so the second finds the first in a cache; an empty prompt is
  not an error but a request without blocks.\<close>

lemma tokenizer_tests_share_blocks:
  assumes "test_tokenize_is_deterministic_and_prefix_stable tokenizer_error encode = Some ()"
    and "test_empty_prompt_tokenizes_to_empty tokenizer_error encode = Some ()"
  shows "\<exists>hs hs'. hash_prompt (tokenize encode) FOX = Inr hs \<and>
      hash_prompt (tokenize encode) (FOX @ '' And more text.'') = Inr hs' \<and> prefix hs hs'"
    and "hash_prompt (tokenize encode) [] = Inr []"
proof -
  from assms(1) obtain a b where ab: "encode FOX = Inr a" "encode (FOX @ '' And more text.'') = Inr b" "prefix a b"
    by (auto simp: tokenizer_tests_iff)
  then show "\<exists>hs hs'. hash_prompt (tokenize encode) FOX = Inr hs \<and>
      hash_prompt (tokenize encode) (FOX @ '' And more text.'') = Inr hs' \<and> prefix hs hs'"
    by (simp add: hash_prompt_def tokenize_def block_hashes_prefix)
  from assms(2) show "hash_prompt (tokenize encode) [] = Inr []"
    by (simp add: tokenizer_tests_iff hash_prompt_def tokenize_def block_hashes_def chunks_exact.simps BLOCK_SIZE_def)
qed

end
