(* ===== verification/Spec2Isabelle.thy ===== *)
theory Spec2Isabelle
  imports Bench Compose Fleet_Concurrent Handler_Runs Health_Prober Process Replica_Concurrent Router_Gauges Scheduler_Spec
    Tests_Integration Tests_Scheduler Tests_Tokenizer
begin

text \<open>
  DynamoRouter is a gRPC router in Rust for a fleet of inference replicas. It predicts which replica
  has the longest prefix of a prompt in its KV cache and sends the prompt there, unless that
  replica is too loaded. The repository holds the router (\<open>crates/router\<close>), a mock replica
  (\<open>crates/mock-triton\<close>), the shared protocol (\<open>crates/protocol\<close>) and a load generator
  (\<open>crates/loadgen\<close>). This development models all four as executable HOL definitions.

  How the parts interact. A prompt is tokenized and cut into blocks of 16 tokens, and every block
  gets a hash that commits to all blocks before it. The scheduler keeps, per replica, a picture of
  the cached hashes (a prefix cache), a count of requests in flight and a health flag; \<open>pick\<close> makes
  one decision and records the prompt in the picture of the chosen replica. The server wraps the
  scheduler in a mutex: a unary request picks, awaits the replica, completes, and on a transport
  failure marks the replica unhealthy and tries once more; a streaming request picks once and
  forwards chunks; a prober flips the health flags. The mock replica has a cache simulation with the
  same eviction rule, sleeps for the uncached tokens, and reports the cached blocks in its response,
  where the load generator reads them.

  Theories and code.
  \<^item> \<open>Prelude\<close>: names for the machine integers, \<open>panics\<close> (an option whose \<open>None\<close> is a panic),
    indexing, \<open>min_by_key\<close>, and shared facts on lists and words.
  \<^item> \<open>Std_Collections\<close>: Rust's hash map as an association list and binary heap as a list, with the
    laws their clients use as the locales \<open>hash_map_api\<close> and \<open>binary_heap_api\<close>.
  \<^item> \<open>Lru_Spec\<close>: the abstract specification of a block cache, a list of hashes from the most to the
    least protected, with its own facts (tail-first order, prefix-closed content).
  \<^item> \<open>Lazy_Lru\<close>: what \<open>router/src/prefix_cache.rs\<close> and \<open>mock-triton/src/cache.rs\<close> have in common: the
    map, the lazily cleaned heap, the clock and the sequence number; the eviction loop with its
    termination proof; the abstraction \<open>recency\<close> to the specification.
  \<^item> \<open>Prefix_Cache\<close> and \<open>Kv_Cache_Sim\<close>: the operations of the two files, in the order of the code, and
    their refinement of the specification, through the locales \<open>prefix_index\<close>, \<open>recency_index\<close>
    and \<open>block_admission\<close>.
  \<^item> \<open>Blocks\<close>: \<open>protocol/src/blocks.rs\<close>, the chained FNV-1a hashes on 64-bit words.
  \<^item> \<open>F64\<close>: the double-precision arithmetic that the score uses, with rounding to nearest even.
    The sign of zero is left out, since only comparisons and casts observe the results.
  \<^item> \<open>Scheduler\<close> and \<open>Scheduler_Props\<close>: \<open>router/src/scheduler.rs\<close>; \<open>pick\<close> with its scan, its two
    policies and its tail, and the other methods; then totality, errors, optimality, round robin,
    runs of calls, and the accounting of requests.
  \<^item> \<open>Scheduler_Spec\<close>: the contract of the scheduler, over plain recency lists and integers, and its
    refinement by \<open>Scheduler\<close>.
  \<^item> \<open>Proto\<close> and \<open>Channel\<close>: the messages of \<open>protocol/proto/inference.proto\<close> with every
    field, the gRPC status, UTF-8 validation, and the sending half of a stream's channel.
  \<^item> \<open>Router_Server\<close> and \<open>Router_Props\<close>: \<open>router/src/server.rs\<close> (and \<open>tokenizer.rs\<close>): the critical
    sections, the unary handler with its retry, the streaming task, readiness, metadata, the prober;
    then the properties of each. The locale \<open>scheduler_api\<close> is what the server relies on.
  \<^item> \<open>Router_System\<close>: the same handlers side by side, as a step relation whose steps are the critical
    sections of \<open>server.rs\<close> in any order. \<open>Router_Cancel\<close> adds clients that leave. \<open>Handler_Runs\<close>: every
    run of a handler of \<open>Router_Server\<close>, whatever runs during its awaited calls, is a run of that
    relation. \<open>Router_Gauges\<close> splits the critical sections further, where the code gives the mutex
    back before it stores a gauge. \<open>Health_Prober\<close>: the prober with its ticker, its timeouts and its
    joins, in milliseconds, as one more part of that system.
  \<^item> \<open>Router_Main\<close> and \<open>Startup\<close>: \<open>router/src/main.rs\<close> and \<open>mock-triton/src/main.rs\<close>, from the arguments
    to the running state. \<open>Telemetry\<close>: the metrics that both register (\<open>router/src/telemetry.rs\<close>) and
    the tracing layers that are installed. \<open>Process\<close>: the life of the two processes, from tracing over
    the listeners to the gRPC server, then signal, drain, flush and exit.
  \<^item> \<open>Mock_Service\<close>: \<open>mock-triton/src/service.rs\<close>. \<open>Replica_Concurrent\<close>: its prefills side by side,
    interrupted at the mutex, at the two counters and at the sleep.
  \<^item> \<open>Loadgen\<close>: \<open>loadgen/src/trace.rs\<close> and the requests of \<open>loadgen/src/main.rs\<close>. \<open>Load_Run\<close>: its
    concurrent tasks behind the semaphore. \<open>Load_Report\<close>: latencies, percentiles, hit rate, on the
    operations of \<open>F64_Round\<close> (casts, rounding, division, sorting, decimal literals).
  \<^item> \<open>Fleet\<close> and \<open>Deployment\<close>: the properties that span components: affinity of a prompt to its replica,
    exactness of the router's prediction, and agreement of the three places where blocks are counted.
    \<open>Fleet_Concurrent\<close>: what of that remains when requests overlap. \<open>Conversations\<close>: what a prompt finds of
    the prompts before it, by the distance between them in blocks. \<open>Compose\<close>: the same for the settings of
    \<open>docker/docker-compose.yml\<close> and the conversations of the trace.
    \<open>Wire\<close>: round trips and types of the messages. \<open>Bench\<close>: the load generator against the router and
    its replicas, down to the printed report.
  \<^item> \<open>Tests_Cache\<close>, \<open>Tests_Scheduler\<close>, \<open>Tests_Service\<close>: the unit tests of the repository, translated
    statement by statement and run on the model. \<open>Tests_Integration\<close>: the tests of
    \<open>mock-triton/tests/service.rs\<close> and \<open>router/tests/integration.rs\<close>, with the client calling the
    handlers and the mock service as the upstream of the router. \<open>Tests_Tokenizer\<close>: the tests of
    \<open>router/src/tokenizer.rs\<close>, which depend on a tokenizer file, with the exact condition to pass.

  State and effects. A struct is a record with the fields of the code, a method with \<open>&mut self\<close> returns
  the new record, \<open>Result\<close> is a sum with the error on the left, and a panic (an index out of bounds, a
  failed \<open>unwrap\<close>) is \<open>None\<close>, so that the absence of panics is proved and not assumed. Clocks,
  sequence numbers, hashes and counters are 64-bit words that wrap; \<open>usize\<close> is \<open>nat\<close>, cast where the
  code casts.

  Bounds. Every loop but the eviction loop and the cutting into blocks is structural; these two have a
  measure (the heap, the list). No definition uses fuel. Theorems about the order of eviction ask
  that fewer than 2^64 touches and ticks happened; theorems about exact scores ask for counts below
  2^51, far below the 2^53 up to which doubles are exact, and the theorem about the report for fewer
  than 2^46 results and blocks, where the error of the percentage is at most 2^-45 and the
  percentile index is exact. A task of \<open>Router_System\<close> takes at most six steps, a task of \<open>Load_Run\<close>
  two more than its conversation has turns; what is left of a drain is bounded by the steps of the
  tasks in flight. In \<open>Health_Prober\<close> a pass takes at most one timeout.

  Groups of lemmas. Refinement: both caches behave as the abstract list (\<open>prefix_cache_refines_lru\<close>,
  \<open>kv_cache_refines_lru\<close>), which gives exact eviction, no orphan blocks, bounds; the scheduler
  behaves as its contract (\<open>scheduler_refines_contract\<close>). Hashing: the hashes
  are the running FNV-1a, equal prefixes give equal hashes, one changed token changes all later ones,
  chains form a tree without collisions. Scheduling: errors exactly when nothing is available, top
  score or least load, integer argmax under the default weights, affinity, fairness, invariants of runs.
  Serving: retry discipline, counters, no leaked in-flight count on any path or interleaving, replies
  in order; what a cancelled request leaves behind; a gauge that stays behind its count. Process:
  start-up comes up completely or fails with a non-zero code, a clean exit means drained and flushed.
  System: prediction equals what the replicas report, also in sum when requests overlap and nothing is
  evicted; a prompt finds the history it shares with an earlier one, as long as the budget covers
  what came between; overlapping prefills are served as if one after the other; the printed report shows the
  router's counters. Health: a dead replica is out of routing after a bounded time. Load generator: bounded concurrency,
  completion, independence of the interleaving, the numbers of the report.

  Parameters. The tokenizer's \<open>encode\<close>, the printed form of status codes, the upstream replicas as the
  router sees them, URL and tokenizer-file errors, the acceptance and registration of metrics by the
  prometheus crate, the building of the OTLP exporter, the ports that can be bound, the time of the next tick of tokio's interval
  and how the probes' calls go. No property assumes anything of them beyond
  what its statement says; \<open>Deployment\<close> instantiates the upstream with the mock replicas.

  Not modelled: sockets, HTTP/2, the timeouts of the replicas' endpoints and the scheduling of the tokio runtime, of which
  only the interleavings at await points and mutexes and the prober's waiting appear; log lines and spans; the argument parsers and the
  JSON parser, whose results are inputs; the wall time and throughput lines of the report; the
  protobuf build script and the generated gRPC code; the Docker files and scripts beyond the
  environment of the two binaries.
\<close>

subsection \<open>The repository's unit tests\<close>



end
